(* ===== verification/Prelude.thy ===== *)
theory Prelude
  imports Main "HOL-Library.Word" "HOL-Library.Monad_Syntax"
begin

text \<open>
  Shared vocabulary of the development: the machine integers of the C++ sources, the
  linear searches that the sources write as \<open>for\<close> loops with an early exit, the polling
  loops that the sources write as \<open>while (...) usleep(...)\<close>, reachability of a step
  relation, and the interface (locale) of a step relation with an inductive invariant.
\<close>

named_theorems machine_int \<open>rewriting of the fixed width integers\<close>
named_theorems fields \<open>read-after-write facts of the component operations\<close>

section \<open>Fixed width integers\<close>

text \<open>
  \<open>int32_t\<close> and \<open>int64_t\<close> are kept as mathematical integers; every operation that the
  sources perform with wrap-around (the atomic \<open>fetch_add\<close> and \<open>fetch_sub\<close>, and the casts)
  is written with \<open>wrap32\<close> or \<open>wrap64\<close>, two's complement reduction. C leaves the
  overflow of a plain signed \<open>+\<close> or \<open>*\<close> undefined; where such an expression is modelled,
  \<open>wrap32\<close> and \<open>wrap64\<close> are what the x86-64 target computes.
\<close>

definition wrap32 :: "int \<Rightarrow> int" where
  "wrap32 x = (x + 2147483648) mod 4294967296 - 2147483648"

definition wrap64 :: "int \<Rightarrow> int" where
  "wrap64 x = (x + 9223372036854775808) mod 18446744073709551616 - 9223372036854775808"

definition in_i32 :: "int \<Rightarrow> bool" where
  "in_i32 x \<longleftrightarrow> - 2147483648 \<le> x \<and> x \<le> 2147483647"

definition in_i64 :: "int \<Rightarrow> bool" where
  "in_i64 x \<longleftrightarrow> - 9223372036854775808 \<le> x \<and> x \<le> 9223372036854775807"

abbreviation INT64_MAX :: int where
  "INT64_MAX \<equiv> 9223372036854775807"

lemma wrap32_id [machine_int]: "in_i32 x \<Longrightarrow> wrap32 x = x"
  by (simp add: wrap32_def in_i32_def)

lemma wrap64_id [machine_int]: "in_i64 x \<Longrightarrow> wrap64 x = x"
  by (simp add: wrap64_def in_i64_def)

lemma wrap32_range [simp, intro]: "in_i32 (wrap32 x)"
  using pos_mod_bound [of 4294967296 "x + 2147483648"] pos_mod_sign [of 4294967296 "x + 2147483648"]
  by (simp add: wrap32_def in_i32_def)

lemma wrap64_range [simp, intro]: "in_i64 (wrap64 x)"
  using pos_mod_bound [of 18446744073709551616 "x + 9223372036854775808"]
    pos_mod_sign [of 18446744073709551616 "x + 9223372036854775808"]
  by (simp add: wrap64_def in_i64_def)

lemma shift_mod_cong: "x mod m = y mod m \<Longrightarrow> (x + c) mod m - c = (y + c) mod m - (c :: int)"
  by (metis mod_add_left_eq)

lemma shift_mod_absorb: "((x + c) mod m - c) mod m = x mod (m :: int)"
  by (simp add: mod_diff_left_eq)

lemma wrap64_cong: "x mod 18446744073709551616 = y mod 18446744073709551616 \<Longrightarrow> wrap64 x = wrap64 y"
  unfolding wrap64_def by (rule shift_mod_cong)

lemma wrap64_mod: "wrap64 x mod 18446744073709551616 = x mod 18446744073709551616"
  unfolding wrap64_def by (rule shift_mod_absorb)

lemma wrap64_add_left [simp]: "wrap64 (wrap64 x + y) = wrap64 (x + y)"
  by (rule wrap64_cong, subst mod_add_left_eq [symmetric], subst wrap64_mod, rule mod_add_left_eq)

lemma wrap64_diff_left [simp]: "wrap64 (wrap64 x - y) = wrap64 (x - y)"
  by (rule wrap64_cong, subst mod_diff_left_eq [symmetric], subst wrap64_mod, rule mod_diff_left_eq)

lemma wrap64_0 [simp]: "wrap64 0 = 0"
  by (simp add: wrap64_def)

text \<open>C's integer division and remainder truncate towards zero.\<close>

definition c_div :: "int \<Rightarrow> int \<Rightarrow> int" where
  "c_div a b = sgn a * sgn b * (\<bar>a\<bar> div \<bar>b\<bar>)"

definition c_mod :: "int \<Rightarrow> int \<Rightarrow> int" where
  "c_mod a b = a - b * c_div a b"

lemma c_div_nonneg [machine_int]: "0 \<le> a \<Longrightarrow> 0 < b \<Longrightarrow> c_div a b = a div b"
  by (cases "a = 0") (auto simp: c_div_def)

lemma c_mod_nonneg [machine_int]: "0 \<le> a \<Longrightarrow> 0 < b \<Longrightarrow> c_mod a b = a mod b"
  by (simp add: c_mod_def c_div_nonneg minus_mult_div_eq_mod)

section \<open>Linear search\<close>

text \<open>
  \<open>for (i = 0; i < n; i++) if (P(a[i])) { ...; break; }\<close>: the first index whose element
  satisfies the test.
\<close>

fun first_index :: "('a \<Rightarrow> bool) \<Rightarrow> 'a list \<Rightarrow> nat option" where
  "first_index P [] = None"
| "first_index P (x # xs) = (if P x then Some 0 else map_option Suc (first_index P xs))"

lemma first_index_None_iff: "first_index P xs = None \<longleftrightarrow> (\<forall>x \<in> set xs. \<not> P x)"
  by (induction xs) auto

lemma first_index_SomeD:
  "first_index P xs = Some i \<Longrightarrow> i < length xs \<and> P (xs ! i) \<and> (\<forall>j < i. \<not> P (xs ! j))"
proof (induction xs arbitrary: i)
  case (Cons x xs)
  then show ?case
    by (cases i) (auto split: if_splits simp: less_Suc_eq_0_disj)
qed simp

lemma first_index_SomeI:
  "i < length xs \<Longrightarrow> P (xs ! i) \<Longrightarrow> \<forall>j < i. \<not> P (xs ! j) \<Longrightarrow> first_index P xs = Some i"
proof (induction xs arbitrary: i)
  case (Cons x xs)
  show ?case
  proof (cases i)
    case 0
    with Cons.prems show ?thesis by simp
  next
    case (Suc k)
    from Cons.prems(3) Suc have "\<not> P x" by force
    moreover from Cons.prems Suc have "first_index P xs = Some k"
      by (intro Cons.IH) force+
    ultimately show ?thesis using Suc by simp
  qed
qed simp

section \<open>Sums over tables\<close>

lemma sum_list_update_int:
  "i < length xs \<Longrightarrow> sum_list (map f (xs[i := y])) = sum_list (map f xs) - f (xs ! i) + (f y :: int)"
  by (induction xs arbitrary: i) (auto split: nat.split)

lemma sum_list_map_nonneg: "(\<And>x. x \<in> set xs \<Longrightarrow> 0 \<le> f x) \<Longrightarrow> 0 \<le> sum_list (map f xs :: int list)"
  by (induction xs) auto

section \<open>Polling loops\<close>

text \<open>
  A thread that spins on shared memory sees, between one poll and the next, whatever the
  other threads and processes did. \<open>poll\<close> runs a spin loop against an explicit list of such
  interferences: \<open>body s\<close> is one evaluation of the loop condition, \<open>Inr r\<close> when the loop is
  left with result \<open>r\<close> and \<open>Inl s'\<close> when the thread goes to sleep in state \<open>s'\<close>. The result
  is \<open>None\<close> when the thread is still spinning after the last interference, otherwise the
  result and the interferences that are left for the code after the loop.
\<close>

fun poll :: "('s \<Rightarrow> 's + 'r) \<Rightarrow> ('s \<Rightarrow> 's) list \<Rightarrow> 's \<Rightarrow> ('r \<times> ('s \<Rightarrow> 's) list) option" where
  "poll body es s = (case body s of
      Inr r \<Rightarrow> Some (r, es)
    | Inl s' \<Rightarrow> (case es of [] \<Rightarrow> None | e # es' \<Rightarrow> poll body es' (e s')))"

declare poll.simps [simp del]

lemma poll_exit: "body s = Inr r \<Longrightarrow> poll body es s = Some (r, es)"
  by (simp add: poll.simps)

lemma poll_Nil: "body s = Inl s' \<Longrightarrow> poll body [] s = None"
  by (simp add: poll.simps)

lemma poll_Cons: "body s = Inl s' \<Longrightarrow> poll body (e # es) s = poll body es (e s')"
  by (subst poll.simps) simp

lemmas poll_unfold = poll_exit poll_Nil poll_Cons

text \<open>Rule for loops that cannot be left: the state stays inside a set of stuck states.\<close>

lemma poll_stuck:
  assumes "I s" and "\<And>s. I s \<Longrightarrow> \<exists>s'. body s = Inl s' \<and> (\<forall>e \<in> set es. I (e s'))"
  shows "poll body es s = None"
  using assms
proof (induction es arbitrary: s)
  case Nil
  then show ?case by (metis poll_Nil)
next
  case (Cons e es)
  from Cons.prems obtain s' where "body s = Inl s'" and "I (e s')" by fastforce
  moreover have "poll body es (e s') = None"
    using \<open>I (e s')\<close> Cons.prems(2) by (intro Cons.IH) fastforce+
  ultimately show ?case by (simp add: poll_Cons)
qed

text \<open>Rule for the result of a loop that was left: an invariant of the polled states.\<close>

lemma poll_result:
  assumes "poll body es s = Some (r, es')" and "I s"
    and "\<And>s s' e. I s \<Longrightarrow> body s = Inl s' \<Longrightarrow> e \<in> set es \<Longrightarrow> I (e s')"
  shows "\<exists>t. I t \<and> body t = Inr r"
  using assms
proof (induction es arbitrary: s)
  case Nil
  then show ?case by (subst (asm) poll.simps) (auto split: sum.splits)
next
  case (Cons e es)
  show ?case
  proof (cases "body s")
    case (Inl s')
    with Cons.prems have "poll body es (e s') = Some (r, es')" and "I (e s')"
      by (auto simp: poll_Cons)
    then show ?thesis using Cons.prems(3) by (intro Cons.IH) auto
  next
    case (Inr r')
    with Cons.prems show ?thesis by (auto simp: poll_exit)
  qed
qed

lemma poll_rest: "poll body es s = Some (r, es') \<Longrightarrow> set es' \<subseteq> set es"
proof (induction es arbitrary: s)
  case Nil
  then show ?case by (subst (asm) poll.simps) (auto split: sum.splits)
next
  case (Cons e es)
  then show ?case by (cases "body s") (fastforce simp: poll_exit poll_Cons)+
qed

section \<open>Reachable states\<close>

inductive reach :: "('s \<Rightarrow> 's \<Rightarrow> bool) \<Rightarrow> 's \<Rightarrow> 's \<Rightarrow> bool" for step where
  reach_refl: "reach step s s"
| reach_step: "reach step s t \<Longrightarrow> step t u \<Longrightarrow> reach step s u"

lemma reach_one: "step s t \<Longrightarrow> reach step s t"
  by (rule reach_step [OF reach_refl])

lemma reach_trans: "reach step s t \<Longrightarrow> reach step t u \<Longrightarrow> reach step s u"
  by (rotate_tac, induction rule: reach.induct) (auto intro: reach_step)

lemma reach_Cons: "step s t \<Longrightarrow> reach step t u \<Longrightarrow> reach step s u"
  by (blast intro: reach_one reach_trans)

text \<open>
  The contract of a step relation with an invariant: the client lemma lifts the invariant
  to every state of every execution.
\<close>

locale inductive_invariant =
  fixes step :: "'s \<Rightarrow> 's \<Rightarrow> bool" and inv :: "'s \<Rightarrow> bool"
  assumes step_inv: "inv s \<Longrightarrow> step s t \<Longrightarrow> inv t"
begin

lemma reach_inv: "reach step s t \<Longrightarrow> inv s \<Longrightarrow> inv t"
  by (induction rule: reach.induct) (auto intro: step_inv)

end

end
