(* ===== verification/Float32.thy ===== *)
theory Float32
  imports Prelude Complex_Main
begin

text \<open>
  The part of IEEE 754 binary32 arithmetic that the sources use (\<open>float\<close> weights in
  \<open>round_manager.cpp\<close>, the \<open>pct/100.0f\<close> of \<open>libbless.cpp\<close>): a finite value is the
  rational it denotes, every operation rounds to nearest even with a 24 bit significand,
  gradual underflow below \<open>2\<^sup>-\<^sup>1\<^sup>2\<^sup>6\<close> and overflow to infinity at \<open>2\<^sup>1\<^sup>2\<^sup>8\<close>. The sign of zero
  is not kept: no expression of the sources can observe it.
\<close>

section \<open>Rounding\<close>

fun blen :: "nat \<Rightarrow> nat" where
  "blen n = (if n = 0 then 0 else Suc (blen (n div 2)))"

declare blen.simps [simp del]

definition ilog2 :: "rat \<Rightarrow> int" where
  "ilog2 x = (let (a, b) = quotient_of x; e = int (blen (nat a)) - int (blen (nat b))
    in if 2 powi e \<le> x then e else e - 1)"

definition rne :: "rat \<Rightarrow> int" where
  "rne x = (let f = \<lfloor>x\<rfloor>; d = x - of_int f
    in if d < 1/2 then f else if d > 1/2 then f + 1 else if even f then f else f + 1)"

definition ulp32 :: "rat \<Rightarrow> rat" where
  "ulp32 x = 2 powi (max (ilog2 \<bar>x\<bar>) (-126) - 23)"

definition rnd32 :: "rat \<Rightarrow> rat" where
  "rnd32 x = (if x = 0 then 0 else of_int (rne (x / ulp32 x)) * ulp32 x)"

lemma blen_bounds: "0 < n \<Longrightarrow> 2 ^ (blen n - 1) \<le> n \<and> n < 2 ^ blen n"
proof (induction n rule: blen.induct)
  case (1 n)
  show ?case
  proof (cases "n = 1")
    case True
    then show ?thesis by (simp add: blen.simps)
  next
    case False
    with 1 have IH: "2 ^ (blen (n div 2) - 1) \<le> n div 2 \<and> n div 2 < 2 ^ blen (n div 2)"
      and pos: "0 < n div 2" by auto
    then have "0 < blen (n div 2)" by (simp add: blen.simps)
    then obtain k where k: "blen (n div 2) = Suc k" by (metis gr0_implies_Suc)
    with "1.prems" have b: "blen n = Suc (Suc k)" by (simp add: blen.simps)
    have lo: "2 ^ k \<le> n div 2" and hi: "n div 2 < 2 ^ Suc k" using IH k by auto
    have "2 * 2 ^ k \<le> n" using lo by linarith
    moreover have "n < 2 * 2 ^ Suc k" using hi by linarith
    ultimately show ?thesis using b by simp
  qed
qed

lemma blen_pos: "0 < n \<Longrightarrow> 0 < blen n"
  by (simp add: blen.simps)

lemma powi_blen: "0 < n \<Longrightarrow> (2::rat) powi (int (blen n) - 1) \<le> of_nat n \<and> of_nat n < (2::rat) powi int (blen n)"
proof -
  assume n: "0 < n"
  from blen_pos [OF n] obtain k where k: "blen n = Suc k" by (metis gr0_implies_Suc)
  have "2 ^ k \<le> n" and "n < 2 ^ Suc k" using blen_bounds [OF n] k by auto
  then have "of_nat (2 ^ k) \<le> (of_nat n :: rat)" and "(of_nat n :: rat) < of_nat (2 ^ Suc k)"
    by (simp_all only: of_nat_le_iff of_nat_less_iff)
  then show ?thesis using k by (simp add: power_int_add)
qed

lemma ilog2_bounds:
  assumes "0 < x"
  shows "2 powi (ilog2 x) \<le> x" and "x < 2 powi (ilog2 x + 1)"
proof -
  obtain a b where q: "quotient_of x = (a, b)" by force
  have b: "0 < b" using q by (rule quotient_of_denom_pos)
  have x: "x = of_int a / of_int b" using q by (rule quotient_of_div)
  with assms b have a: "0 < a" by (simp add: zero_less_divide_iff)
  define la lb where "la = int (blen (nat a))" and "lb = int (blen (nat b))"
  have A: "(2::rat) powi (la - 1) \<le> of_int a" "(of_int a :: rat) < 2 powi la"
    using powi_blen [of "nat a"] a by (simp_all add: la_def)
  have B: "(2::rat) powi (lb - 1) \<le> of_int b" "(of_int b :: rat) < 2 powi lb"
    using powi_blen [of "nat b"] b by (simp_all add: lb_def)
  have lo: "2 powi (la - lb - 1) \<le> x"
  proof -
    have "(2::rat) powi (la - lb - 1) = 2 powi (la - 1) / 2 powi lb"
      by (simp flip: power_int_diff) (simp add: algebra_simps)
    also have "\<dots> \<le> of_int a / of_int b"
      using A(1) B(2) a b by (intro frac_le) auto
    finally show ?thesis using x by simp
  qed
  have hi: "x < 2 powi (la - lb + 1)"
  proof -
    have "of_int a / of_int b < (2::rat) powi la / 2 powi (lb - 1)"
      using A(2) B(1) a b by (intro frac_less) auto
    also have "\<dots> = 2 powi (la - lb + 1)"
      by (simp flip: power_int_diff) (simp add: algebra_simps)
    finally show ?thesis using x by simp
  qed
  have "ilog2 x = (if 2 powi (la - lb) \<le> x then la - lb else la - lb - 1)"
    by (simp add: ilog2_def q Let_def la_def lb_def)
  then show "2 powi (ilog2 x) \<le> x" and "x < 2 powi (ilog2 x + 1)"
    using lo hi by (auto split: if_splits)
qed

lemma rne_error: "\<bar>of_int (rne x) - x\<bar> \<le> 1/2"
proof -
  have "of_int \<lfloor>x\<rfloor> \<le> x" and "x < of_int \<lfloor>x\<rfloor> + 1" by linarith+
  then show ?thesis by (auto simp: rne_def Let_def)
qed

lemma rne_nonneg: "0 \<le> x \<Longrightarrow> 0 \<le> rne x"
  by (auto simp: rne_def Let_def)

lemma rne_of_int [simp]: "rne (of_int n) = n"
  by (simp add: rne_def)

lemma ulp32_pos [simp]: "0 < ulp32 x"
  by (simp add: ulp32_def)

lemma rnd32_nonneg: "0 \<le> x \<Longrightarrow> 0 \<le> rnd32 x"
  by (simp add: rnd32_def rne_nonneg less_imp_le)

lemma rnd32_abs_error: "\<bar>rnd32 x - x\<bar> \<le> ulp32 x / 2"
proof (cases "x = 0")
  case True
  then show ?thesis by (simp add: rnd32_def less_imp_le)
next
  case False
  have "rnd32 x - x = (of_int (rne (x / ulp32 x)) - x / ulp32 x) * ulp32 x"
    using False by (simp add: rnd32_def algebra_simps less_imp_neq [OF ulp32_pos, symmetric])
  then have "\<bar>rnd32 x - x\<bar> = \<bar>of_int (rne (x / ulp32 x)) - x / ulp32 x\<bar> * ulp32 x"
    by (simp add: abs_mult less_imp_le)
  also have "\<dots> \<le> 1/2 * ulp32 x"
    using rne_error [of "x / ulp32 x"] by (intro mult_right_mono) (auto simp: less_imp_le)
  finally show ?thesis by simp
qed

abbreviation u32 :: rat where
  "u32 \<equiv> 1 / 2 ^ 24"

lemma ulp32_normal: "2 powi (-126) \<le> \<bar>x\<bar> \<Longrightarrow> ulp32 x \<le> \<bar>x\<bar> / 2 ^ 23"
proof -
  assume n: "2 powi (-126) \<le> \<bar>x\<bar>"
  then have p: "0 < \<bar>x\<bar>" by (auto simp: power_int_def)
  have "2 powi (max (ilog2 \<bar>x\<bar>) (-126)) \<le> \<bar>x\<bar>"
    using n ilog2_bounds(1) [OF p] by (auto simp: max_def)
  then show ?thesis
    by (simp add: ulp32_def power_int_diff divide_right_mono)
qed

text \<open>Standard model of floating point: one rounding has relative error at most \<open>2\<^sup>-\<^sup>2\<^sup>4\<close>.\<close>

lemma rnd32_rel_error: "2 powi (-126) \<le> \<bar>x\<bar> \<Longrightarrow> \<bar>rnd32 x - x\<bar> \<le> u32 * \<bar>x\<bar>"
  using rnd32_abs_error [of x] ulp32_normal [of x] by simp

definition on_grid :: "rat \<Rightarrow> bool" where
  "on_grid x \<longleftrightarrow> (\<exists>n. x = of_int n * 2 powi (-149))"

lemma rnd32_grid_small: "on_grid x \<Longrightarrow> \<bar>x\<bar> < 2 powi (-126) \<Longrightarrow> rnd32 x = x"
proof (cases "x = 0")
  case False
  assume g: "on_grid x" and s: "\<bar>x\<bar> < 2 powi (-126)"
  have "ilog2 \<bar>x\<bar> \<le> -126"
  proof (rule ccontr)
    assume "\<not> ilog2 \<bar>x\<bar> \<le> -126"
    then have "(2::rat) powi (-126) \<le> 2 powi (ilog2 \<bar>x\<bar>)" by (intro power_int_increasing) auto
    also have "\<dots> \<le> \<bar>x\<bar>" using False by (intro ilog2_bounds(1)) simp
    finally show False using s by simp
  qed
  then have u: "ulp32 x = 2 powi (-149)" by (simp add: ulp32_def max_def)
  from g obtain n where n: "x = of_int n * 2 powi (-149)" by (auto simp: on_grid_def)
  have "x / ulp32 x = of_int n" unfolding u using n by (simp add: field_simps)
  then have "rnd32 x = of_int n * ulp32 x" using False by (simp only: rnd32_def rne_of_int if_False)
  then show ?thesis using n u by (simp only:)
qed (simp add: rnd32_def)

lemma rnd32_grid_rel: "on_grid x \<Longrightarrow> \<bar>rnd32 x - x\<bar> \<le> u32 * \<bar>x\<bar>"
  using rnd32_grid_small [of x] rnd32_rel_error [of x] by (cases "\<bar>x\<bar> < 2 powi (-126)") auto

lemma rnd32_grid_upper: "on_grid x \<Longrightarrow> 0 \<le> x \<Longrightarrow> rnd32 x \<le> x * (1 + u32)"
  using rnd32_grid_rel [of x] by (simp add: algebra_simps abs_le_iff abs_if split: if_splits)

lemma rnd32_grid_lower: "on_grid x \<Longrightarrow> 0 \<le> x \<Longrightarrow> x * (1 - u32) \<le> rnd32 x"
  using rnd32_grid_rel [of x] by (simp add: algebra_simps abs_le_iff abs_if split: if_splits)

lemma on_grid_0 [simp]: "on_grid 0"
  unfolding on_grid_def by (rule exI [of _ 0]) simp

lemma on_grid_add: "on_grid x \<Longrightarrow> on_grid y \<Longrightarrow> on_grid (x + y)"
  unfolding on_grid_def by (metis of_int_add distrib_right)

lemma on_grid_mult_int: "on_grid x \<Longrightarrow> on_grid (of_int n * x)"
  unfolding on_grid_def by (metis of_int_mult mult.assoc)

lemma on_grid_of_int: "on_grid (of_int n)"
proof -
  have "of_int n = of_int (n * 2 ^ 149) * (2::rat) powi (-149)"
    by (simp add: power_int_minus)
  then show ?thesis unfolding on_grid_def by blast
qed

lemma rnd32_on_grid: "on_grid (rnd32 x)"
proof -
  define k where "k = nat (max (ilog2 \<bar>x\<bar>) (-126) + 126)"
  have k: "max (ilog2 \<bar>x\<bar>) (-126) - 23 = int k - 149"
    by (simp add: k_def max_def)
  have "ulp32 x = (2::rat) powi (int k + (-149))"
    unfolding ulp32_def k by (simp only: diff_conv_add_uminus)
  also have "\<dots> = 2 powi int k * 2 powi (-149)"
    by (subst power_int_add) simp_all
  also have "(2::rat) powi int k = of_int (2 ^ k)" by simp
  finally have "ulp32 x = of_int (2 ^ k) * 2 powi (-149)" .
  then have "on_grid (ulp32 x)" unfolding on_grid_def by blast
  then show ?thesis by (simp add: rnd32_def on_grid_mult_int)
qed

section \<open>Values and operations\<close>

datatype f32 = Fin rat | PInf | NInf | NaN

definition mk32 :: "rat \<Rightarrow> f32" where
  "mk32 x = (let r = rnd32 x in if r \<ge> 2 ^ 128 then PInf else if r \<le> - (2 ^ 128) then NInf else Fin r)"

definition inf_of :: "rat \<Rightarrow> f32" where
  "inf_of s = (if s > 0 then PInf else if s < 0 then NInf else NaN)"

fun f32_sgn :: "f32 \<Rightarrow> rat" where
  "f32_sgn (Fin a) = sgn a"
| "f32_sgn PInf = 1"
| "f32_sgn NInf = -1"
| "f32_sgn NaN = 0"

fun f32_add :: "f32 \<Rightarrow> f32 \<Rightarrow> f32" where
  "f32_add (Fin a) (Fin b) = mk32 (a + b)"
| "f32_add NaN y = NaN"
| "f32_add x NaN = NaN"
| "f32_add PInf NInf = NaN"
| "f32_add NInf PInf = NaN"
| "f32_add PInf y = PInf"
| "f32_add NInf y = NInf"
| "f32_add x PInf = PInf"
| "f32_add x NInf = NInf"

fun f32_mul :: "f32 \<Rightarrow> f32 \<Rightarrow> f32" where
  "f32_mul (Fin a) (Fin b) = mk32 (a * b)"
| "f32_mul NaN y = NaN"
| "f32_mul x NaN = NaN"
| "f32_mul x y = inf_of (f32_sgn x * f32_sgn y)"

fun f32_div :: "f32 \<Rightarrow> f32 \<Rightarrow> f32" where
  "f32_div (Fin a) (Fin b) = (if b = 0 then inf_of (sgn a) else mk32 (a / b))"
| "f32_div NaN y = NaN"
| "f32_div x NaN = NaN"
| "f32_div (Fin a) y = Fin 0"
| "f32_div x (Fin b) = inf_of (f32_sgn x * (if b < 0 then -1 else 1))"
| "f32_div x y = NaN"

fun f32_le_zero :: "f32 \<Rightarrow> bool" where
  "f32_le_zero (Fin a) = (a \<le> 0)"
| "f32_le_zero PInf = False"
| "f32_le_zero NInf = True"
| "f32_le_zero NaN = False"

definition f32_of_int :: "int \<Rightarrow> f32" where
  "f32_of_int n = mk32 (of_int n)"

definition trunc :: "rat \<Rightarrow> int" where
  "trunc x = (if 0 \<le> x then \<lfloor>x\<rfloor> else \<lceil>x\<rceil>)"

text \<open>
  The conversions \<open>(int64_t)f\<close> and \<open>(int)f\<close> truncate. Out of range the C++ standard leaves the
  result undefined; the x86-64 instruction \<open>cvttss2si\<close> returns the most negative integer.
\<close>

fun f32_to_i64 :: "f32 \<Rightarrow> int" where
  "f32_to_i64 (Fin a) = (if in_i64 (trunc a) then trunc a else - 9223372036854775808)"
| "f32_to_i64 _ = - 9223372036854775808"

fun f32_to_i32 :: "f32 \<Rightarrow> int" where
  "f32_to_i32 (Fin a) = (if in_i32 (trunc a) then trunc a else - 2147483648)"
| "f32_to_i32 _ = - 2147483648"

lemma mk32_Fin: "\<bar>rnd32 x\<bar> < 2 ^ 128 \<Longrightarrow> mk32 x = Fin (rnd32 x)"
  by (auto simp: mk32_def Let_def abs_less_iff)

lemma mk32_0 [simp]: "mk32 0 = Fin 0"
  by (simp add: mk32_def rnd32_def)

lemma f32_to_i64_upper: "0 \<le> a \<Longrightarrow> of_int (f32_to_i64 (Fin a)) \<le> a"
  by (auto simp: trunc_def)

lemma f32_to_i64_nonneg: "0 \<le> a \<Longrightarrow> a < 9223372036854775808 \<Longrightarrow> 0 \<le> f32_to_i64 (Fin a)"
  by (auto simp: trunc_def in_i64_def)

end
