(* ===== verification/KrakenShm.thy ===== *)
theory KrakenShm
  imports Float32
begin

text \<open>
  The data of the gating library (\<open>runtime/include/kraken_runtime.h\<close>): the killer policy,
  the per-process runtime state \<open>g_kraken\<close> and the view of the shared memory segment that
  the runtime has. The declaration of \<open>KrakenSharedState\<close> (\<open>shm/kraken_shm.h\<close>) is not part
  of the repository: the records below hold exactly the fields that the sources access, and
  its constants are the fields of the parameter \<open>kraken_abi\<close>, of which the code relies only
  on \<open>abi_ok\<close>, that distinct names have distinct values. The width of the statistic
  \<open>killer_count\<close> is declared there too; it is kept as an unbounded integer.
\<close>

section \<open>Constants of kraken_shm.h\<close>

record kraken_abi =
  MAX_TENANTS :: nat
  SHM_MAGIC :: int
  TENANT_ID_SIZE :: nat
  GATE_RUNNING :: int
  GATE_WAITING :: int
  GATE_KILLER_ACTIVE :: int
  MODE_FREE :: int
  MODE_PROFILING :: int

definition abi_ok :: "kraken_abi \<Rightarrow> bool" where
  "abi_ok A \<longleftrightarrow> GATE_RUNNING A \<noteq> GATE_WAITING A \<and> GATE_RUNNING A \<noteq> GATE_KILLER_ACTIVE A \<and>
     GATE_WAITING A \<noteq> GATE_KILLER_ACTIVE A \<and> MODE_FREE A \<noteq> MODE_PROFILING A"

section \<open>Shared memory\<close>

record TenantState =
  active :: int
  gate_state :: int
  time_remain_us :: int
  total_exec_us :: int
  total_wait_us :: int
  killer_count :: int
  round_id :: int
  stat_mem_used_bytes :: int

record AllocEntry =
  slot_tenant_id :: string
  virtual_sm :: int
  virtual_mem_mb :: int
  mps_pct :: int

record KrakenSharedState =
  magic :: int
  mode :: int
  profiling_tenant_idx :: int
  tenant_count :: nat
  tenants :: "TenantState list"
  alloc :: "AllocEntry list"
  weights :: "f32 list"
  round_duration_us :: int
  round_trigger_lock :: int
  killer_policy_version :: int
  virtual_sm_total :: int
  virtual_mem_total_mb :: int
  physical_sm_total :: int

definition shm_wf :: "kraken_abi \<Rightarrow> KrakenSharedState \<Rightarrow> bool" where
  "shm_wf A m \<longleftrightarrow> length (tenants m) = MAX_TENANTS A \<and> length (alloc m) = MAX_TENANTS A \<and>
     length (weights m) = MAX_TENANTS A \<and> tenant_count m \<le> MAX_TENANTS A"

definition upd_tenant :: "nat \<Rightarrow> (TenantState \<Rightarrow> TenantState) \<Rightarrow> KrakenSharedState \<Rightarrow> KrakenSharedState" where
  "upd_tenant i f m = m\<lparr>tenants := (tenants m)[i := f (tenants m ! i)]\<rparr>"

definition upd_alloc :: "nat \<Rightarrow> (AllocEntry \<Rightarrow> AllocEntry) \<Rightarrow> KrakenSharedState \<Rightarrow> KrakenSharedState" where
  "upd_alloc i f m = m\<lparr>alloc := (alloc m)[i := f (alloc m ! i)]\<rparr>"

lemma upd_tenant_fields [simp]:
  "magic (upd_tenant i f m) = magic m"
  "mode (upd_tenant i f m) = mode m"
  "profiling_tenant_idx (upd_tenant i f m) = profiling_tenant_idx m"
  "tenant_count (upd_tenant i f m) = tenant_count m"
  "alloc (upd_tenant i f m) = alloc m"
  "weights (upd_tenant i f m) = weights m"
  "round_duration_us (upd_tenant i f m) = round_duration_us m"
  "round_trigger_lock (upd_tenant i f m) = round_trigger_lock m"
  "killer_policy_version (upd_tenant i f m) = killer_policy_version m"
  "virtual_sm_total (upd_tenant i f m) = virtual_sm_total m"
  "virtual_mem_total_mb (upd_tenant i f m) = virtual_mem_total_mb m"
  "physical_sm_total (upd_tenant i f m) = physical_sm_total m"
  "length (tenants (upd_tenant i f m)) = length (tenants m)"
  by (simp_all add: upd_tenant_def)

lemma tenants_upd_tenant [simp]:
  "j < length (tenants m) \<Longrightarrow>
   tenants (upd_tenant i f m) ! j = (if i = j then f (tenants m ! j) else tenants m ! j)"
  by (auto simp: upd_tenant_def nth_list_update)

lemma upd_alloc_fields [simp]:
  "tenants (upd_alloc i f m) = tenants m"
  "tenant_count (upd_alloc i f m) = tenant_count m"
  "physical_sm_total (upd_alloc i f m) = physical_sm_total m"
  "virtual_sm_total (upd_alloc i f m) = virtual_sm_total m"
  "virtual_mem_total_mb (upd_alloc i f m) = virtual_mem_total_mb m"
  "weights (upd_alloc i f m) = weights m"
  "length (alloc (upd_alloc i f m)) = length (alloc m)"
  by (simp_all add: upd_alloc_def)

lemma alloc_upd_alloc [simp]:
  "j < length (alloc m) \<Longrightarrow>
   alloc (upd_alloc i f m) ! j = (if i = j then f (alloc m ! j) else alloc m ! j)"
  by (auto simp: upd_alloc_def nth_list_update)

lemma shm_wf_upd [simp]: "shm_wf A (upd_tenant i f m) = shm_wf A m" "shm_wf A (upd_alloc i g m) = shm_wf A m"
  by (simp_all add: shm_wf_def)

section \<open>Process state\<close>

definition MAX_KILLER_KERNELS :: nat where "MAX_KILLER_KERNELS = 512"
definition MAX_KERNEL_NAME_LEN :: nat where "MAX_KERNEL_NAME_LEN = 256"
definition DEFAULT_GROUP_ID :: string where "DEFAULT_GROUP_ID = ''default''"

text \<open>
  \<open>indices\<close> and \<open>names\<close> are the fixed arrays of 512 elements; a name is the C string that
  its 256 bytes hold, the zeroed array holding empty strings.
\<close>

record KillerPolicy =
  count :: nat
  indices :: "int list"
  names :: "string list"
  policy_kernels_per_iter :: int
  loaded :: bool

definition zero_policy :: KillerPolicy where
  "zero_policy = \<lparr>count = 0, indices = replicate MAX_KILLER_KERNELS 0,
     names = replicate MAX_KILLER_KERNELS [], policy_kernels_per_iter = 0, loaded = False\<rparr>"

record timespec =
  tv_sec :: int
  tv_nsec :: int

definition timespec_diff_us :: "timespec \<Rightarrow> timespec \<Rightarrow> int" where
  "timespec_diff_us start end' =
     (tv_sec end' - tv_sec start) * 1000000 + c_div (tv_nsec end' - tv_nsec start) 1000"

text \<open>\<open>g_shm\<close>: the pointer \<open>g_kraken.shm\<close> is not null.\<close>

record KrakenRuntime =
  g_shm :: bool
  tenant_idx :: nat
  tenant_id :: string
  group_id :: string
  policy :: KillerPolicy
  policy_path :: string
  loaded_killer_version :: int
  kernel_idx :: int
  kernels_per_iter :: int
  killer_start :: timespec
  mem_used_bytes :: int
  initialized :: bool

definition g_kraken_zero :: KrakenRuntime where
  "g_kraken_zero = \<lparr>g_shm = False, tenant_idx = 0, tenant_id = [], group_id = [], policy = zero_policy,
     policy_path = [], loaded_killer_version = 0, kernel_idx = 0, kernels_per_iter = 0,
     killer_start = \<lparr>tv_sec = 0, tv_nsec = 0\<rparr>, mem_used_bytes = 0, initialized = False\<rparr>"

text \<open>
  The elapsed time computed from two monotonic clock readings is never negative, although
  the nanosecond difference may be, and it is within one microsecond of the exact value.
\<close>

definition ns_of :: "timespec \<Rightarrow> int" where
  "ns_of t = tv_sec t * 1000000000 + tv_nsec t"

definition ts_ok :: "timespec \<Rightarrow> bool" where
  "ts_ok t \<longleftrightarrow> 0 \<le> tv_nsec t \<and> tv_nsec t < 1000000000"

lemma c_div_1000: "c_div x 1000 = (if 0 \<le> x then x div 1000 else - ((- x) div 1000))"
  by (cases "x = 0") (auto simp: c_div_def sgn_if)

lemma timespec_diff_us_exact:
  assumes "ts_ok s" and "ts_ok e" and "ns_of s \<le> ns_of e"
  shows "0 \<le> timespec_diff_us s e \<and> \<bar>1000 * timespec_diff_us s e - (ns_of e - ns_of s)\<bar> < 1000"
  using assms unfolding timespec_diff_us_def ns_of_def ts_ok_def c_div_1000 by auto

section \<open>Sample data\<close>

text \<open>A segment with two registered tenants in overcommit mode, used to instantiate properties.\<close>

definition sample_abi :: kraken_abi where
  "sample_abi = \<lparr>MAX_TENANTS = 2, SHM_MAGIC = 7, TENANT_ID_SIZE = 16, GATE_RUNNING = 0, GATE_WAITING = 1,
     GATE_KILLER_ACTIVE = 2, MODE_FREE = 0, MODE_PROFILING = 2\<rparr>"

definition sample_tenant :: "int \<Rightarrow> int \<Rightarrow> TenantState" where
  "sample_tenant st remain = \<lparr>active = 1, gate_state = st, time_remain_us = remain, total_exec_us = 0,
     total_wait_us = 0, killer_count = 0, round_id = 0, stat_mem_used_bytes = 0\<rparr>"

definition sample_alloc :: "string \<Rightarrow> AllocEntry" where
  "sample_alloc tid = \<lparr>slot_tenant_id = tid, virtual_sm = 50, virtual_mem_mb = 1, mps_pct = 50\<rparr>"

definition sample_shm :: "TenantState \<Rightarrow> TenantState \<Rightarrow> KrakenSharedState" where
  "sample_shm a b = \<lparr>magic = 7, mode = 1, profiling_tenant_idx = -1, tenant_count = 2, tenants = [a, b],
     alloc = [sample_alloc ''A'', sample_alloc ''B''], weights = [Fin 3, Fin 1], round_duration_us = 100000,
     round_trigger_lock = 0, killer_policy_version = 0, virtual_sm_total = 100,
     virtual_mem_total_mb = 2, physical_sm_total = 80\<rparr>"

definition sample_runtime :: "nat \<Rightarrow> KrakenRuntime" where
  "sample_runtime i = g_kraken_zero\<lparr>g_shm := True, tenant_idx := i, initialized := True\<rparr>"

lemmas sample_defs = sample_abi_def sample_tenant_def sample_alloc_def sample_shm_def sample_runtime_def
  g_kraken_zero_def

lemma sample_abi_ok: "abi_ok sample_abi"
  by (simp add: abi_ok_def sample_abi_def)

end
