(* ===== verification/CString.thy ===== *)
theory CString
  imports Prelude "HOL-Library.Sublist"
begin

text \<open>
  The string functions of the C library that the sources call. A C string is the list of
  its bytes before the terminating NUL; a pointer into a string is the suffix it points to,
  so \<open>*p\<close> is NUL exactly when the suffix is empty. \<open>atoi\<close> and \<open>atoll\<close> are modelled as
  glibc defines them: \<open>strtol\<close> saturates at the limits of 64 bits and \<open>atoi\<close> then truncates
  to 32 bits (the C standard leaves both undefined out of range).
\<close>

abbreviation NUL :: char where "NUL \<equiv> CHR 0x00"
abbreviation QUOTE :: char where "QUOTE \<equiv> CHR 0x22"

definition c_string :: "string \<Rightarrow> string" where
  "c_string bytes = takeWhile (\<lambda>c. c \<noteq> NUL) bytes"

definition is_digit :: "char \<Rightarrow> bool" where
  "is_digit c \<longleftrightarrow> c \<in> set ''0123456789''"

definition is_space :: "char \<Rightarrow> bool" where
  "is_space c \<longleftrightarrow> c \<in> set [CHR '' '', CHR 0x09, CHR 0x0A, CHR 0x0B, CHR 0x0C, CHR 0x0D]"

definition digit_val :: "char \<Rightarrow> int" where
  "digit_val c = int (of_char c) - 48"

fun strstr :: "string \<Rightarrow> string \<Rightarrow> string option" where
  "strstr [] n = (if n = [] then Some [] else None)"
| "strstr (c # s) n = (if prefix n (c # s) then Some (c # s) else strstr s n)"

fun strchr :: "string \<Rightarrow> char \<Rightarrow> string option" where
  "strchr [] c = None"
| "strchr (x # s) c = (if x = c then Some (x # s) else strchr s c)"

text \<open>\<open>strncmp(s, lit, strlen(lit)) == 0\<close> and \<open>strncpy(dst, s, size - 1)\<close> into a zeroed buffer.\<close>

definition starts_with :: "string \<Rightarrow> string \<Rightarrow> bool" where
  "starts_with s lit = prefix lit s"

definition strncpy_buf :: "nat \<Rightarrow> string \<Rightarrow> string" where
  "strncpy_buf sz s = take (sz - 1) s"

definition digits_val :: "string \<Rightarrow> int" where
  "digits_val ds = foldl (\<lambda>v c. v * 10 + digit_val c) 0 ds"

definition sat64 :: "int \<Rightarrow> int" where
  "sat64 v = max (- 9223372036854775808) (min 9223372036854775807 v)"

definition atoll :: "string \<Rightarrow> int" where
  "atoll s = (let t = dropWhile is_space s in
     if t \<noteq> [] \<and> hd t = CHR ''-'' then sat64 (- digits_val (takeWhile is_digit (tl t)))
     else if t \<noteq> [] \<and> hd t = CHR ''+'' then sat64 (digits_val (takeWhile is_digit (tl t)))
     else sat64 (digits_val (takeWhile is_digit t)))"

definition atoi :: "string \<Rightarrow> int" where
  "atoi s = wrap32 (atoll s)"

text \<open>\<open>%d\<close> of a natural number.\<close>

definition dec_digit :: "nat \<Rightarrow> char" where
  "dec_digit d = char_of (48 + d)"

fun dec :: "nat \<Rightarrow> string" where
  "dec n = (if n < 10 then [dec_digit n] else dec (n div 10) @ [dec_digit (n mod 10)])"

declare dec.simps [simp del]

definition to_lower :: "char \<Rightarrow> char" where
  "to_lower c = (let n = of_char c :: nat in if 65 \<le> n \<and> n \<le> 90 then char_of (n + 32) else c)"

definition strcasecmp_eq :: "string \<Rightarrow> string \<Rightarrow> bool" where
  "strcasecmp_eq s t \<longleftrightarrow> map to_lower s = map to_lower t"

section \<open>Facts\<close>

lemma strstr_empty [simp]: "strstr s [] = Some s"
  by (cases s) auto

lemma strstr_Some_iff: "(\<exists>r. strstr s n = Some r) \<longleftrightarrow> sublist n s"
proof (induction s)
  case Nil
  show ?case by auto
next
  case (Cons c s)
  then show ?case by (auto simp: sublist_Cons_right)
qed

lemma strstr_append:
  assumes "\<not> sublist n (p @ butlast n)" and "n \<noteq> []"
  shows "strstr (p @ n @ r) n = Some (n @ r)"
  using assms
proof (induction p)
  case Nil
  then show ?case by (cases n) auto
next
  case (Cons c p)
  have np: "\<not> prefix n (c # p @ n @ r)"
  proof
    assume "prefix n (c # p @ n @ r)"
    moreover have "prefix (c # p @ butlast n) (c # p @ n @ r)"
      using prefixeq_butlast [of n] by (simp add: prefix_prefix)
    moreover have "length n \<le> length (c # p @ butlast n)"
      by simp
    ultimately have "prefix n (c # p @ butlast n)"
      by (rule prefix_length_prefix)
    then show False using Cons.prems(1) by (simp add: prefix_imp_sublist)
  qed
  moreover have "\<not> sublist n (p @ butlast n)"
    using Cons.prems(1) by (auto simp: sublist_Cons_right)
  ultimately show ?case using Cons.IH [OF _ Cons.prems(2)] by simp
qed

lemma dec_digit_is_digit: "d < 10 \<Longrightarrow> is_digit (dec_digit d)"
proof -
  have "\<forall>d \<in> set [0..<10]. is_digit (dec_digit d)" by code_simp
  then show "d < 10 \<Longrightarrow> is_digit (dec_digit d)" by simp
qed

lemma digit_val_dec_digit: "d < 10 \<Longrightarrow> digit_val (dec_digit d) = int d"
  by (simp add: digit_val_def dec_digit_def)

lemma dec_digits: "\<forall>c \<in> set (dec n). is_digit c"
proof (induction n rule: dec.induct)
  case (1 n)
  then show ?case
    by (subst dec.simps) (auto simp: dec_digit_is_digit)
qed

lemma dec_nonempty [simp]: "dec n \<noteq> []"
  by (subst dec.simps) simp

lemma digits_val_snoc: "digits_val (ds @ [c]) = digits_val ds * 10 + digit_val c"
  by (simp add: digits_val_def)

lemma digits_val_dec: "digits_val (dec n) = int n"
proof (induction n rule: dec.induct)
  case (1 n)
  show ?case
  proof (cases "n < 10")
    case True
    then show ?thesis by (subst dec.simps) (simp add: digits_val_def digit_val_dec_digit)
  next
    case False
    with 1 have "digits_val (dec (n div 10)) = int (n div 10)" by simp
    moreover have "int (n div 10) * 10 + int (n mod 10) = int n"
      using arg_cong [OF div_mult_mod_eq [of n 10], of int]
      by (simp only: of_nat_add of_nat_mult of_nat_numeral)
    ultimately show ?thesis using False
      by (subst dec.simps) (simp only: digits_val_snoc digit_val_dec_digit mod_less_divisor if_False
          zero_less_numeral)
  qed
qed

lemma is_digit_not_space: "is_digit c \<Longrightarrow> \<not> is_space c \<and> c \<noteq> CHR ''-'' \<and> c \<noteq> CHR ''+'' \<and> c \<noteq> CHR '']''"
  by (auto simp: is_digit_def is_space_def)

text \<open>Reading back a printed number gives the number, whatever follows it.\<close>

lemma takeWhile_dec:
  assumes "r = [] \<or> \<not> is_digit (hd r)"
  shows "takeWhile is_digit (dec n @ r) = dec n" and "dropWhile is_digit (dec n @ r) = r"
  using assms dec_digits [of n] by (cases r; simp add: takeWhile_append2 dropWhile_append2)+

lemma atoll_dec:
  assumes "r = [] \<or> \<not> is_digit (hd r)" and "n < 9223372036854775808"
  shows "atoll (dec n @ r) = int n"
proof -
  obtain c cs where c: "dec n = c # cs" by (cases "dec n") auto
  then have d: "is_digit c" using dec_digits [of n] by auto
  have "dropWhile is_space (dec n @ r) = dec n @ r"
    using c is_digit_not_space [OF d] by simp
  moreover have "c \<noteq> CHR ''-''" and "c \<noteq> CHR ''+''" using is_digit_not_space [OF d] by auto
  ultimately have "atoll (dec n @ r) = sat64 (digits_val (takeWhile is_digit (dec n @ r)))"
    using c by (simp add: atoll_def Let_def)
  then show ?thesis using assms
    by (simp add: takeWhile_dec digits_val_dec sat64_def)
qed

lemma atoi_dec:
  "r = [] \<or> \<not> is_digit (hd r) \<Longrightarrow> n < 2147483648 \<Longrightarrow> atoi (dec n @ r) = int n"
  by (simp add: atoi_def atoll_dec wrap32_id in_i32_def)

end
