(* ===== verification/KillerPolicyLoader.thy ===== *)
theory KillerPolicyLoader
  imports KrakenShm CString
begin

text \<open>
  The killer policy of \<open>hooks/cuda_hooks.cpp\<close>: the JSON scanners, \<open>load_killer_policy\<close>, the
  hot reload and the tests that classify a kernel as a killer. The file system is the
  parameter \<open>fs\<close>, which gives the content of every readable file (\<open>fopen\<close> and \<open>access(R_OK)\<close>
  fail exactly where it is \<open>None\<close>). A scanner that writes into a fixed array is a function
  from the old array and count to the new ones.
\<close>

section \<open>Scanners\<close>

text \<open>\<open>*p == c\<close> for a character other than NUL; the skip loops \<open>while (*p && ...) p++\<close>.\<close>

definition at_char :: "string \<Rightarrow> char \<Rightarrow> bool" where
  "at_char p c \<longleftrightarrow> p \<noteq> [] \<and> hd p = c"

definition skip_to_digit :: "string \<Rightarrow> string" where
  "skip_to_digit p = dropWhile (\<lambda>c. \<not> is_digit c \<and> c \<noteq> CHR '']'') p"

definition skip_to_quote :: "string \<Rightarrow> string" where
  "skip_to_quote p = dropWhile (\<lambda>c. c \<noteq> QUOTE \<and> c \<noteq> CHR '']'') p"

definition copy_name :: "string \<Rightarrow> string" where
  "copy_name p = take (MAX_KERNEL_NAME_LEN - 1) (takeWhile (\<lambda>c. c \<noteq> QUOTE) p)"

definition skip_quote :: "string \<Rightarrow> string" where
  "skip_quote p = (if at_char p QUOTE then tl p else p)"

function parse_int_loop :: "nat \<Rightarrow> string \<Rightarrow> int list \<Rightarrow> nat \<Rightarrow> int list \<times> nat" where
  "parse_int_loop mx p out cnt =
     (if p \<noteq> [] \<and> \<not> at_char p (CHR '']'') \<and> cnt < mx
      then let q = skip_to_digit p in
           if at_char q (CHR '']'') then (out, cnt)
           else parse_int_loop mx (dropWhile is_digit q) (out[cnt := atoi q]) (Suc cnt)
      else (out, cnt))"
  by pat_completeness blast
termination
  by (relation "measure (\<lambda>(mx, p, out, cnt). mx - cnt)") auto

declare parse_int_loop.simps [simp del]

definition parse_int_array :: "string \<Rightarrow> string \<Rightarrow> nat \<Rightarrow> int list \<times> nat \<Rightarrow> int list \<times> nat" where
  "parse_int_array json key mx = (\<lambda>(out, cnt).
     case strstr json key of None \<Rightarrow> (out, cnt)
     | Some p \<Rightarrow> (case strchr p (CHR ''['') of None \<Rightarrow> (out, cnt)
       | Some q \<Rightarrow> parse_int_loop mx (tl q) out 0))"

function parse_string_loop :: "nat \<Rightarrow> string \<Rightarrow> string list \<Rightarrow> nat \<Rightarrow> string list \<times> nat" where
  "parse_string_loop mx p out cnt =
     (if p \<noteq> [] \<and> \<not> at_char p (CHR '']'') \<and> cnt < mx
      then let q = skip_to_quote p in
           if \<not> at_char q QUOTE then (out, cnt)
           else let name = copy_name (tl q)
                in parse_string_loop mx (skip_quote (drop (length name) (tl q))) (out[cnt := name]) (Suc cnt)
      else (out, cnt))"
  by pat_completeness blast
termination
  by (relation "measure (\<lambda>(mx, p, out, cnt). mx - cnt)") auto

declare parse_string_loop.simps [simp del]

definition parse_string_array :: "string \<Rightarrow> string \<Rightarrow> nat \<Rightarrow> string list \<times> nat \<Rightarrow> string list \<times> nat" where
  "parse_string_array json key mx = (\<lambda>(out, cnt).
     case strstr json key of None \<Rightarrow> (out, cnt)
     | Some p \<Rightarrow> (case strchr p (CHR ''['') of None \<Rightarrow> (out, cnt)
       | Some q \<Rightarrow> parse_string_loop mx (tl q) out 0))"

definition parse_int_field :: "string \<Rightarrow> string \<Rightarrow> int" where
  "parse_int_field json key =
     (case strstr json key of None \<Rightarrow> 0
      | Some p \<Rightarrow> (case strchr p (CHR '':'') of None \<Rightarrow> 0
        | Some q \<Rightarrow> atoi (dropWhile is_space (tl q))))"

section \<open>Loading\<close>

definition KEY_INDICES :: string where "KEY_INDICES = QUOTE # ''killer_indices'' @ [QUOTE]"
definition KEY_NAMES :: string where "KEY_NAMES = QUOTE # ''killer_names'' @ [QUOTE]"
definition KEY_PER_ITER :: string where "KEY_PER_ITER = QUOTE # ''kernels_per_iter'' @ [QUOTE]"

definition load_killer_policy :: "(string \<Rightarrow> string option) \<Rightarrow> string \<Rightarrow>
    'a KrakenRuntime_scheme \<Rightarrow> 'a KrakenRuntime_scheme" where
  "load_killer_policy fs path g = (case fs path of None \<Rightarrow> g
     | Some content \<Rightarrow>
        let buf = c_string content;
            p = policy g;
            (ind, cnt) = parse_int_array buf KEY_INDICES MAX_KILLER_KERNELS (indices p, count p);
            (nms, name_count) = parse_string_array buf KEY_NAMES MAX_KILLER_KERNELS (names p, 0);
            per_iter = parse_int_field buf KEY_PER_ITER
        in g\<lparr>kernels_per_iter := per_iter,
             policy := \<lparr>count = cnt, indices = ind, names = nms,
               policy_kernels_per_iter = per_iter, loaded = True\<rparr>\<rparr>)"

definition default_patterns :: "string list" where
  "default_patterns = [''sgemm'', ''dgemm'', ''hgemm'', ''gemm'', ''fprop'', ''xmma'', ''cutlass'', ''fmha'', ''matmul'']"

fun install_patterns :: "nat \<Rightarrow> string list \<Rightarrow> KillerPolicy \<Rightarrow> KillerPolicy" where
  "install_patterns i [] p = p"
| "install_patterns i (d # ds) p =
     (if i < MAX_KILLER_KERNELS
      then install_patterns (Suc i) ds
             (p\<lparr>names := (names p)[i := strncpy_buf MAX_KERNEL_NAME_LEN d], count := count p + 1\<rparr>)
      else p)"

definition hot_policy_path :: "'a KrakenRuntime_scheme \<Rightarrow> string" where
  "hot_policy_path g =
     take 255 (''/tmp/kraken_killers_'' @ group_id g @ ''_'' @ dec (tenant_idx g) @ ''.json'')"

definition reload_killer_policy_if_needed :: "(string \<Rightarrow> string option) \<Rightarrow> KrakenSharedState \<Rightarrow>
    'a KrakenRuntime_scheme \<Rightarrow> 'a KrakenRuntime_scheme" where
  "reload_killer_policy_if_needed fs m g =
     (if \<not> g_shm g \<or> \<not> initialized g then g
      else let ver = killer_policy_version m in
        if ver = loaded_killer_version g then g
        else let hot = hot_policy_path g;
                 g0 = g\<lparr>policy := zero_policy, kernels_per_iter := 0\<rparr>;
                 g1 = (if fs hot \<noteq> None then load_killer_policy fs hot g0
                       else if policy_path g \<noteq> [] \<and> fs (policy_path g) \<noteq> None
                       then load_killer_policy fs (policy_path g) g0
                       else g0\<lparr>policy := install_patterns 0 default_patterns (policy g0)\<rparr>)
             in g1\<lparr>loaded_killer_version := ver\<rparr>)"

section \<open>Killer tests\<close>

definition is_killer_by_name :: "KillerPolicy \<Rightarrow> string \<Rightarrow> bool" where
  "is_killer_by_name p name = list_ex (\<lambda>i. strstr name (names p ! i) \<noteq> None) [0..<count p]"

definition is_killer_by_index :: "KillerPolicy \<Rightarrow> int \<Rightarrow> bool" where
  "is_killer_by_index p idx =
     (let iter_idx = (if policy_kernels_per_iter p > 0 then c_mod idx (policy_kernels_per_iter p) else idx)
      in list_ex (\<lambda>i. indices p ! i = iter_idx) [0..<count p])"

text \<open>\<open>is_killer\<close> and \<open>is_cuda_rt_killer\<close>: the symbol name is what the driver or \<open>dladdr\<close> reports.\<close>

definition is_killer :: "'a KrakenRuntime_scheme \<Rightarrow> string option \<Rightarrow> bool" where
  "is_killer g name =
     (case name of Some n \<Rightarrow> is_killer_by_name (policy g) n \<or> is_killer_by_index (policy g) (kernel_idx g)
      | None \<Rightarrow> is_killer_by_index (policy g) (kernel_idx g))"

section \<open>Array bounds\<close>

definition policy_wf :: "KillerPolicy \<Rightarrow> bool" where
  "policy_wf p \<longleftrightarrow> count p \<le> MAX_KILLER_KERNELS \<and> length (indices p) = MAX_KILLER_KERNELS \<and>
     length (names p) = MAX_KILLER_KERNELS \<and> (\<forall>n \<in> set (names p). length n < MAX_KERNEL_NAME_LEN)"

lemma parse_int_loop_step:
  assumes "p \<noteq> []" "\<not> at_char p (CHR '']'')" "cnt < mx" "\<not> at_char (skip_to_digit p) (CHR '']'')"
  shows "parse_int_loop mx p out cnt =
    parse_int_loop mx (dropWhile is_digit (skip_to_digit p)) (out[cnt := atoi (skip_to_digit p)]) (Suc cnt)"
  using assms by (subst parse_int_loop.simps) (simp add: Let_def)

lemma parse_int_loop_stop:
  assumes "p = [] \<or> at_char p (CHR '']'') \<or> \<not> cnt < mx \<or> at_char (skip_to_digit p) (CHR '']'')"
  shows "parse_int_loop mx p out cnt = (out, cnt)"
  using assms by (subst parse_int_loop.simps) (auto simp: Let_def)

lemma parse_int_loop_bounds:
  "cnt \<le> mx \<Longrightarrow> parse_int_loop mx p out cnt = (out', cnt') \<Longrightarrow>
   length out' = length out \<and> cnt' \<le> mx"
proof (induction mx p out cnt rule: parse_int_loop.induct)
  case (1 mx p out cnt)
  show ?case
  proof (cases "p = [] \<or> at_char p (CHR '']'') \<or> \<not> cnt < mx \<or> at_char (skip_to_digit p) (CHR '']'')")
    case True
    with 1 show ?thesis by (simp add: parse_int_loop_stop)
  next
    case False
    with 1 show ?thesis by (simp add: parse_int_loop_step)
  qed
qed

lemma set_update_Ball: "\<forall>x \<in> set xs. P x \<Longrightarrow> P y \<Longrightarrow> \<forall>x \<in> set (xs[i := y]). P x"
  using set_update_subset_insert by fastforce

lemma parse_string_loop_step:
  assumes "p \<noteq> []" "\<not> at_char p (CHR '']'')" "cnt < mx" "at_char (skip_to_quote p) QUOTE"
    and "name = copy_name (tl (skip_to_quote p))"
  shows "parse_string_loop mx p out cnt =
    parse_string_loop mx (skip_quote (drop (length name) (tl (skip_to_quote p)))) (out[cnt := name]) (Suc cnt)"
  using assms by (subst parse_string_loop.simps) (simp add: Let_def)

lemma parse_string_loop_stop:
  assumes "p = [] \<or> at_char p (CHR '']'') \<or> \<not> cnt < mx \<or> \<not> at_char (skip_to_quote p) QUOTE"
  shows "parse_string_loop mx p out cnt = (out, cnt)"
  using assms by (subst parse_string_loop.simps) (auto simp: Let_def)

lemma length_copy_name: "length (copy_name p) < MAX_KERNEL_NAME_LEN"
  by (simp add: copy_name_def MAX_KERNEL_NAME_LEN_def)

lemma parse_string_loop_bounds:
  "cnt \<le> mx \<Longrightarrow> parse_string_loop mx p out cnt = (out', cnt') \<Longrightarrow>
   \<forall>n \<in> set out. length n < MAX_KERNEL_NAME_LEN \<Longrightarrow>
   length out' = length out \<and> cnt' \<le> mx \<and> (\<forall>n \<in> set out'. length n < MAX_KERNEL_NAME_LEN)"
proof (induction mx p out cnt rule: parse_string_loop.induct)
  case (1 mx p out cnt)
  show ?case
  proof (cases "p = [] \<or> at_char p (CHR '']'') \<or> \<not> cnt < mx \<or> \<not> at_char (skip_to_quote p) QUOTE")
    case True
    with 1 show ?thesis by (simp add: parse_string_loop_stop)
  next
    case False
    have "\<forall>n \<in> set (out[cnt := copy_name (tl (skip_to_quote p))]). length n < MAX_KERNEL_NAME_LEN"
      using "1.prems" by (intro set_update_Ball length_copy_name)
    with 1 False show ?thesis by (simp add: parse_string_loop_step)
  qed
qed

lemma zero_policy_wf [simp]: "policy_wf zero_policy"
  by (simp add: policy_wf_def zero_policy_def MAX_KERNEL_NAME_LEN_def)

lemma install_patterns_wf:
  "policy_wf p \<Longrightarrow> count p = i \<Longrightarrow> policy_wf (install_patterns i ds p)"
proof (induction ds arbitrary: i p)
  case (Cons d ds)
  show ?case
  proof (cases "i < MAX_KILLER_KERNELS")
    case True
    let ?p = "p\<lparr>names := (names p)[i := strncpy_buf MAX_KERNEL_NAME_LEN d], count := count p + 1\<rparr>"
    have "\<forall>n \<in> set (names ?p). length n < MAX_KERNEL_NAME_LEN"
      using Cons.prems set_update_Ball [of "names p" "\<lambda>n. length n < 256" "strncpy_buf 256 d" i]
      by (simp add: policy_wf_def strncpy_buf_def MAX_KERNEL_NAME_LEN_def)
    then have "policy_wf ?p"
      using Cons.prems True by (simp add: policy_wf_def)
    then have "policy_wf (install_patterns (Suc i) ds ?p)"
      using Cons.prems by (intro Cons.IH) auto
    then show ?thesis using True by simp
  next
    case False
    with Cons.prems show ?thesis by simp
  qed
qed simp

lemma parse_int_array_bounds:
  assumes "parse_int_array json key mx (out, cnt) = (out', cnt')" and "cnt \<le> mx"
  shows "length out' = length out" and "cnt' \<le> mx"
  using assms parse_int_loop_bounds [of 0 mx]
  by (auto simp: parse_int_array_def split: option.splits)

lemma parse_string_array_bounds:
  assumes "parse_string_array json key mx (out, 0) = (out', cnt')"
    and "\<forall>n \<in> set out. length n < MAX_KERNEL_NAME_LEN"
  shows "length out' = length out" and "\<forall>n \<in> set out'. length n < MAX_KERNEL_NAME_LEN"
  using assms parse_string_loop_bounds [of 0 mx _ out out' cnt']
  by (auto simp: parse_string_array_def split: option.splits)

lemma load_killer_policy_wf: "policy_wf (policy g) \<Longrightarrow> policy_wf (policy (load_killer_policy fs path g))"
proof (cases "fs path")
  case (Some content)
  assume wf: "policy_wf (policy g)"
  obtain ind cnt where I: "parse_int_array (c_string content) KEY_INDICES MAX_KILLER_KERNELS
      (indices (policy g), count (policy g)) = (ind, cnt)" by force
  obtain nms nc where N: "parse_string_array (c_string content) KEY_NAMES MAX_KILLER_KERNELS
      (names (policy g), 0) = (nms, nc)" by force
  from wf parse_int_array_bounds [OF I] parse_string_array_bounds [OF N] show ?thesis
    by (simp add: load_killer_policy_def Some I N Let_def policy_wf_def)
qed (simp add: load_killer_policy_def)

section \<open>Reading back a written policy\<close>

fun print_ints :: "nat list \<Rightarrow> string" where
  "print_ints [] = []"
| "print_ints [n] = dec n"
| "print_ints (n # m # ns) = dec n @ '', '' @ print_ints (m # ns)"

fun print_names :: "string list \<Rightarrow> string" where
  "print_names [] = []"
| "print_names [s] = QUOTE # s @ [QUOTE]"
| "print_names (s # t # ss) = (QUOTE # s @ [QUOTE]) @ '', '' @ print_names (t # ss)"

definition render_policy :: "nat list \<Rightarrow> nat \<Rightarrow> string list \<Rightarrow> string" where
  "render_policy ns k nms = ''{'' @ KEY_INDICES @ '': ['' @ print_ints ns @ ''], '' @ KEY_PER_ITER @ '': '' @ dec k @
     '', '' @ KEY_NAMES @ '': ['' @ print_names nms @ '']}''"

lemma at_char_Cons [simp]: "at_char (c # p) d \<longleftrightarrow> c = d" "\<not> at_char [] d"
  by (auto simp: at_char_def)

lemma skip_to_digit_gap:
  assumes "\<forall>c \<in> set s. \<not> is_digit c \<and> c \<noteq> CHR '']''"
  shows "skip_to_digit (s @ dec n @ r) = dec n @ r"
proof -
  obtain d ds where d: "dec n = d # ds" by (cases "dec n") auto
  then have "is_digit d" using dec_digits [of n] by auto
  with d assms show ?thesis by (simp add: skip_to_digit_def dropWhile_append2)
qed

lemma list_snoc_update:
  "i < length xs \<Longrightarrow> take (Suc i) (xs[i := y]) = take i xs @ [y] \<and> drop (Suc i + k) (xs[i := y]) = drop (Suc i + k) xs"
  by (simp add: take_Suc_conv_app_nth)

lemma parse_int_loop_one:
  assumes "n < 2147483648" and "cnt < mx" and "\<forall>c \<in> set s. \<not> is_digit c \<and> c \<noteq> CHR '']''"
    and "r \<noteq> []" and "\<not> is_digit (hd r)"
  shows "parse_int_loop mx (s @ dec n @ r) out cnt = parse_int_loop mx r (out[cnt := int n]) (Suc cnt)"
proof -
  have sk: "skip_to_digit (s @ dec n @ r) = dec n @ r" using assms by (intro skip_to_digit_gap)
  obtain d ds where d: "dec n = d # ds" by (cases "dec n") auto
  then have "is_digit d" using dec_digits [of n] by auto
  then have nb: "d \<noteq> CHR '']''" using is_digit_not_space by blast
  have "\<not> at_char (s @ dec n @ r) (CHR '']'')" using assms(3) d nb by (cases s) auto
  moreover have "\<not> at_char (dec n @ r) (CHR '']'')" using d nb by simp
  ultimately show ?thesis
    using sk assms takeWhile_dec(2) [of r n] atoi_dec [of r n] by (subst parse_int_loop_step) simp_all
qed

lemma update_split: "i < length xs \<Longrightarrow> xs[i := y] = take i xs @ y # drop (Suc i) xs"
  by (rule upd_conv_take_nth_drop)

lemma sep_gap: "\<forall>c \<in> set '', ''. \<not> is_digit c \<and> c \<noteq> CHR '']''"
  by (simp add: is_digit_def)

lemma bracket_not_digit: "\<not> is_digit (CHR '']'')" "\<not> is_digit (CHR '','')"
  by (simp_all add: is_digit_def)

lemma parse_int_loop_print:
  assumes "\<forall>n \<in> set ns. n < 2147483648" and "cnt + length ns \<le> mx" and "cnt + length ns \<le> length out"
    and "\<forall>c \<in> set s. \<not> is_digit c \<and> c \<noteq> CHR '']''" and "ns = [] \<longrightarrow> s = []"
  shows "parse_int_loop mx (s @ print_ints ns @ CHR '']'' # r) out cnt =
    (take cnt out @ map int ns @ drop (cnt + length ns) out, cnt + length ns)"
  using assms
proof (induction ns arbitrary: s out cnt rule: print_ints.induct)
  case 1
  then show ?case by (simp add: parse_int_loop_stop)
next
  case (2 n)
  then show ?case
    using parse_int_loop_one [of n cnt mx s "CHR '']'' # r" out]
    by (simp add: parse_int_loop_stop bracket_not_digit update_split)
next
  case (3 n m ns)
  let ?t = "'', '' @ print_ints (m # ns) @ CHR '']'' # r"
  have "parse_int_loop mx (s @ dec n @ ?t) out cnt = parse_int_loop mx ?t (out[cnt := int n]) (Suc cnt)"
    using 3 by (intro parse_int_loop_one) (simp_all add: bracket_not_digit)
  also have "\<dots> = (take (Suc cnt) (out[cnt := int n]) @ map int (m # ns) @
      drop (Suc cnt + length (m # ns)) (out[cnt := int n]), Suc cnt + length (m # ns))"
    using 3 sep_gap by (intro "3.IH") simp_all
  finally show ?case using 3 list_snoc_update [of cnt out "int n" "length (m # ns)"] by simp
qed

definition name_ok :: "string \<Rightarrow> bool" where
  "name_ok s \<longleftrightarrow> length s < MAX_KERNEL_NAME_LEN \<and> QUOTE \<notin> set s \<and> NUL \<notin> set s"

lemma parse_string_loop_one:
  assumes "name_ok n" and "cnt < mx" and "\<forall>c \<in> set s. c \<noteq> QUOTE \<and> c \<noteq> CHR '']''"
  shows "parse_string_loop mx (s @ QUOTE # n @ QUOTE # r) out cnt = parse_string_loop mx r (out[cnt := n]) (Suc cnt)"
proof -
  let ?p = "s @ QUOTE # n @ QUOTE # r"
  have sk: "skip_to_quote ?p = QUOTE # n @ QUOTE # r" using assms(3) by (simp add: skip_to_quote_def dropWhile_append2)
  have "takeWhile (\<lambda>c. c \<noteq> QUOTE) (n @ QUOTE # r) = n"
    using assms(1) by (subst takeWhile_append2) (auto simp: name_ok_def)
  then have cp: "copy_name (tl (skip_to_quote ?p)) = n"
    using assms(1) by (simp add: sk copy_name_def name_ok_def MAX_KERNEL_NAME_LEN_def)
  have "\<not> at_char ?p (CHR '']'')" using assms(3) by (cases s) auto
  then show ?thesis using sk cp assms(2)
    by (subst parse_string_loop_step [where name = n]) (simp_all add: skip_quote_def)
qed

lemma name_gap: "\<forall>c \<in> set '', ''. c \<noteq> QUOTE \<and> c \<noteq> CHR '']''"
  by simp

lemma parse_string_loop_print:
  assumes "\<forall>n \<in> set ns. name_ok n" and "cnt + length ns \<le> mx" and "cnt + length ns \<le> length out"
    and "\<forall>c \<in> set s. c \<noteq> QUOTE \<and> c \<noteq> CHR '']''" and "ns = [] \<longrightarrow> s = []"
  shows "parse_string_loop mx (s @ print_names ns @ CHR '']'' # r) out cnt =
    (take cnt out @ ns @ drop (cnt + length ns) out, cnt + length ns)"
  using assms
proof (induction ns arbitrary: s out cnt rule: print_names.induct)
  case 1
  then show ?case by (simp add: parse_string_loop_stop)
next
  case (2 n)
  then show ?case
    using parse_string_loop_one [of n cnt mx s "CHR '']'' # r" out]
    by (simp add: parse_string_loop_stop update_split)
next
  case (3 n m ns)
  let ?t = "'', '' @ print_names (m # ns) @ CHR '']'' # r"
  have "parse_string_loop mx (s @ QUOTE # n @ QUOTE # ?t) out cnt = parse_string_loop mx ?t (out[cnt := n]) (Suc cnt)"
    using 3 by (intro parse_string_loop_one) simp_all
  also have "\<dots> = (take (Suc cnt) (out[cnt := n]) @ (m # ns) @
      drop (Suc cnt + length (m # ns)) (out[cnt := n]), Suc cnt + length (m # ns))"
    using 3 name_gap by (intro "3.IH") simp_all
  finally show ?case using 3 list_snoc_update [of cnt out n "length (m # ns)"] by simp
qed

text \<open>A search for a key passes over text that has no quote.\<close>

lemma strstr_skip: "c \<notin> set ds \<Longrightarrow> strstr (ds @ r) (c # n) = strstr r (c # n)"
  by (induction ds) auto

lemma digits_no_quote: "c \<in> set (print_ints ns) \<Longrightarrow> is_digit c \<or> c \<in> set '', ''"
  using dec_digits by (induction ns rule: print_ints.induct) auto

lemma special_not_digit: "\<not> is_digit QUOTE" "\<not> is_digit NUL"
  by (simp_all add: is_digit_def)

lemma quote_nul_not_ints: "QUOTE \<notin> set (print_ints ns)" "NUL \<notin> set (print_ints ns)"
  "QUOTE \<notin> set (dec n)" "NUL \<notin> set (dec n)"
  using digits_no_quote [of QUOTE ns] digits_no_quote [of NUL ns] dec_digits [of n] special_not_digit
  by auto

lemma nul_not_names: "\<forall>s \<in> set ns. name_ok s \<Longrightarrow> NUL \<notin> set (print_names ns)"
  by (induction ns rule: print_names.induct) (auto simp: name_ok_def)

lemmas key_defs = KEY_INDICES_def KEY_NAMES_def KEY_PER_ITER_def

lemma render_c_string: "\<forall>s \<in> set nms. name_ok s \<Longrightarrow> c_string (render_policy ns k nms) = render_policy ns k nms"
  unfolding c_string_def
  by (rule takeWhile_eq_all_conv [THEN iffD2])
     (auto simp: render_policy_def key_defs quote_nul_not_ints nul_not_names)

lemma render_find:
  "strstr (render_policy ns k nms) KEY_INDICES = Some (KEY_INDICES @ '': ['' @ print_ints ns @ ''], '' @ KEY_PER_ITER @
     '': '' @ dec k @ '', '' @ KEY_NAMES @ '': ['' @ print_names nms @ '']}'')"
  "strstr (render_policy ns k nms) KEY_PER_ITER = Some (KEY_PER_ITER @
     '': '' @ dec k @ '', '' @ KEY_NAMES @ '': ['' @ print_names nms @ '']}'')"
  "strstr (render_policy ns k nms) KEY_NAMES = Some (KEY_NAMES @ '': ['' @ print_names nms @ '']}'')"
  by (simp_all add: render_policy_def key_defs strstr_skip quote_nul_not_ints)

lemma parse_rendered:
  assumes "\<forall>n \<in> set ns. n < 2147483648" and "k < 2147483648" and "\<forall>s \<in> set nms. name_ok s"
    and "length ns \<le> mx" and "length nms \<le> mx" and "length out = mx" and "length nout = mx"
  shows "parse_int_array (render_policy ns k nms) KEY_INDICES mx (out, c) =
      (map int ns @ drop (length ns) out, length ns)"
    and "parse_string_array (render_policy ns k nms) KEY_NAMES mx (nout, 0) =
      (nms @ drop (length nms) nout, length nms)"
    and "parse_int_field (render_policy ns k nms) KEY_PER_ITER = int k"
proof -
  let ?r = "'', '' @ KEY_PER_ITER @ '': '' @ dec k @ '', '' @ KEY_NAMES @ '': ['' @ print_names nms @ '']}''"
  have "strchr (KEY_INDICES @ '': ['' @ print_ints ns @ CHR '']'' # ?r) (CHR ''['') =
      Some (CHR ''['' # print_ints ns @ CHR '']'' # ?r)"
    by (simp add: key_defs)
  then show "parse_int_array (render_policy ns k nms) KEY_INDICES mx (out, c) =
      (map int ns @ drop (length ns) out, length ns)"
    using parse_int_loop_print [of ns 0 mx out "[]" ?r] assms
    by (simp add: parse_int_array_def render_find)
  have "strchr (KEY_NAMES @ '': ['' @ print_names nms @ '']}'') (CHR ''['') =
      Some (CHR ''['' # print_names nms @ '']}'')"
    by (simp add: key_defs)
  then show "parse_string_array (render_policy ns k nms) KEY_NAMES mx (nout, 0) =
      (nms @ drop (length nms) nout, length nms)"
    using parse_string_loop_print [of nms 0 mx nout "[]" "''}''"] assms
    by (simp add: parse_string_array_def render_find)
  let ?q = "'', '' @ KEY_NAMES @ '': ['' @ print_names nms @ '']}''"
  obtain d ds where d: "dec k = d # ds" by (cases "dec k") auto
  then have "\<not> is_space d" using dec_digits [of k] is_digit_not_space by auto
  then have sp: "dropWhile is_space ('' '' @ dec k @ ?q) = dec k @ ?q"
    using d by (simp add: is_space_def)
  have "strchr (KEY_PER_ITER @ '': '' @ dec k @ ?q) (CHR '':'') = Some ('': '' @ dec k @ ?q)"
    by (simp add: key_defs)
  then show "parse_int_field (render_policy ns k nms) KEY_PER_ITER = int k"
    using sp atoi_dec [of ?q k] assms(2) bracket_not_digit by (simp add: parse_int_field_def render_find)
qed

section \<open>Properties\<close>

text \<open>
  C33. Reading a policy file back: a file that lists \<open>ns\<close> as killer indices, \<open>k\<close> as the number
  of kernels per iteration and \<open>nms\<close> as killer names is loaded into exactly these values, in
  order, in the first entries of the fixed arrays; the rest of the arrays keeps its content.
\<close>

theorem load_rendered_policy:
  assumes "fs path = Some (render_policy ns k nms)"
    and "\<forall>n \<in> set ns. n < 2147483648" and "k < 2147483648" and "\<forall>s \<in> set nms. name_ok s"
    and "length ns \<le> MAX_KILLER_KERNELS" and "length nms \<le> MAX_KILLER_KERNELS" and "policy_wf (policy g)"
  shows "policy (load_killer_policy fs path g) =
    \<lparr>count = length ns, indices = map int ns @ drop (length ns) (indices (policy g)),
     names = nms @ drop (length nms) (names (policy g)), policy_kernels_per_iter = int k, loaded = True\<rparr>"
  using assms parse_rendered [OF assms(2-6), of "indices (policy g)" "names (policy g)"]
  by (simp add: load_killer_policy_def render_c_string policy_wf_def Let_def)

theorem load_rendered_policy_witness:
  "policy (load_killer_policy (\<lambda>_. Some (render_policy [4, 17] 20 [''gemm'', ''fmha''])) ''p'' g_kraken_zero) =
    \<lparr>count = 2, indices = [4, 17] @ replicate 510 0, names = [''gemm'', ''fmha''] @ replicate 510 [],
     policy_kernels_per_iter = 20, loaded = True\<rparr>"
  using load_rendered_policy [of "\<lambda>_. Some (render_policy [4, 17] 20 [''gemm'', ''fmha''])" "''p''" "[4, 17]" 20
      "[''gemm'', ''fmha'']" g_kraken_zero]
  by (simp add: name_ok_def MAX_KERNEL_NAME_LEN_def MAX_KILLER_KERNELS_def g_kraken_zero_def)
     (simp add: zero_policy_def MAX_KILLER_KERNELS_def)

text \<open>
  C34. Memory safety of the policy arrays: loading and hot reloading any file contents whatever
  (or none) keeps the killer count within the 512 entries that the scanners may write, keeps
  both arrays at their size, and keeps every name within its 256 byte buffer.
\<close>

theorem policy_arrays_in_bounds:
  assumes "policy_wf (policy g)"
  shows "policy_wf (policy (load_killer_policy fs path g)) \<and>
    policy_wf (policy (reload_killer_policy_if_needed fs m g))"
proof -
  have z: "count zero_policy = 0" by (simp add: zero_policy_def)
  have "policy_wf (policy (load_killer_policy fs q (g\<lparr>policy := zero_policy, kernels_per_iter := 0\<rparr>)))" for q
    by (rule load_killer_policy_wf) simp
  then show ?thesis using assms z
    by (auto simp: load_killer_policy_wf reload_killer_policy_if_needed_def Let_def intro!: install_patterns_wf)
qed

theorem policy_arrays_in_bounds_witness:
  "policy_wf (policy (load_killer_policy (\<lambda>_. Some (KEY_INDICES @ '': [7, 8'')) ''p'' g_kraken_zero))"
  using policy_arrays_in_bounds [of g_kraken_zero] by (simp add: g_kraken_zero_def)

text \<open>
  The number of names is not kept: \<open>is_killer_by_name\<close> compares the symbol with as many
  names as there are killer \<^emph>\<open>indices\<close>. A policy file with fewer names than indices leaves
  empty names in that range, and since every string contains the empty string, every
  kernel with a symbol name is gated as a killer.
\<close>

theorem missing_names_gate_everything:
  assumes "fs path = Some (render_policy ns k nms)"
    and "\<forall>n \<in> set ns. n < 2147483648" and "k < 2147483648" and "\<forall>s \<in> set nms. name_ok s"
    and "length ns \<le> MAX_KILLER_KERNELS" and "length nms < length ns" and "policy g = zero_policy"
  shows "is_killer (load_killer_policy fs path g) (Some name)"
proof -
  let ?p = "policy (load_killer_policy fs path g)"
  have p: "?p = \<lparr>count = length ns, indices = map int ns @ drop (length ns) (indices (policy g)),
     names = nms @ drop (length nms) (names (policy g)), policy_kernels_per_iter = int k, loaded = True\<rparr>"
    using parse_rendered [OF assms(2-5), of "indices (policy g)" "names (policy g)"] assms
    by (simp add: load_killer_policy_def render_c_string zero_policy_def Let_def)
  then have "names ?p ! length nms = []"
    using assms by (simp add: zero_policy_def nth_append)
  then have "is_killer_by_name ?p name"
    using p assms(6) by (auto simp: is_killer_by_name_def list_ex_iff intro!: bexI [of _ "length nms"])
  then show ?thesis by (simp add: is_killer_def)
qed

theorem missing_names_gate_everything_witness:
  "is_killer (load_killer_policy (\<lambda>_. Some (render_policy [4, 17] 20 [''gemm''])) ''p'' g_kraken_zero)
     (Some ''elementwise_add'')"
  using missing_names_gate_everything [of "\<lambda>_. Some (render_policy [4, 17] 20 [''gemm''])" "''p''" "[4, 17]" 20
      "[''gemm'']" g_kraken_zero]
  by (simp add: name_ok_def MAX_KERNEL_NAME_LEN_def MAX_KILLER_KERNELS_def g_kraken_zero_def)

text \<open>
  The default patterns also select by index: without a policy file the nine name patterns
  are installed over a zeroed index array, so besides the kernels whose name matches, exactly
  kernel number 0 of the process is classified as a killer whatever its name is.
\<close>

theorem default_patterns_gate_first_kernel:
  "is_killer_by_index (install_patterns 0 default_patterns zero_policy) idx \<longleftrightarrow> idx = 0"
proof -
  let ?p = "install_patterns 0 default_patterns zero_policy"
  have "count ?p = 9" and "indices ?p = replicate MAX_KILLER_KERNELS 0" and "policy_kernels_per_iter ?p = 0"
    by (simp_all add: default_patterns_def zero_policy_def MAX_KILLER_KERNELS_def)
  then show ?thesis
    by (auto simp: is_killer_by_index_def list_ex_iff MAX_KILLER_KERNELS_def intro: exI [of _ 0])
qed

text \<open>
  The index test is periodic: with \<open>k > 0\<close> kernels per iteration, kernels at the same
  position of two iterations are classified alike.
\<close>

theorem killer_index_periodic:
  assumes "policy_kernels_per_iter p > 0" and "0 \<le> idx"
  shows "is_killer_by_index p (idx + int j * policy_kernels_per_iter p) = is_killer_by_index p idx"
  using assms by (simp add: is_killer_by_index_def c_mod_nonneg)

theorem killer_index_periodic_witness:
  "is_killer_by_index (zero_policy\<lparr>count := 1, indices := 4 # replicate 511 0, policy_kernels_per_iter := 20\<rparr>) 64"
  using killer_index_periodic [of "zero_policy\<lparr>count := 1, indices := 4 # replicate 511 0, policy_kernels_per_iter := 20\<rparr>" 4 3]
  by (simp add: is_killer_by_index_def c_mod_nonneg)

text \<open>
  The hot reload happens once per version: after a reload the recorded version is the
  version in shared memory, and a second call at the same version changes nothing, whatever
  has become of the files.
\<close>

theorem reload_once_per_version:
  assumes "g_shm g" and "initialized g"
  shows "loaded_killer_version (reload_killer_policy_if_needed fs m g) = killer_policy_version m \<and>
    reload_killer_policy_if_needed fs' m (reload_killer_policy_if_needed fs m g) =
      reload_killer_policy_if_needed fs m g"
  using assms by (auto simp: reload_killer_policy_if_needed_def Let_def)

theorem reload_once_per_version_witness:
  "loaded_killer_version (reload_killer_policy_if_needed (\<lambda>_. None)
     (sample_shm (sample_tenant 0 0) (sample_tenant 0 0)\<lparr>killer_policy_version := 5\<rparr>) (sample_runtime 0)) = 5"
  using reload_once_per_version [of "sample_runtime 0" "\<lambda>_. None"
      "sample_shm (sample_tenant 0 0) (sample_tenant 0 0)\<lparr>killer_policy_version := 5\<rparr>" "\<lambda>_. None"]
  by (simp add: sample_runtime_def)

end
