(* ===== verification/RoundManager.thy ===== *)
theory RoundManager
  imports KillerPolicyLoader
begin

text \<open>
  \<open>timeslice/time_slice.cpp\<close> and \<open>timeslice/round_manager.cpp\<close>: the time slice of a tenant in
  shared memory and the start of a new round. The definitions here are the functions as one
  tenant executes them without interference; the interleaved execution of several tenants
  is the subject of theory StreamGate, which runs the same loops one iteration per step.
\<close>

section \<open>time_slice.cpp\<close>

definition timeslice_deduct :: "int \<Rightarrow> 'a KrakenRuntime_scheme \<Rightarrow> KrakenSharedState \<Rightarrow> KrakenSharedState" where
  "timeslice_deduct elapsed_us g m =
     (if \<not> g_shm g then m
      else upd_tenant (tenant_idx g) (\<lambda>t. t\<lparr>time_remain_us := wrap64 (time_remain_us t - elapsed_us),
             total_exec_us := wrap64 (total_exec_us t + elapsed_us)\<rparr>) m)"

definition timeslice_add_wait :: "int \<Rightarrow> 'a KrakenRuntime_scheme \<Rightarrow> KrakenSharedState \<Rightarrow> KrakenSharedState" where
  "timeslice_add_wait wait_us g m =
     (if \<not> g_shm g then m
      else upd_tenant (tenant_idx g) (\<lambda>t. t\<lparr>total_wait_us := wrap64 (total_wait_us t + wait_us)\<rparr>) m)"

definition timeslice_exhausted :: "'a KrakenRuntime_scheme \<Rightarrow> KrakenSharedState \<Rightarrow> bool" where
  "timeslice_exhausted g m = (if \<not> g_shm g then False else time_remain_us (tenants m ! tenant_idx g) \<le> 0)"

definition timeslice_set_waiting :: "kraken_abi \<Rightarrow> 'a KrakenRuntime_scheme \<Rightarrow> KrakenSharedState \<Rightarrow> KrakenSharedState" where
  "timeslice_set_waiting A g m =
     (if \<not> g_shm g then m else upd_tenant (tenant_idx g) (\<lambda>t. t\<lparr>gate_state := GATE_WAITING A\<rparr>) m)"

definition timeslice_recharge :: "kraken_abi \<Rightarrow> nat \<Rightarrow> int \<Rightarrow> 'a KrakenRuntime_scheme \<Rightarrow> KrakenSharedState \<Rightarrow> KrakenSharedState" where
  "timeslice_recharge A i slice_us g m =
     (if \<not> g_shm g then m
      else upd_tenant i (\<lambda>t. t\<lparr>time_remain_us := slice_us, gate_state := GATE_RUNNING A\<rparr>) m)"

section \<open>round_manager.cpp\<close>

abbreviation is_active :: "KrakenSharedState \<Rightarrow> nat \<Rightarrow> bool" where
  "is_active m i \<equiv> active (tenants m ! i) \<noteq> 0"

definition all_waiting :: "kraken_abi \<Rightarrow> KrakenSharedState \<Rightarrow> bool" where
  "all_waiting A m = list_all (\<lambda>i. is_active m i \<longrightarrow> gate_state (tenants m ! i) = GATE_WAITING A) [0..<tenant_count m]"

definition active_weights :: "KrakenSharedState \<Rightarrow> f32 list" where
  "active_weights m = map (\<lambda>i. weights m ! i) (filter (is_active m) [0..<tenant_count m])"

definition total_weight :: "KrakenSharedState \<Rightarrow> f32" where
  "total_weight m = foldl f32_add (Fin 0) (active_weights m)"

definition round_length :: "KrakenSharedState \<Rightarrow> int" where
  "round_length m = (if round_duration_us m > 0 then round_duration_us m else 100000)"

definition calc_slice_us :: "KrakenSharedState \<Rightarrow> nat \<Rightarrow> int" where
  "calc_slice_us m i =
     (let total_w = total_weight m;
          total_w' = (if f32_le_zero total_w then Fin 1 else total_w)
      in f32_to_i64 (f32_div (f32_mul (f32_of_int (round_length m)) (weights m ! i)) total_w'))"

definition recharge_one :: "kraken_abi \<Rightarrow> 'a KrakenRuntime_scheme \<Rightarrow> nat \<Rightarrow> KrakenSharedState \<Rightarrow> KrakenSharedState" where
  "recharge_one A g i m = (if is_active m i then timeslice_recharge A i (calc_slice_us m i) g m else m)"

definition store_round_id :: "int \<Rightarrow> nat \<Rightarrow> KrakenSharedState \<Rightarrow> KrakenSharedState" where
  "store_round_id rid i m = upd_tenant i (\<lambda>t. t\<lparr>round_id := wrap32 (rid + 1)\<rparr>) m"

definition start_new_round :: "kraken_abi \<Rightarrow> (string \<Rightarrow> string option) \<Rightarrow>
    'a KrakenRuntime_scheme \<times> KrakenSharedState \<Rightarrow> 'a KrakenRuntime_scheme \<times> KrakenSharedState" where
  "start_new_round A fs = (\<lambda>(g, m).
     if round_trigger_lock m \<noteq> 0 then (g, m)
     else let m1 = m\<lparr>round_trigger_lock := 1\<rparr>;
              g1 = reload_killer_policy_if_needed fs m1 g;
              m2 = fold (recharge_one A g1) [0..<tenant_count m1] m1;
              rid = round_id (tenants m2 ! tenant_idx g1);
              m3 = fold (store_round_id rid) [0..<tenant_count m2] m2
          in (g1, m3\<lparr>round_trigger_lock := 0\<rparr>))"

definition round_check_and_trigger :: "kraken_abi \<Rightarrow> (string \<Rightarrow> string option) \<Rightarrow>
    'a KrakenRuntime_scheme \<times> KrakenSharedState \<Rightarrow> 'a KrakenRuntime_scheme \<times> KrakenSharedState" where
  "round_check_and_trigger A fs = (\<lambda>(g, m).
     if \<not> g_shm g then (g, m)
     else if all_waiting A m then start_new_round A fs (g, m) else (g, m))"

section \<open>Facts\<close>

lemma all_waiting_iff:
  "all_waiting A m \<longleftrightarrow> (\<forall>i < tenant_count m. is_active m i \<longrightarrow> gate_state (tenants m ! i) = GATE_WAITING A)"
  by (auto simp: all_waiting_def list_all_iff)

lemma recharge_one_fields [simp]:
  "tenant_count (recharge_one A g i m) = tenant_count m"
  "weights (recharge_one A g i m) = weights m"
  "round_duration_us (recharge_one A g i m) = round_duration_us m"
  "mode (recharge_one A g i m) = mode m"
  "round_trigger_lock (recharge_one A g i m) = round_trigger_lock m"
  "length (tenants (recharge_one A g i m)) = length (tenants m)"
  by (simp_all add: recharge_one_def timeslice_recharge_def)

lemma recharge_one_active [simp]:
  "j < length (tenants m) \<Longrightarrow> active (tenants (recharge_one A g i m) ! j) = active (tenants m ! j)"
  by (simp add: recharge_one_def timeslice_recharge_def)

lemma store_round_id_fields [simp]:
  "tenant_count (store_round_id r i m) = tenant_count m"
  "weights (store_round_id r i m) = weights m"
  "round_duration_us (store_round_id r i m) = round_duration_us m"
  "length (tenants (store_round_id r i m)) = length (tenants m)"
  by (simp_all add: store_round_id_def)

text \<open>A slice depends only on who is active, the weights and the round length.\<close>

lemma active_weights_cong:
  assumes "tenant_count m' = tenant_count m" and "weights m' = weights m"
    and "\<And>j. j < tenant_count m \<Longrightarrow> active (tenants m' ! j) = active (tenants m ! j)"
  shows "active_weights m' = active_weights m"
  unfolding active_weights_def assms(1,2) using assms(3) by (intro arg_cong2 [of _ _ _ _ map] filter_cong) auto

lemma calc_slice_us_cong:
  assumes "tenant_count m' = tenant_count m" and "weights m' = weights m"
    and "round_duration_us m' = round_duration_us m"
    and "\<And>j. j < tenant_count m \<Longrightarrow> active (tenants m' ! j) = active (tenants m ! j)"
  shows "calc_slice_us m' i = calc_slice_us m i"
  using assms active_weights_cong [OF assms(1,2,4)]
  by (simp add: calc_slice_us_def total_weight_def round_length_def)

lemma fold_recharge_count [simp]:
  "tenant_count (fold (recharge_one A g) is m) = tenant_count m"
  "length (tenants (fold (recharge_one A g) is m)) = length (tenants m)"
  "round_trigger_lock (fold (recharge_one A g) is m) = round_trigger_lock m"
  by (induction "is" arbitrary: m) simp_all

lemma fold_round_id_count [simp]:
  "tenant_count (fold (store_round_id r) is m) = tenant_count m"
  "length (tenants (fold (store_round_id r) is m)) = length (tenants m)"
  by (induction "is" arbitrary: m) simp_all

lemma fold_recharge:
  assumes "distinct is" and "tenant_count m \<le> length (tenants m)" and "g_shm g" and "j < length (tenants m)"
  shows "tenants (fold (recharge_one A g) is m) ! j =
      (if j \<in> set is \<and> is_active m j
       then (tenants m ! j)\<lparr>time_remain_us := calc_slice_us m j, gate_state := GATE_RUNNING A\<rparr>
       else tenants m ! j)"
  using assms
proof (induction "is" arbitrary: m)
  case (Cons i "is")
  let ?m = "recharge_one A g i m"
  have "calc_slice_us ?m j = calc_slice_us m j"
    using Cons.prems by (intro calc_slice_us_cong) auto
  with Cons.prems Cons.IH [of ?m] show ?case
    by (auto simp: recharge_one_def timeslice_recharge_def)
qed simp

lemma fold_round_id:
  assumes "j < length (tenants m)"
  shows "tenants (fold (store_round_id r) is m) ! j =
      (if j \<in> set is then (tenants m ! j)\<lparr>round_id := wrap32 (r + 1)\<rparr> else tenants m ! j)"
  using assms
proof (induction "is" arbitrary: m)
  case (Cons i "is")
  then show ?case using Cons.IH [of "store_round_id r i m"] by (auto simp: store_round_id_def)
qed simp

section \<open>Bounds on the slices of a round\<close>

definition weight_ok :: "rat \<Rightarrow> bool" where
  "weight_ok w \<longleftrightarrow> on_grid w \<and> 0 \<le> w \<and> w \<le> 2 ^ 40"

lemma weight_sum_step:
  assumes "on_grid a" and "0 \<le> a" and "a \<le> 2 ^ (41 + k)" and "k \<le> 80" and "weight_ok w"
  shows "f32_add (Fin a) (Fin w) = Fin (rnd32 (a + w))"
    and "on_grid (rnd32 (a + w))" and "0 \<le> rnd32 (a + w)" and "rnd32 (a + w) \<le> 2 ^ (42 + k)"
    and "(a + w) * (1 - u32) \<le> rnd32 (a + w)"
proof -
  have g: "on_grid (a + w)" and p: "0 \<le> a + w"
    using assms by (auto simp: weight_ok_def on_grid_add)
  have "(2::rat) ^ 40 \<le> 2 ^ (40 + k)" by (intro power_increasing) auto
  then have "a + w \<le> 2 ^ (41 + k) + 2 ^ (40 + k)" using assms by (simp add: weight_ok_def)
  then have "(a + w) * (1 + u32) \<le> (2 ^ (41 + k) + 2 ^ (40 + k)) * (1 + u32)"
    by (intro mult_right_mono) auto
  also have "\<dots> \<le> 2 ^ (42 + k)" by (simp add: power_add)
  finally show le: "rnd32 (a + w) \<le> 2 ^ (42 + k)" using rnd32_grid_upper [OF g p] by linarith
  show nn: "0 \<le> rnd32 (a + w)" using p by (rule rnd32_nonneg)
  have "(2::rat) ^ (42 + k) < 2 ^ 128" using assms(4) by (intro power_strict_increasing) auto
  then show "f32_add (Fin a) (Fin w) = Fin (rnd32 (a + w))"
    using le nn by (simp add: mk32_Fin)
  show "on_grid (rnd32 (a + w))" by (rule rnd32_on_grid)
  show "(a + w) * (1 - u32) \<le> rnd32 (a + w)" using g p by (rule rnd32_grid_lower)
qed

lemma weight_sum_bounds:
  assumes "\<forall>w \<in> set ws. weight_ok w" and "k + length ws \<le> 80"
    and "on_grid a" and "0 \<le> a" and "a \<le> 2 ^ (41 + k)"
  shows "\<exists>T. foldl f32_add (Fin a) (map Fin ws) = Fin T \<and> on_grid T \<and> 0 \<le> T \<and>
    (a + sum_list ws) * (1 - u32) ^ length ws \<le> T"
  using assms
proof (induction ws arbitrary: a k)
  case (Cons w ws)
  let ?a = "rnd32 (a + w)"
  have k: "k \<le> 80" and w: "weight_ok w" using Cons.prems by auto
  note st = weight_sum_step [OF Cons.prems(3,4,5) k w]
  have "?a \<le> 2 ^ (41 + Suc k)" using st(4) by simp
  moreover have "Suc k + length ws \<le> 80" using Cons.prems(2) by simp
  ultimately obtain T where T: "foldl f32_add (Fin ?a) (map Fin ws) = Fin T" "on_grid T" "0 \<le> T"
    "(?a + sum_list ws) * (1 - u32) ^ length ws \<le> T"
    using Cons.IH [of "Suc k" ?a] Cons.prems(1) st(2,3) by auto
  have s: "0 \<le> sum_list ws" using Cons.prems(1) by (intro sum_list_nonneg) (auto simp: weight_ok_def)
  have "(a + sum_list (w # ws)) * (1 - u32) = (a + w) * (1 - u32) + sum_list ws * (1 - u32)"
    by (simp add: algebra_simps)
  also have "\<dots> \<le> ?a + sum_list ws"
    using st(5) mult_left_mono [of "1 - u32" 1 "sum_list ws"] s by (intro add_mono) simp_all
  finally have "(a + sum_list (w # ws)) * (1 - u32) * (1 - u32) ^ length ws \<le> (?a + sum_list ws) * (1 - u32) ^ length ws"
    by (intro mult_right_mono) auto
  then have "(a + sum_list (w # ws)) * (1 - u32) ^ length (w # ws) \<le> T"
    using T(4) by (simp only: length_Cons power_Suc mult.assoc)
  then show ?case using T st(1) by simp
qed auto

lemma floor_rnd32_upper:
  assumes "0 \<le> x"
  shows "of_int \<lfloor>rnd32 x\<rfloor> \<le> x * (1 + u32)"
proof (cases "x = 0 \<or> 2 powi (-126) \<le> x")
  case True
  then have "rnd32 x \<le> x * (1 + u32)"
    using rnd32_rel_error [of x] assms
    by (cases "x = 0") (simp_all add: rnd32_def algebra_simps abs_le_iff abs_if split: if_splits)
  then show ?thesis by linarith
next
  case False
  then have s: "x < 2 powi (-126)" and nz: "x \<noteq> 0" by simp_all
  have "ulp32 x \<le> 2 powi (-149)"
  proof -
    have "ilog2 \<bar>x\<bar> \<le> -126"
    proof (rule ccontr)
      assume "\<not> ilog2 \<bar>x\<bar> \<le> -126"
      then have "(2::rat) powi (-126) \<le> 2 powi (ilog2 \<bar>x\<bar>)" by (intro power_int_increasing) auto
      also have "\<dots> \<le> \<bar>x\<bar>" using nz by (intro ilog2_bounds(1)) simp
      finally show False using s assms by simp
    qed
    then show ?thesis by (simp add: ulp32_def max_def)
  qed
  also have "(2::rat) powi (-149) \<le> 1 / 4" by simp
  finally have "ulp32 x \<le> 1 / 4" .
  moreover have "x < 1 / 4" using s by (rule less_le_trans) simp
  ultimately have "rnd32 x < 1" using abs_le_D1 [OF rnd32_abs_error [of x]] by linarith
  moreover have "0 \<le> rnd32 x" using assms by (rule rnd32_nonneg)
  ultimately have "\<lfloor>rnd32 x\<rfloor> = 0" by linarith
  then show ?thesis using assms by simp
qed

lemma one_minus_u_pow: "n \<le> 80 \<Longrightarrow> (1::rat) / 2 \<le> (1 - u32) ^ n"
proof -
  assume "n \<le> 80"
  have "(1::rat) / 2 \<le> (1 - u32) ^ 80" by (simp add: power_divide)
  also have "\<dots> \<le> (1 - u32) ^ n" using \<open>n \<le> 80\<close> by (intro power_decreasing) auto
  finally show ?thesis .
qed

lemma rnd32_of_int_integral: "\<exists>r. rnd32 (of_int n) = of_int r"
proof (cases "n = 0")
  case False
  define e where "e = ilog2 \<bar>of_int n\<bar>"
  have "(1::rat) \<le> \<bar>of_int n\<bar>" using False by linarith
  also have "\<bar>of_int n\<bar> < (2::rat) powi (e + 1)" unfolding e_def using False by (intro ilog2_bounds(2)) simp
  finally have "0 < e + 1" by (metis linorder_not_less not_less power_int_0_right power_int_increasing one_le_numeral)
  then have u: "ulp32 (of_int n) = 2 powi (e - 23)" by (simp add: ulp32_def e_def max_def)
  show ?thesis
  proof (cases "23 \<le> e")
    case True
    then have "(2::rat) powi (e - 23) = of_int (2 ^ nat (e - 23))" by (simp add: power_int_def)
    then show ?thesis using False u by (simp only: rnd32_def) (metis of_int_mult of_int_eq_0_iff)
  next
    case small: False
    then have "of_int n / (2::rat) powi (e - 23) = of_int (n * 2 ^ nat (23 - e))"
      by (simp add: power_int_def field_simps)
    then have "rnd32 (of_int n) = of_int (n * 2 ^ nat (23 - e)) * 2 powi (e - 23)"
      using False u by (simp only: rnd32_def rne_of_int of_int_eq_0_iff if_False)
    also have "\<dots> = of_int n" using small by (simp add: power_int_def field_simps)
    finally show ?thesis by blast
  qed
qed (auto simp: rnd32_def intro: exI [of _ 0])

lemma slice_upper:
  assumes rd: "0 < rd" "rd \<le> 2 ^ 40" and w: "weight_ok w" and T: "0 < T" "w * (1 - u32) ^ n \<le> T" and n: "n \<le> 80"
  shows "f32_to_i64 (f32_div (f32_mul (f32_of_int rd) (Fin w)) (Fin T)) =
      \<lfloor>rnd32 (rnd32 (rnd32 (of_int rd) * w) / T)\<rfloor>"
    and "0 \<le> f32_to_i64 (f32_div (f32_mul (f32_of_int rd) (Fin w)) (Fin T))"
    and "of_int (f32_to_i64 (f32_div (f32_mul (f32_of_int rd) (Fin w)) (Fin T))) * T \<le> of_int rd * w * (1 + u32) ^ 3"
proof -
  define R P Q where "R = rnd32 (of_int rd)" and "P = rnd32 (R * w)" and "Q = rnd32 (P / T)"
  have w0: "0 \<le> w" "w \<le> 2 ^ 40" "on_grid w" using w by (auto simp: weight_ok_def)
  have rd0: "(0::rat) \<le> of_int rd" using rd by simp
  have R0: "0 \<le> R" unfolding R_def using rd0 by (rule rnd32_nonneg)
  have R1: "R \<le> of_int rd * (1 + u32)" unfolding R_def using on_grid_of_int rd0 by (rule rnd32_grid_upper)
  have "of_int rd \<le> (2::rat) ^ 40" using rd(2) by (metis of_int_le_iff of_int_numeral of_int_power)
  then have R2: "R \<le> 2 ^ 41" using R1 by simp
  obtain r where "R = of_int r" unfolding R_def using rnd32_of_int_integral by blast
  then have g: "on_grid (R * w)" using w0 by (simp add: on_grid_mult_int)
  have rw0: "0 \<le> R * w" using R0 w0 by simp
  have P0: "0 \<le> P" unfolding P_def using rw0 by (rule rnd32_nonneg)
  have P1: "P \<le> R * w * (1 + u32)" unfolding P_def using g rw0 by (rule rnd32_grid_upper)
  have RW: "R * w \<le> 2 ^ 41 * 2 ^ 40" using R2 R0 w0 by (intro mult_mono) auto
  have P2: "P \<le> 2 ^ 82" using P1 RW by simp
  have "w \<le> 2 * T"
  proof -
    have "w * (1 / 2) \<le> w * (1 - u32) ^ n" using one_minus_u_pow [OF n] w0 by (intro mult_left_mono) auto
    then show ?thesis using T by linarith
  qed
  then have "R * w \<le> 2 ^ 41 * (2 * T)" using R2 R0 w0 T by (intro mult_mono) auto
  then have "P \<le> 2 ^ 43 * T" using P1 T by simp
  then have q: "P / T \<le> 2 ^ 43" using T by (simp add: divide_le_eq)
  have pt0: "0 \<le> P / T" using P0 T by simp
  have fl: "of_int \<lfloor>Q\<rfloor> \<le> P / T * (1 + u32)" unfolding Q_def using pt0 by (rule floor_rnd32_upper)
  have Q0: "0 \<le> Q" unfolding Q_def using pt0 by (rule rnd32_nonneg)
  have Q1: "Q < 2 ^ 45" using fl q by (simp add: field_simps) linarith
  have m1: "f32_of_int rd = Fin R" using R0 R2 by (simp add: f32_of_int_def R_def mk32_Fin)
  have m2: "f32_mul (Fin R) (Fin w) = Fin P" using P0 P2 by (simp add: P_def mk32_Fin)
  have m3: "f32_div (Fin P) (Fin T) = Fin Q" using Q0 Q1 T by (simp add: Q_def mk32_Fin)
  have v: "f32_to_i64 (Fin Q) = \<lfloor>Q\<rfloor>" using Q0 Q1 by (auto simp: trunc_def in_i64_def floor_le_iff)
  show "f32_to_i64 (f32_div (f32_mul (f32_of_int rd) (Fin w)) (Fin T)) =
      \<lfloor>rnd32 (rnd32 (rnd32 (of_int rd) * w) / T)\<rfloor>"
    by (simp only: m1 m2 m3 v) (simp only: Q_def P_def R_def)
  show "0 \<le> f32_to_i64 (f32_div (f32_mul (f32_of_int rd) (Fin w)) (Fin T))"
    using Q0 by (simp only: m1 m2 m3 v) simp
  have "of_int \<lfloor>Q\<rfloor> * T \<le> P * (1 + u32)" using fl T by (simp add: field_simps)
  also have "\<dots> \<le> R * w * (1 + u32) * (1 + u32)" using P1 by (intro mult_right_mono) auto
  also have "\<dots> \<le> of_int rd * (1 + u32) * w * (1 + u32) * (1 + u32)"
    using R1 w0 by (intro mult_right_mono) auto
  also have "\<dots> = of_int rd * w * (1 + u32) ^ 3" by (simp add: power3_eq_cube algebra_simps)
  finally show "of_int (f32_to_i64 (f32_div (f32_mul (f32_of_int rd) (Fin w)) (Fin T))) * T \<le> of_int rd * w * (1 + u32) ^ 3"
    by (simp only: m1 m2 m3 v)
qed

definition weights_ok :: "KrakenSharedState \<Rightarrow> bool" where
  "weights_ok m \<longleftrightarrow> (\<forall>i < tenant_count m. is_active m i \<longrightarrow> (\<exists>w. weights m ! i = Fin w \<and> weight_ok w)) \<and>
     length (active_weights m) \<le> 80 \<and> round_length m \<le> 2 ^ 40"

abbreviation active_tenants :: "KrakenSharedState \<Rightarrow> nat list" where
  "active_tenants m \<equiv> filter (is_active m) [0..<tenant_count m]"

lemma weights_ok_obtain:
  assumes "weights_ok m"
  obtains f T where "\<And>i. i \<in> set (active_tenants m) \<Longrightarrow> weights m ! i = Fin (f i) \<and> weight_ok (f i)"
    and "total_weight m = Fin T" and "0 \<le> T"
    and "sum_list (map f (active_tenants m)) * (1 - u32) ^ length (active_tenants m) \<le> T"
proof -
  define f where "f i = (case weights m ! i of Fin w \<Rightarrow> w | _ \<Rightarrow> 0)" for i
  have f: "weights m ! i = Fin (f i) \<and> weight_ok (f i)" if "i \<in> set (active_tenants m)" for i
    using assms that by (fastforce simp: weights_ok_def f_def)
  have aw: "active_weights m = map Fin (map f (active_tenants m))"
    using f by (simp add: active_weights_def)
  have "length (map f (active_tenants m)) \<le> 80" using assms by (simp add: weights_ok_def active_weights_def)
  then obtain T where "foldl f32_add (Fin 0) (map Fin (map f (active_tenants m))) = Fin T" "0 \<le> T"
    "(0 + sum_list (map f (active_tenants m))) * (1 - u32) ^ length (map f (active_tenants m)) \<le> T"
    using weight_sum_bounds [of "map f (active_tenants m)" 0 0] f by auto
  then show thesis using f aw by (intro that [of f T]) (auto simp: total_weight_def)
qed

lemma calc_slice_facts:
  assumes "weights_ok m"
  obtains f T where "0 < T" and "sum_list (map f (active_tenants m)) * (1 - u32) ^ length (active_tenants m) \<le> T"
    and "\<And>i. i \<in> set (active_tenants m) \<Longrightarrow> weights m ! i = Fin (f i) \<and> 0 \<le> f i \<and>
      calc_slice_us m i = \<lfloor>rnd32 (rnd32 (rnd32 (of_int (round_length m)) * f i) / T)\<rfloor> \<and>
      0 \<le> calc_slice_us m i \<and> of_int (calc_slice_us m i) * T \<le> of_int (round_length m) * f i * (1 + u32) ^ 3"
proof -
  obtain f T where f: "\<And>i. i \<in> set (active_tenants m) \<Longrightarrow> weights m ! i = Fin (f i) \<and> weight_ok (f i)"
    and T: "total_weight m = Fin T" "0 \<le> T"
    and S: "sum_list (map f (active_tenants m)) * (1 - u32) ^ length (active_tenants m) \<le> T"
    using weights_ok_obtain [OF assms] by metis
  define T' where "T' = (if T \<le> 0 then 1 else T)"
  let ?n = "length (active_tenants m)"
  have n: "?n \<le> 80" and rd: "0 < round_length m" "round_length m \<le> 2 ^ 40"
    using assms by (auto simp: weights_ok_def active_weights_def round_length_def)
  have T': "0 < T'" "sum_list (map f (active_tenants m)) * (1 - u32) ^ ?n \<le> T'"
    using S T(2) by (auto simp: T'_def)
  show thesis
  proof (rule that [OF T'], goal_cases)
    case i: (1 i)
    have "f i \<le> sum_list (map f (active_tenants m))"
      using f i by (intro member_le_sum_list) (auto simp: weight_ok_def)
    then have "f i * (1 - u32) ^ ?n \<le> sum_list (map f (active_tenants m)) * (1 - u32) ^ ?n"
      by (intro mult_right_mono) auto
    then have "f i * (1 - u32) ^ ?n \<le> T'" using T'(2) by linarith
    moreover have "calc_slice_us m i = f32_to_i64 (f32_div (f32_mul (f32_of_int (round_length m)) (Fin (f i))) (Fin T'))"
      using f [OF i] T(1) by (simp add: calc_slice_us_def T'_def Let_def)
    ultimately show ?case using slice_upper [OF rd _ T'(1) _ n, of "f i"] f [OF i] by (simp add: weight_ok_def)
  qed
qed

text \<open>Rounding is monotone.\<close>

lemma rne_mono: "x \<le> y \<Longrightarrow> rne x \<le> rne y"
proof -
  assume le: "x \<le> y"
  then consider "\<lfloor>x\<rfloor> < \<lfloor>y\<rfloor>" | "\<lfloor>x\<rfloor> = \<lfloor>y\<rfloor>" using floor_mono by force
  then show ?thesis
    using le by cases (auto simp: rne_def Let_def)
qed

lemma powi_less_imp: "(2::rat) powi a < 2 powi b \<Longrightarrow> a < b"
  by (rule ccontr) (use power_int_increasing [of b a "2::rat"] in simp)

lemma rnd32_mono:
  assumes "0 \<le> x" and "x \<le> y"
  shows "rnd32 x \<le> rnd32 y"
proof (cases "x = 0")
  case True
  then show ?thesis using assms rnd32_nonneg [of y] by (simp add: rnd32_def [of 0])
next
  case False
  with assms have px: "0 < x" and py: "0 < y" by auto
  define ex ey where "ex = max (ilog2 x) (-126)" and "ey = max (ilog2 y) (-126)"
  have ux: "ulp32 x = 2 powi (ex - 23)" and uy: "ulp32 y = 2 powi (ey - 23)"
    using px py by (simp_all add: ulp32_def ex_def ey_def)
  have rx: "rnd32 x = of_int (rne (x / ulp32 x)) * ulp32 x" and ry: "rnd32 y = of_int (rne (y / ulp32 y)) * ulp32 y"
    using px py by (simp_all add: rnd32_def)
  have "(2::rat) powi ilog2 x < 2 powi (ilog2 y + 1)"
    using ilog2_bounds(1) [OF px] ilog2_bounds(2) [OF py] assms(2) by linarith
  then have le: "ex \<le> ey" using powi_less_imp [of "ilog2 x" "ilog2 y + 1"] by (simp add: ex_def ey_def)
  show ?thesis
  proof (cases "ex = ey")
    case True
    then have "rne (x / ulp32 x) \<le> rne (y / ulp32 y)"
      using assms ux uy by (intro rne_mono) (simp add: divide_right_mono)
    moreover have "ulp32 x = ulp32 y" using True ux uy by simp
    ultimately show ?thesis unfolding rx ry by (simp add: mult_right_mono less_imp_le)
  next
    case False
    with le have lt: "ex + 1 \<le> ey" and ey: "ey = ilog2 y" by (auto simp: ex_def ey_def max_def split: if_splits)
    have split: "(2::rat) powi (a + b) = 2 powi a * 2 powi b" for a b by (simp add: power_int_add)
    have "x \<le> 2 powi (ilog2 x + 1)" using ilog2_bounds(2) [OF px] by simp
    also have "\<dots> \<le> 2 powi (24 + (ex - 23))" by (intro power_int_increasing) (auto simp: ex_def)
    also have "\<dots> = of_int (2 ^ 24) * ulp32 x" unfolding ux split by simp
    finally have "x / ulp32 x \<le> of_int (2 ^ 24)" by (simp add: divide_le_eq)
    then have "rne (x / ulp32 x) \<le> 2 ^ 24" using rne_mono rne_of_int by metis
    then have "rnd32 x \<le> of_int (2 ^ 24) * ulp32 x" unfolding rx
      by (intro mult_right_mono) (auto simp: less_imp_le)
    also have "\<dots> = 2 powi (24 + (ex - 23))" unfolding ux split by simp
    also have "\<dots> \<le> 2 powi (23 + (ey - 23))" using lt by (intro power_int_increasing) auto
    also have "\<dots> = of_int (2 ^ 23) * ulp32 y" unfolding uy split by simp
    also have "\<dots> \<le> rnd32 y"
    proof -
      have "of_int (2 ^ 23) * ulp32 y = 2 powi (23 + (ey - 23))" unfolding uy split by simp
      also have "\<dots> \<le> y" using ilog2_bounds(1) [OF py] ey by simp
      finally have "of_int (2 ^ 23) \<le> y / ulp32 y" by (simp add: le_divide_eq)
      then have "2 ^ 23 \<le> rne (y / ulp32 y)" using rne_mono rne_of_int by metis
      then show ?thesis unfolding ry by (intro mult_right_mono) (auto simp: less_imp_le)
    qed
    finally show ?thesis .
  qed
qed

lemma reload_frame [simp]:
  "g_shm (reload_killer_policy_if_needed fs m g) = g_shm g"
  "tenant_idx (reload_killer_policy_if_needed fs m g) = tenant_idx g"
  "initialized (reload_killer_policy_if_needed fs m g) = initialized g"
  "killer_start (reload_killer_policy_if_needed fs m g) = killer_start g"
  by (auto simp: reload_killer_policy_if_needed_def load_killer_policy_def Let_def split: option.splits prod.splits)

section \<open>Properties\<close>

text \<open>
  C10. A round does not hand out more time than it lasts: for nonnegative weights the slices
  of the active tenants are nonnegative and add up to at most the round length, up to the
  rounding of single precision arithmetic, which is three roundings per slice and one per
  addition of a weight (\<open>u = 2\<^sup>-\<^sup>2\<^sup>4\<close>).
\<close>

theorem round_slices_bounded:
  assumes "weights_ok m"
  shows "(\<forall>i \<in> set (active_tenants m). 0 \<le> calc_slice_us m i) \<and>
    of_int (sum_list (map (calc_slice_us m) (active_tenants m))) * (1 - u32) ^ length (active_tenants m)
      \<le> of_int (round_length m) * (1 + u32) ^ 3"
proof -
  let ?is = "active_tenants m" and ?rd = "of_int (round_length m) :: rat"
  obtain f T where T: "0 < T" "sum_list (map f ?is) * (1 - u32) ^ length ?is \<le> T"
    and sl: "\<forall>i \<in> set ?is. 0 \<le> calc_slice_us m i \<and> of_int (calc_slice_us m i) * T \<le> ?rd * f i * (1 + u32) ^ 3"
    using calc_slice_facts [OF assms] by metis
  have rd: "0 \<le> ?rd" by (simp add: round_length_def)
  let ?S = "of_int (sum_list (map (calc_slice_us m) ?is)) :: rat" and ?c = "(1 - u32) ^ length ?is"
  have "?S * T \<le> ?rd * (1 + u32) ^ 3 * sum_list (map f is')"
    if "is' = ?is" for is' using sl unfolding that [symmetric]
    by (induction is') (auto simp: algebra_simps simp del: power_Suc)
  then have "?S * T * ?c \<le> ?rd * (1 + u32) ^ 3 * sum_list (map f ?is) * ?c"
    by (intro mult_right_mono) auto
  also have "\<dots> \<le> ?rd * (1 + u32) ^ 3 * T"
    using T(2) rd by (simp only: mult.assoc) (intro mult_left_mono, auto)
  finally have "?S * ?c * T \<le> ?rd * (1 + u32) ^ 3 * T" by (simp only: mult_ac)
  then have "?S * ?c \<le> ?rd * (1 + u32) ^ 3" using T(1) by (rule mult_right_le_imp_le)
  with sl show ?thesis by blast
qed

text \<open>
  C11. The allocation of a round respects the weights: of two active tenants the one with the
  larger weight never receives the smaller slice, in spite of the rounding.
\<close>

theorem heavier_tenant_not_less:
  assumes "weights_ok m" and "i \<in> set (active_tenants m)" and "j \<in> set (active_tenants m)"
    and "weights m ! i = Fin v" and "weights m ! j = Fin w" and "v \<le> w"
  shows "calc_slice_us m i \<le> calc_slice_us m j"
proof -
  obtain f T where T: "0 < T" and f: "\<And>i. i \<in> set (active_tenants m) \<Longrightarrow> weights m ! i = Fin (f i) \<and> 0 \<le> f i \<and>
      calc_slice_us m i = \<lfloor>rnd32 (rnd32 (rnd32 (of_int (round_length m)) * f i) / T)\<rfloor>"
    using calc_slice_facts [OF assms(1)] by metis
  have v: "f i = v" and w: "f j = w" and v0: "0 \<le> v" using f assms(2-5) by (metis f32.inject)+
  have "0 \<le> rnd32 (of_int (round_length m))" by (intro rnd32_nonneg) (simp add: round_length_def)
  then have "rnd32 (rnd32 (of_int (round_length m)) * v) / T \<le> rnd32 (rnd32 (of_int (round_length m)) * w) / T"
    and "0 \<le> rnd32 (rnd32 (of_int (round_length m)) * v) / T"
    using T v0 assms(6) by (auto intro!: divide_right_mono rnd32_mono mult_left_mono rnd32_nonneg divide_nonneg_pos)
  then have "\<lfloor>rnd32 (rnd32 (rnd32 (of_int (round_length m)) * v) / T)\<rfloor> \<le> \<lfloor>rnd32 (rnd32 (rnd32 (of_int (round_length m)) * w) / T)\<rfloor>"
    by (intro floor_mono rnd32_mono)
  then show ?thesis using f [OF assms(2)] f [OF assms(3)] v w by simp
qed

abbreviation sample_round :: KrakenSharedState where
  "sample_round \<equiv> sample_shm (sample_tenant 1 (-5)) (sample_tenant 1 0)"

lemma sample_weights_ok: "weights_ok sample_round"
proof -
  have "on_grid 3" and "on_grid 1" using on_grid_of_int [of 3] on_grid_of_int [of 1] by simp_all
  then show ?thesis
    by (auto simp: weights_ok_def weight_ok_def active_weights_def round_length_def sample_shm_def sample_tenant_def
        less_Suc_eq numeral_2_eq_2 upt_rec)
qed

lemma sample_active: "active_tenants sample_round = [0, 1]"
  by (simp add: sample_shm_def sample_tenant_def numeral_2_eq_2 upt_rec)

theorem round_slices_bounded_witness:
  "of_int (sum_list (map (calc_slice_us sample_round) [0, 1])) * (1 - u32) ^ length [0, 1 :: nat]
     \<le> of_int (round_length sample_round) * (1 + u32) ^ 3"
  using round_slices_bounded [OF sample_weights_ok] unfolding sample_active by blast

theorem heavier_tenant_not_less_witness:
  "calc_slice_us sample_round 1 \<le> calc_slice_us sample_round 0"
  by (rule heavier_tenant_not_less [OF sample_weights_ok, of 1 0 1 3])
     (simp_all add: sample_active, simp_all add: sample_shm_def)

text \<open>
  C12. Starting a round: a tenant that finds the trigger lock free recharges every registered
  active tenant with its slice and releases it from waiting, leaves inactive tenants alone,
  advances the round number of all registered tenants to one past its own, and gives the
  lock back.
\<close>

theorem start_new_round_effect:
  assumes "shm_wf A m" and "g_shm g" and "tenant_idx g < MAX_TENANTS A" and "round_trigger_lock m = 0"
    and "start_new_round A fs (g, m) = (g', m')" and "j < MAX_TENANTS A"
  shows "round_trigger_lock m' = 0 \<and>
    tenants m' ! j =
      (if j < tenant_count m
       then (if is_active m j
             then (tenants m ! j)\<lparr>time_remain_us := calc_slice_us m j, gate_state := GATE_RUNNING A\<rparr>
             else tenants m ! j)
            \<lparr>round_id := wrap32 (round_id (tenants m ! tenant_idx g) + 1)\<rparr>
       else tenants m ! j)"
proof -
  let ?m1 = "m\<lparr>round_trigger_lock := 1\<rparr>"
  let ?g1 = "reload_killer_policy_if_needed fs ?m1 g"
  let ?m2 = "fold (recharge_one A ?g1) [0..<tenant_count ?m1] ?m1"
  have g1: "g_shm ?g1" "tenant_idx ?g1 = tenant_idx g" using assms(2) by simp_all
  have len: "length (tenants m) = MAX_TENANTS A" "tenant_count m \<le> MAX_TENANTS A"
    using assms(1) by (simp_all add: shm_wf_def)
  have sl: "calc_slice_us ?m1 k = calc_slice_us m k" for k by (intro calc_slice_us_cong) auto
  have m2: "tenants ?m2 ! k = (if k < tenant_count m \<and> is_active m k
       then (tenants m ! k)\<lparr>time_remain_us := calc_slice_us m k, gate_state := GATE_RUNNING A\<rparr> else tenants m ! k)"
    if "k < MAX_TENANTS A" for k
    using fold_recharge [of "[0..<tenant_count ?m1]" ?m1 ?g1 k A] g1 len that sl by simp
  then have rid: "round_id (tenants ?m2 ! tenant_idx ?g1) = round_id (tenants m ! tenant_idx g)"
    using assms(3) g1 by simp
  have "m' = (fold (store_round_id (round_id (tenants ?m2 ! tenant_idx ?g1))) [0..<tenant_count ?m2] ?m2)\<lparr>round_trigger_lock := 0\<rparr>"
    using assms(4,5) by (auto simp: start_new_round_def Let_def)
  then show ?thesis
    using m2 [OF assms(6)] fold_round_id [of j ?m2 "round_id (tenants m ! tenant_idx g)" "[0..<tenant_count m]"]
      rid len assms(6) by simp
qed

theorem start_new_round_effect_witness:
  "gate_state (tenants (snd (start_new_round sample_abi (\<lambda>_. None) (sample_runtime 1, sample_round))) ! 0) = 0"
proof -
  obtain g' m' where s: "start_new_round sample_abi (\<lambda>_. None) (sample_runtime 1, sample_round) = (g', m')" by force
  have "tenants m' ! 0 = (tenants sample_round ! 0)\<lparr>time_remain_us := calc_slice_us sample_round 0,
      gate_state := GATE_RUNNING sample_abi, round_id := wrap32 (0 + 1)\<rparr>"
    using start_new_round_effect [of sample_abi sample_round "sample_runtime 1" "\<lambda>_. None" g' m' 0] s
    by (simp add: shm_wf_def) (simp add: sample_defs)
  then show ?thesis using s by (simp add: sample_abi_def)
qed

text \<open>
  Killer time is conserved: charging a kernel moves exactly its execution time from the
  tenant's remaining slice to its execution total (modulo 64 bits) and touches no other
  tenant.
\<close>

theorem deduct_conserves_time:
  assumes "g_shm g" and "tenant_idx g < length (tenants m)" and "j < length (tenants m)"
  shows "wrap64 (time_remain_us (tenants (timeslice_deduct e g m) ! j) + total_exec_us (tenants (timeslice_deduct e g m) ! j))
      = wrap64 (time_remain_us (tenants m ! j) + total_exec_us (tenants m ! j)) \<and>
    (j = tenant_idx g \<longrightarrow> total_exec_us (tenants (timeslice_deduct e g m) ! j) = wrap64 (total_exec_us (tenants m ! j) + e)) \<and>
    (j \<noteq> tenant_idx g \<longrightarrow> tenants (timeslice_deduct e g m) ! j = tenants m ! j)"
proof -
  have "wrap64 (wrap64 (r - e) + wrap64 (x + e)) = wrap64 (r + x)" for r x
  proof -
    have "wrap64 (wrap64 (x + e) + (r - e)) = wrap64 (x + e + (r - e))" by (rule wrap64_add_left)
    then show ?thesis by (simp add: add.commute [of "r - e"]) (simp add: algebra_simps)
  qed
  with assms show ?thesis by (auto simp: timeslice_deduct_def)
qed

theorem deduct_conserves_time_witness:
  "total_exec_us (tenants (timeslice_deduct 40 (sample_runtime 0) sample_round) ! 0) = 40"
  using deduct_conserves_time [of "sample_runtime 0" sample_round 0 40]
  by (simp add: sample_defs) (simp add: wrap64_def)

end
