(* ===== verification/StreamGate.thy ===== *)
theory StreamGate
  imports RoundManager
begin

text \<open>
  \<open>gating/stream_gate.cpp\<close>: the entry and exit protocol around a killer kernel, as a machine
  whose steps are the accesses to shared memory. \<open>gate_step\<close> executes the next access of one
  process, at the program point \<open>pc\<close>; the loops of \<open>round_manager.cpp\<close> that the protocol
  calls are unrolled into the same machine, because the other tenants run between any two
  accesses. On top of it stand \<open>gate_killer_enter\<close> and \<open>gate_killer_exit\<close>, one call run
  against an explicit list of interferences. Theory GateSystem interleaves the processes.
\<close>

section \<open>Program points\<close>

text \<open>The two call sites of \<open>round_check_and_trigger\<close>: before the wait loop and inside it.\<close>

datatype trig_site = FirstCall | SpinCall

datatype gate_pc =
    Outside
  | ProfMode | ProfIdx | FreeMode | SliceTest | SetWaiting
  | AllActive nat trig_site | AllState nat trig_site
  | TryLock trig_site | Reload trig_site
  | Recharge nat trig_site | RechargeTime nat trig_site | RechargeState nat trig_site
  | ReadRid trig_site | StoreRid nat int trig_site | Unlock trig_site
  | WaitStart | WaitTest | WaitEnd
  | PeerActive nat | PeerState nat | PeerStart nat | PeerSpin nat | PeerEnd nat
  | MarkActive | Stamp
  | Inside
  | ExitClock | Deduct | CountKiller | Release

text \<open>The local variables of the two functions: \<open>wait_s1\<close>/\<open>wait_s2\<close> and \<open>elapsed_us\<close>.\<close>

record gate_local =
  pc :: gate_pc
  wait_s :: timespec
  elapsed_us :: int

fun after_trigger :: "trig_site \<Rightarrow> gate_pc" where
  "after_trigger FirstCall = WaitStart"
| "after_trigger SpinCall = WaitTest"

abbreviation goto :: "gate_pc \<Rightarrow> gate_local \<Rightarrow> gate_local" where
  "goto p l \<equiv> l\<lparr>pc := p\<rparr>"

section \<open>round_check_and_trigger, one access per step\<close>

fun trigger_step :: "kraken_abi \<Rightarrow> (string \<Rightarrow> string option) \<Rightarrow> gate_pc \<Rightarrow>
    'a KrakenRuntime_scheme \<times> KrakenSharedState \<Rightarrow> gate_pc \<times> 'a KrakenRuntime_scheme \<times> KrakenSharedState" where
  "trigger_step A fs (AllActive i c) (g, m) =
     (if i < tenant_count m then (if is_active m i then AllState i c else AllActive (Suc i) c, g, m)
      else (TryLock c, g, m))"
| "trigger_step A fs (AllState i c) (g, m) =
     (if gate_state (tenants m ! i) \<noteq> GATE_WAITING A then after_trigger c else AllActive (Suc i) c, g, m)"
| "trigger_step A fs (TryLock c) (g, m) =
     (if round_trigger_lock m \<noteq> 0 then (after_trigger c, g, m)
      else (Reload c, g, m\<lparr>round_trigger_lock := 1\<rparr>))"
| "trigger_step A fs (Reload c) (g, m) = (Recharge 0 c, reload_killer_policy_if_needed fs m g, m)"
| "trigger_step A fs (Recharge i c) (g, m) =
     (if i < tenant_count m then (if is_active m i then RechargeTime i c else Recharge (Suc i) c, g, m)
      else (ReadRid c, g, m))"
| "trigger_step A fs (RechargeTime i c) (g, m) =
     (RechargeState i c, g, upd_tenant i (\<lambda>t. t\<lparr>time_remain_us := calc_slice_us m i\<rparr>) m)"
| "trigger_step A fs (RechargeState i c) (g, m) =
     (Recharge (Suc i) c, g, upd_tenant i (\<lambda>t. t\<lparr>gate_state := GATE_RUNNING A\<rparr>) m)"
| "trigger_step A fs (ReadRid c) (g, m) = (StoreRid 0 (round_id (tenants m ! tenant_idx g)) c, g, m)"
| "trigger_step A fs (StoreRid i rid c) (g, m) =
     (if i < tenant_count m then (StoreRid (Suc i) rid c, g, store_round_id rid i m) else (Unlock c, g, m))"
| "trigger_step A fs (Unlock c) (g, m) = (after_trigger c, g, m\<lparr>round_trigger_lock := 0\<rparr>)"
| "trigger_step A fs p (g, m) = (p, g, m)"

section \<open>The gate\<close>

fun gate_step :: "kraken_abi \<Rightarrow> (string \<Rightarrow> string option) \<Rightarrow> timespec \<Rightarrow>
    gate_local \<times> 'a KrakenRuntime_scheme \<times> KrakenSharedState \<Rightarrow>
    gate_local \<times> 'a KrakenRuntime_scheme \<times> KrakenSharedState" where
  "gate_step A fs now (l, g, m) = (case pc l of
      Outside \<Rightarrow> (l, g, m)
    | ProfMode \<Rightarrow> (goto (if mode m = MODE_PROFILING A then ProfIdx else FreeMode) l, g, m)
    | ProfIdx \<Rightarrow> (goto (if profiling_tenant_idx m = int (tenant_idx g) then FreeMode else ProfMode) l, g, m)
    | FreeMode \<Rightarrow> (goto (if mode m = MODE_FREE A then MarkActive else SliceTest) l, g, m)
    | SliceTest \<Rightarrow> (goto (if timeslice_exhausted g m then SetWaiting else PeerActive 0) l, g, m)
    | SetWaiting \<Rightarrow> (goto (AllActive 0 FirstCall) l, g, timeslice_set_waiting A g m)
    | WaitStart \<Rightarrow> (l\<lparr>pc := WaitTest, wait_s := now\<rparr>, g, m)
    | WaitTest \<Rightarrow> (goto (if gate_state (tenants m ! tenant_idx g) = GATE_WAITING A
                     then AllActive 0 SpinCall else WaitEnd) l, g, m)
    | WaitEnd \<Rightarrow> (goto (PeerActive 0) l, g, timeslice_add_wait (timespec_diff_us (wait_s l) now) g m)
    | PeerActive i \<Rightarrow> (goto (if i < tenant_count m
                     then if i = tenant_idx g \<or> \<not> is_active m i then PeerActive (Suc i) else PeerState i
                     else MarkActive) l, g, m)
    | PeerState i \<Rightarrow> (goto (if gate_state (tenants m ! i) \<noteq> GATE_KILLER_ACTIVE A
                     then PeerActive (Suc i) else PeerStart i) l, g, m)
    | PeerStart i \<Rightarrow> (l\<lparr>pc := PeerSpin i, wait_s := now\<rparr>, g, m)
    | PeerSpin i \<Rightarrow> (goto (if gate_state (tenants m ! i) = GATE_KILLER_ACTIVE A
                     then PeerSpin i else PeerEnd i) l, g, m)
    | PeerEnd i \<Rightarrow> (goto (PeerActive (Suc i)) l, g, timeslice_add_wait (timespec_diff_us (wait_s l) now) g m)
    | MarkActive \<Rightarrow> (goto Stamp l, g,
                     upd_tenant (tenant_idx g) (\<lambda>t. t\<lparr>gate_state := GATE_KILLER_ACTIVE A\<rparr>) m)
    | Stamp \<Rightarrow> (goto Inside l, g\<lparr>killer_start := now\<rparr>, m)
    | Inside \<Rightarrow> (l, g, m)
    | ExitClock \<Rightarrow> (l\<lparr>pc := Deduct, elapsed_us := timespec_diff_us (killer_start g) now\<rparr>, g, m)
    | Deduct \<Rightarrow> (goto CountKiller l, g, timeslice_deduct (elapsed_us l) g m)
    | CountKiller \<Rightarrow> (goto Release l, g,
                     upd_tenant (tenant_idx g) (\<lambda>t. t\<lparr>killer_count := killer_count t + 1\<rparr>) m)
    | Release \<Rightarrow> (goto Outside l, g,
                     upd_tenant (tenant_idx g) (\<lambda>t. t\<lparr>gate_state := GATE_RUNNING A\<rparr>) m)
    | _ \<Rightarrow> (case trigger_step A fs (pc l) (g, m) of (p, g', m') \<Rightarrow> (goto p l, g', m')))"

declare gate_step.simps [simp del]

section \<open>One call against interferences\<close>

text \<open>
  Between two accesses the clock advances and the other processes may change the segment:
  an interference is the new clock reading and the change. The call is over when the
  machine is at \<open>fin\<close>; \<open>None\<close> means that it was still running after the last interference.
\<close>

type_synonym interference = "timespec \<times> (KrakenSharedState \<Rightarrow> KrakenSharedState)"

type_synonym 'a gate_conf = "timespec \<times> gate_local \<times> 'a KrakenRuntime_scheme \<times> KrakenSharedState"

definition disturb :: "interference \<Rightarrow> 'a gate_conf \<Rightarrow> 'a gate_conf" where
  "disturb e = (\<lambda>(now, l, g, m). (fst e, l, g, snd e m))"

definition call_body :: "kraken_abi \<Rightarrow> (string \<Rightarrow> string option) \<Rightarrow> gate_pc \<Rightarrow> 'a gate_conf \<Rightarrow>
    'a gate_conf + 'a gate_conf" where
  "call_body A fs fin = (\<lambda>(now, l, g, m).
     if pc l = fin then Inr (now, l, g, m) else Inl (now, gate_step A fs now (l, g, m)))"

definition gate_call :: "kraken_abi \<Rightarrow> (string \<Rightarrow> string option) \<Rightarrow> gate_pc \<Rightarrow> gate_pc \<Rightarrow>
    interference list \<Rightarrow> timespec \<Rightarrow> 'a KrakenRuntime_scheme \<times> KrakenSharedState \<Rightarrow>
    (timespec \<times> 'a KrakenRuntime_scheme \<times> KrakenSharedState) option" where
  "gate_call A fs start fin es now = (\<lambda>(g, m).
     if \<not> g_shm g then Some (now, g, m)
     else map_option (\<lambda>((now', l', g', m'), rest). (now', g', m'))
       (poll (call_body A fs fin) (map disturb es)
          (now, \<lparr>pc = start, wait_s = now, elapsed_us = 0\<rparr>, g, m)))"

definition gate_killer_enter :: "kraken_abi \<Rightarrow> (string \<Rightarrow> string option) \<Rightarrow> interference list \<Rightarrow> timespec \<Rightarrow>
    'a KrakenRuntime_scheme \<times> KrakenSharedState \<Rightarrow>
    (timespec \<times> 'a KrakenRuntime_scheme \<times> KrakenSharedState) option" where
  "gate_killer_enter A fs = gate_call A fs ProfMode Inside"

definition gate_killer_exit :: "kraken_abi \<Rightarrow> (string \<Rightarrow> string option) \<Rightarrow> interference list \<Rightarrow> timespec \<Rightarrow>
    'a KrakenRuntime_scheme \<times> KrakenSharedState \<Rightarrow>
    (timespec \<times> 'a KrakenRuntime_scheme \<times> KrakenSharedState) option" where
  "gate_killer_exit A fs = gate_call A fs ExitClock Outside"

section \<open>Running alone\<close>

definition solo :: "kraken_abi \<Rightarrow> (string \<Rightarrow> string option) \<Rightarrow> timespec \<Rightarrow>
    gate_local \<times> 'a KrakenRuntime_scheme \<times> KrakenSharedState \<Rightarrow>
    gate_local \<times> 'a KrakenRuntime_scheme \<times> KrakenSharedState \<Rightarrow> bool" where
  "solo A fs now x y \<longleftrightarrow> pc (fst x) \<noteq> Inside \<and> y = gate_step A fs now x"

lemma solo_reach: "solo A fs now x y \<Longrightarrow> reach (solo A fs now) y z \<Longrightarrow> reach (solo A fs now) x z"
  by (rule reach_Cons)

lemma solo_next:
  "pc (fst x) \<noteq> Inside \<Longrightarrow> reach (solo A fs now) (gate_step A fs now x) z \<Longrightarrow> reach (solo A fs now) x z"
  by (rule solo_reach [of _ _ _ x "gate_step A fs now x"]) (auto simp: solo_def)

lemma gate_step_trigger:
  "gate_step A fs now (goto (AllActive i c) l, g, m) = (case trigger_step A fs (AllActive i c) (g, m) of (p, g', m') \<Rightarrow> (goto p l, g', m'))"
  "gate_step A fs now (goto (AllState i c) l, g, m) = (case trigger_step A fs (AllState i c) (g, m) of (p, g', m') \<Rightarrow> (goto p l, g', m'))"
  "gate_step A fs now (goto (TryLock c) l, g, m) = (case trigger_step A fs (TryLock c) (g, m) of (p, g', m') \<Rightarrow> (goto p l, g', m'))"
  "gate_step A fs now (goto (Reload c) l, g, m) = (case trigger_step A fs (Reload c) (g, m) of (p, g', m') \<Rightarrow> (goto p l, g', m'))"
  "gate_step A fs now (goto (Recharge i c) l, g, m) = (case trigger_step A fs (Recharge i c) (g, m) of (p, g', m') \<Rightarrow> (goto p l, g', m'))"
  "gate_step A fs now (goto (RechargeTime i c) l, g, m) = (case trigger_step A fs (RechargeTime i c) (g, m) of (p, g', m') \<Rightarrow> (goto p l, g', m'))"
  "gate_step A fs now (goto (RechargeState i c) l, g, m) = (case trigger_step A fs (RechargeState i c) (g, m) of (p, g', m') \<Rightarrow> (goto p l, g', m'))"
  "gate_step A fs now (goto (ReadRid c) l, g, m) = (case trigger_step A fs (ReadRid c) (g, m) of (p, g', m') \<Rightarrow> (goto p l, g', m'))"
  "gate_step A fs now (goto (StoreRid i r c) l, g, m) = (case trigger_step A fs (StoreRid i r c) (g, m) of (p, g', m') \<Rightarrow> (goto p l, g', m'))"
  "gate_step A fs now (goto (Unlock c) l, g, m) = (case trigger_step A fs (Unlock c) (g, m) of (p, g', m') \<Rightarrow> (goto p l, g', m'))"
  by (simp_all add: gate_step.simps split: prod.splits)

lemma upd_tenant_twice: "upd_tenant i f (upd_tenant i h m) = upd_tenant i (\<lambda>t. f (h t)) m"
  by (cases "i < length (tenants m)") (simp_all add: upd_tenant_def list_update_beyond)

lemma recharge_one_split:
  "g_shm g \<Longrightarrow> is_active m i \<Longrightarrow> upd_tenant i (\<lambda>t. t\<lparr>gate_state := GATE_RUNNING A\<rparr>)
     (upd_tenant i (\<lambda>t. t\<lparr>time_remain_us := calc_slice_us m i\<rparr>) m) = recharge_one A g i m"
  by (simp add: recharge_one_def timeslice_recharge_def upd_tenant_twice)

lemma solo_all_waiting:
  assumes "i \<le> tenant_count m"
  shows "reach (solo A fs now) (goto (AllActive i c) l, g, m)
    (goto (if list_all (\<lambda>i. is_active m i \<longrightarrow> gate_state (tenants m ! i) = GATE_WAITING A) [i..<tenant_count m]
           then TryLock c else after_trigger c) l, g, m)"
  using assms
proof (induction "tenant_count m - i" arbitrary: i)
  case 0
  then show ?case
    by - (rule solo_next, simp_all add: gate_step_trigger reach_refl)
next
  case (Suc k)
  then have i: "i < tenant_count m" by simp
  then have up: "[i..<tenant_count m] = i # [Suc i..<tenant_count m]" by (rule upt_conv_Cons)
  show ?case
  proof (cases "is_active m i")
    case False
    with i Suc show ?thesis
      by - (rule solo_next, simp_all add: gate_step_trigger up)
  next
    case True
    have st: "reach (solo A fs now) (goto (AllState i c) l, g, m) z \<Longrightarrow> reach (solo A fs now) (goto (AllActive i c) l, g, m) z" for z
      using True i by - (rule solo_next, simp_all add: gate_step_trigger)
    show ?thesis
    proof (cases "gate_state (tenants m ! i) = GATE_WAITING A")
      case w: True
      with i Suc True show ?thesis
        by - (rule st, rule solo_next, simp_all add: gate_step_trigger up)
    next
      case False
      with i True show ?thesis
        by - (rule st, rule solo_next, simp_all add: gate_step_trigger up reach_refl)
    qed
  qed
qed

lemma solo_recharge:
  assumes "i \<le> tenant_count m" and "g_shm g"
  shows "reach (solo A fs now) (goto (Recharge i c) l, g, m)
    (goto (ReadRid c) l, g, fold (recharge_one A g) [i..<tenant_count m] m)"
  using assms
proof (induction "tenant_count m - i" arbitrary: i m)
  case 0
  then show ?case
    by - (rule solo_next, simp_all add: gate_step_trigger reach_refl)
next
  case (Suc k)
  then have i: "i < tenant_count m" by simp
  then have up: "[i..<tenant_count m] = i # [Suc i..<tenant_count m]" by (rule upt_conv_Cons)
  have IH: "reach (solo A fs now) (goto (Recharge (Suc i) c) l, g, recharge_one A g i m)
      (goto (ReadRid c) l, g, fold (recharge_one A g) [i..<tenant_count m] m)"
    using Suc(1) [of "recharge_one A g i m" "Suc i"] Suc.prems Suc(2) i by (simp add: up)
  show ?case
  proof (cases "is_active m i")
    case False
    with i IH show ?thesis
      by - (rule solo_next, simp_all add: gate_step_trigger recharge_one_def)
  next
    case True
    have st: "reach (solo A fs now) (goto (RechargeState i c) l, g, upd_tenant i (\<lambda>t. t\<lparr>time_remain_us := calc_slice_us m i\<rparr>) m) z
        \<Longrightarrow> reach (solo A fs now) (goto (Recharge i c) l, g, m) z" for z
      using True i by - (rule solo_next, simp, simp add: gate_step_trigger, rule solo_next, simp_all add: gate_step_trigger)
    show ?thesis
      using IH True Suc.prems(2)
      by - (rule st, rule solo_next, simp_all add: gate_step_trigger recharge_one_split)
  qed
qed

lemma solo_store_rid:
  assumes "i \<le> tenant_count m"
  shows "reach (solo A fs now) (goto (StoreRid i r c) l, g, m)
    (goto (Unlock c) l, g, fold (store_round_id r) [i..<tenant_count m] m)"
  using assms
proof (induction "tenant_count m - i" arbitrary: i m)
  case 0
  then show ?case
    by - (rule solo_next, simp_all add: gate_step_trigger reach_refl)
next
  case (Suc k)
  then have i: "i < tenant_count m" by simp
  then have up: "[i..<tenant_count m] = i # [Suc i..<tenant_count m]" by (rule upt_conv_Cons)
  have "reach (solo A fs now) (goto (StoreRid (Suc i) r c) l, g, store_round_id r i m)
      (goto (Unlock c) l, g, fold (store_round_id r) [i..<tenant_count m] m)"
    using Suc(1) [of "store_round_id r i m" "Suc i"] Suc.prems Suc(2) i by (simp add: up)
  with i show ?case
    by - (rule solo_next, simp_all add: gate_step_trigger)
qed

lemma solo_start_new_round:
  assumes "g_shm g"
  shows "reach (solo A fs now) (goto (TryLock c) l, g, m) (goto (after_trigger c) l, start_new_round A fs (g, m))"
proof (cases "round_trigger_lock m = 0")
  case False
  then show ?thesis
    by - (rule solo_next, simp_all add: gate_step_trigger reach_refl start_new_round_def)
next
  case True
  let ?m1 = "m\<lparr>round_trigger_lock := 1\<rparr>" and ?R = "reach (solo A fs now)"
  let ?g1 = "reload_killer_policy_if_needed fs ?m1 g"
  let ?m2 = "fold (recharge_one A ?g1) [0..<tenant_count m] ?m1"
  let ?rid = "round_id (tenants ?m2 ! tenant_idx ?g1)"
  let ?m3 = "fold (store_round_id ?rid) [0..<tenant_count m] ?m2"
  have "?R (goto (Unlock c) l, ?g1, ?m3) (goto (after_trigger c) l, ?g1, ?m3\<lparr>round_trigger_lock := 0\<rparr>)"
    by - (rule solo_next, simp_all add: gate_step_trigger reach_refl)
  then have "?R (goto (StoreRid 0 ?rid c) l, ?g1, ?m2) (goto (after_trigger c) l, ?g1, ?m3\<lparr>round_trigger_lock := 0\<rparr>)"
    using solo_store_rid [of 0 ?m2 A fs now ?rid c l ?g1] by (auto intro: reach_trans)
  then have "?R (goto (ReadRid c) l, ?g1, ?m2) (goto (after_trigger c) l, ?g1, ?m3\<lparr>round_trigger_lock := 0\<rparr>)"
    by - (rule solo_next, simp_all add: gate_step_trigger)
  then have "?R (goto (Recharge 0 c) l, ?g1, ?m1) (goto (after_trigger c) l, ?g1, ?m3\<lparr>round_trigger_lock := 0\<rparr>)"
    using solo_recharge [of 0 ?m1 ?g1 A fs now c l] assms by (auto intro: reach_trans)
  then have "?R (goto (Reload c) l, g, ?m1) (goto (after_trigger c) l, ?g1, ?m3\<lparr>round_trigger_lock := 0\<rparr>)"
    by - (rule solo_next, simp_all add: gate_step_trigger)
  then show ?thesis
    using True by - (rule solo_next, simp_all add: gate_step_trigger start_new_round_def Let_def)
qed

lemma trigger_refines_lemma:
  assumes "g_shm g"
  shows "reach (solo A fs now) (goto (AllActive 0 c) l, g, m)
     (goto (after_trigger c) l, round_check_and_trigger A fs (g, m))"
proof (cases "all_waiting A m")
  case True
  then have "reach (solo A fs now) (goto (AllActive 0 c) l, g, m) (goto (TryLock c) l, g, m)"
    using solo_all_waiting [of 0 m A fs now c l g] by (simp add: all_waiting_def)
  then show ?thesis
    using solo_start_new_round [OF assms, of A fs now c l m] True assms
    by (auto simp: round_check_and_trigger_def intro: reach_trans)
next
  case False
  then show ?thesis
    using solo_all_waiting [of 0 m A fs now c l g] assms by (simp add: round_check_and_trigger_def all_waiting_def)
qed


text \<open>
  C4. The access-by-access machine implements the round manager: run without interference
  from the call of \<open>round_check_and_trigger\<close> it comes back to the caller with exactly the
  process state and segment that the function computes.
\<close>

theorem trigger_refines_round_manager:
  assumes "g_shm g"
  shows "reach (solo A fs now) (goto (AllActive 0 c) l, g, m)
     (goto (after_trigger c) l, round_check_and_trigger A fs (g, m))"
  by (rule trigger_refines_lemma [OF assms])

section \<open>Entering the gate without contention\<close>

definition undisturbed :: "timespec \<Rightarrow> interference" where
  "undisturbed now = (now, \<lambda>m. m)"

lemma disturb_undisturbed [simp]: "disturb (undisturbed now) (now, x) = (now, x)"
  by (cases x) (simp add: disturb_def undisturbed_def)

lemma poll_solo:
  assumes "reach (solo A fs now) x y"
  shows "\<exists>n. \<forall>k. poll (call_body A fs Inside) (replicate (n + k) (disturb (undisturbed now))) (now, x) =
      poll (call_body A fs Inside) (replicate k (disturb (undisturbed now))) (now, y)"
  using assms
proof (induction rule: reach.induct)
  case (reach_refl s)
  show ?case by (rule exI [of _ 0]) simp
next
  case (reach_step s t u)
  then obtain n where n: "\<And>k. poll (call_body A fs Inside) (replicate (n + k) (disturb (undisturbed now))) (now, s) =
      poll (call_body A fs Inside) (replicate k (disturb (undisturbed now))) (now, t)" by blast
  from reach_step.hyps(2) have "call_body A fs Inside (now, t) = Inl (now, u)"
    by (cases t) (auto simp: solo_def call_body_def)
  then show ?case
    using n [of "Suc k" for k] by (intro exI [of _ "Suc n"]) (simp add: poll_Cons)
qed

lemma enter_of_solo:
  assumes "reach (solo A fs now) (\<lparr>pc = ProfMode, wait_s = now, elapsed_us = 0\<rparr>, g, m) (goto Inside l, g', m')" and "g_shm g"
  shows "\<exists>n. \<forall>k\<ge>n. gate_killer_enter A fs (replicate k (undisturbed now)) now (g, m) = Some (now, g', m')"
proof -
  from poll_solo [OF assms(1)] obtain n where
    n: "\<And>k. poll (call_body A fs Inside) (replicate (n + k) (disturb (undisturbed now))) (now, \<lparr>pc = ProfMode, wait_s = now, elapsed_us = 0\<rparr>, g, m) =
      poll (call_body A fs Inside) (replicate k (disturb (undisturbed now))) (now, goto Inside l, g', m')" by blast
  have "gate_killer_enter A fs (replicate (n + k) (undisturbed now)) now (g, m) = Some (now, g', m')" for k
    using n [of k] assms(2)
    by (simp add: gate_killer_enter_def gate_call_def poll_exit call_body_def)
  then show ?thesis by (metis le_add_diff_inverse)
qed

lemma gate_step_at:
  "gate_step A fs now (goto ProfMode l, g, m) = (goto (if mode m = MODE_PROFILING A then ProfIdx else FreeMode) l, g, m)"
  "gate_step A fs now (goto FreeMode l, g, m) = (goto (if mode m = MODE_FREE A then MarkActive else SliceTest) l, g, m)"
  "gate_step A fs now (goto SliceTest l, g, m) = (goto (if timeslice_exhausted g m then SetWaiting else PeerActive 0) l, g, m)"
  "gate_step A fs now (goto SetWaiting l, g, m) = (goto (AllActive 0 FirstCall) l, g, timeslice_set_waiting A g m)"
  "gate_step A fs now (goto WaitStart l, g, m) = (goto WaitTest (l\<lparr>wait_s := now\<rparr>), g, m)"
  "gate_step A fs now (goto WaitTest l, g, m) = (goto (if gate_state (tenants m ! tenant_idx g) = GATE_WAITING A
                     then AllActive 0 SpinCall else WaitEnd) l, g, m)"
  "gate_step A fs now (goto WaitEnd l, g, m) =
     (goto (PeerActive 0) l, g, timeslice_add_wait (timespec_diff_us (wait_s l) now) g m)"
  "gate_step A fs now (goto (PeerActive i) l, g, m) = (goto (if i < tenant_count m
                     then if i = tenant_idx g \<or> \<not> is_active m i then PeerActive (Suc i) else PeerState i
                     else MarkActive) l, g, m)"
  "gate_step A fs now (goto (PeerState i) l, g, m) = (goto (if gate_state (tenants m ! i) \<noteq> GATE_KILLER_ACTIVE A
                     then PeerActive (Suc i) else PeerStart i) l, g, m)"
  "gate_step A fs now (goto (PeerSpin i) l, g, m) = (goto (if gate_state (tenants m ! i) = GATE_KILLER_ACTIVE A
                     then PeerSpin i else PeerEnd i) l, g, m)"
  "gate_step A fs now (goto MarkActive l, g, m) =
     (goto Stamp l, g, upd_tenant (tenant_idx g) (\<lambda>t. t\<lparr>gate_state := GATE_KILLER_ACTIVE A\<rparr>) m)"
  "gate_step A fs now (goto Stamp l, g, m) = (goto Inside l, g\<lparr>killer_start := now\<rparr>, m)"
  by (simp_all add: gate_step.simps)

lemma solo_wait_end:
  "reach (solo A fs now) (goto (PeerActive 0) l, g, timeslice_add_wait (timespec_diff_us (wait_s l) now) g m) z \<Longrightarrow>
   reach (solo A fs now) (goto WaitEnd l, g, m) z"
  by (rule solo_next) (simp_all only: gate_step_at fst_conv, simp)

definition peers_quiet :: "kraken_abi \<Rightarrow> nat \<Rightarrow> KrakenSharedState \<Rightarrow> bool" where
  "peers_quiet A my m = list_all (\<lambda>j. j \<noteq> my \<longrightarrow> is_active m j \<longrightarrow> gate_state (tenants m ! j) \<noteq> GATE_KILLER_ACTIVE A)
     [0..<tenant_count m]"

lemma peers_quietD:
  "peers_quiet A my m \<Longrightarrow> j < tenant_count m \<Longrightarrow> j \<noteq> my \<Longrightarrow> is_active m j \<Longrightarrow> gate_state (tenants m ! j) \<noteq> GATE_KILLER_ACTIVE A"
  by (auto simp: peers_quiet_def list_all_iff)

lemma solo_peers:
  assumes "peers_quiet A (tenant_idx g) m" and "i \<le> tenant_count m"
  shows "reach (solo A fs now) (goto (PeerActive i) l, g, m) (goto MarkActive l, g, m)"
  using assms(2)
proof (induction "tenant_count m - i" arbitrary: i)
  case 0
  then show ?case by - (rule solo_next, simp_all add: gate_step_at reach_refl)
next
  case (Suc k)
  then have i: "i < tenant_count m" by simp
  have IH: "reach (solo A fs now) (goto (PeerActive (Suc i)) l, g, m) (goto MarkActive l, g, m)"
    using Suc i by simp
  show ?case
  proof (cases "i = tenant_idx g \<or> \<not> is_active m i")
    case True
    with i IH show ?thesis by - (rule solo_next, simp_all add: gate_step_at)
  next
    case False
    with i peers_quietD [OF assms(1) i] IH show ?thesis
      by - (rule solo_next, simp, simp add: gate_step_at, rule solo_next, simp_all add: gate_step_at)
  qed
qed

lemma solo_mark:
  "reach (solo A fs now) (goto MarkActive l, g, m)
     (goto Inside l, g\<lparr>killer_start := now\<rparr>, upd_tenant (tenant_idx g) (\<lambda>t. t\<lparr>gate_state := GATE_KILLER_ACTIVE A\<rparr>) m)"
  by (rule solo_next, simp, simp add: gate_step_at, rule solo_next, simp, simp add: gate_step_at reach_refl)

lemma solo_from_peers:
  assumes "peers_quiet A (tenant_idx g) m"
  shows "reach (solo A fs now) (goto (PeerActive 0) l, g, m)
     (goto Inside l, g\<lparr>killer_start := now\<rparr>, upd_tenant (tenant_idx g) (\<lambda>t. t\<lparr>gate_state := GATE_KILLER_ACTIVE A\<rparr>) m)"
  by (rule reach_trans [OF solo_peers [OF assms] solo_mark]) simp

text \<open>The wait of an exhausted tenant that finds every other tenant waiting.\<close>

lemma solo_new_round:
  assumes "abi_ok A" and "shm_wf A m" and "g_shm g" and "tenant_idx g < tenant_count m" and "is_active m (tenant_idx g)"
    and "round_trigger_lock m = 0" and "all_waiting A (timeslice_set_waiting A g m)"
  shows "\<exists>l' g' m'. reach (solo A fs now) (goto SetWaiting l, g, m) (goto Inside l', g', m') \<and>
     gate_state (tenants m' ! tenant_idx g) = GATE_KILLER_ACTIVE A \<and> killer_start g' = now \<and>
     time_remain_us (tenants m' ! tenant_idx g) = calc_slice_us m (tenant_idx g)"
proof -
  let ?my = "tenant_idx g" and ?m1 = "timeslice_set_waiting A g m" and ?R = "reach (solo A fs now)"
  obtain g2 m2 where r: "start_new_round A fs (g, ?m1) = (g2, m2)" by fastforce
  then have rc: "round_check_and_trigger A fs (g, ?m1) = (g2, m2)"
    using assms by (simp add: round_check_and_trigger_def)
  have g2: "tenant_idx g2 = ?my" "g_shm g2"
    using r assms by (auto simp: start_new_round_def Let_def timeslice_set_waiting_def split: if_splits)
  have my: "?my < MAX_TENANTS A" and wf1: "shm_wf A ?m1" and lk: "round_trigger_lock ?m1 = 0"
    and cnt: "tenant_count ?m1 = tenant_count m" and len: "length (tenants m) = MAX_TENANTS A"
    using assms by (auto simp: shm_wf_def timeslice_set_waiting_def)
  have sl: "calc_slice_us ?m1 ?my = calc_slice_us m ?my"
    using assms len by (intro calc_slice_us_cong) (auto simp: timeslice_set_waiting_def shm_wf_def)
  note eff = start_new_round_effect [OF wf1 assms(3) my lk r]
  have cnt2: "tenant_count m2 = tenant_count m" and len2: "length (tenants m2) = MAX_TENANTS A"
    using r lk len by (auto simp: start_new_round_def Let_def timeslice_set_waiting_def split: if_splits)
  have act1: "is_active ?m1 j \<longleftrightarrow> is_active m j" if "j < MAX_TENANTS A" for j
    using that len assms(3) by (simp add: timeslice_set_waiting_def)
  have run: "gate_state (tenants m2 ! j) = GATE_RUNNING A" if "j < tenant_count m" "is_active m2 j" for j
  proof -
    have j: "j < MAX_TENANTS A" using that assms(2) by (simp add: shm_wf_def)
    show ?thesis using eff [OF j] that cnt by (auto split: if_splits)
  qed
  have mine: "gate_state (tenants m2 ! ?my) = GATE_RUNNING A" "time_remain_us (tenants m2 ! ?my) = calc_slice_us m ?my"
    using eff [OF my] assms(4,5) cnt act1 [OF my] sl by auto
  let ?m3 = "timeslice_add_wait (timespec_diff_us now now) g2 m2"
  have q: "peers_quiet A ?my ?m3"
    using run assms(1) cnt2 len2 assms(2)
    by (auto simp: peers_quiet_def list_all_iff timeslice_add_wait_def abi_ok_def shm_wf_def)
  have "?R (goto (PeerActive 0) (l\<lparr>wait_s := now\<rparr>), g2, ?m3) (goto Inside (l\<lparr>wait_s := now\<rparr>), g2\<lparr>killer_start := now\<rparr>,
      upd_tenant ?my (\<lambda>t. t\<lparr>gate_state := GATE_KILLER_ACTIVE A\<rparr>) ?m3)" (is "reach _ _ ?fin")
    using solo_from_peers [of A g2 ?m3] q g2 by simp
  then have "?R (goto WaitEnd (l\<lparr>wait_s := now\<rparr>), g2, m2) ?fin"
    by (intro solo_wait_end) simp
  then have "?R (goto WaitTest (l\<lparr>wait_s := now\<rparr>), g2, m2) ?fin"
    using mine(1) g2 assms(1) by - (rule solo_next, simp, simp add: gate_step_at abi_ok_def)
  then have "?R (goto WaitStart l, g2, m2) ?fin"
    by - (rule solo_next, simp, simp add: gate_step_at)
  then have "?R (goto (AllActive 0 FirstCall) l, g, ?m1) ?fin"
    using trigger_refines_lemma [OF assms(3), of A fs now FirstCall l ?m1] by (auto simp: rc intro: reach_trans)
  then have "?R (goto SetWaiting l, g, m) ?fin"
    by - (rule solo_next, simp, simp add: gate_step_at)
  moreover have "gate_state (tenants (snd (snd ?fin)) ! ?my) = GATE_KILLER_ACTIVE A"
    and "time_remain_us (tenants (snd (snd ?fin)) ! ?my) = calc_slice_us m ?my"
    using mine(2) len2 my g2 by (auto simp: timeslice_add_wait_def)
  ultimately show ?thesis by (intro exI [of _ "l\<lparr>wait_s := now\<rparr>"] exI [of _ "g2\<lparr>killer_start := now\<rparr>"] exI conjI) auto
qed

lemma solo_enter:
  assumes "abi_ok A" and "shm_wf A m" and "g_shm g" and "tenant_idx g < tenant_count m" and "is_active m (tenant_idx g)"
    and "mode m \<noteq> MODE_PROFILING A" and "round_trigger_lock m = 0"
    and "mode m = MODE_FREE A \<or> (if timeslice_exhausted g m then all_waiting A (timeslice_set_waiting A g m)
           else peers_quiet A (tenant_idx g) m)"
  shows "\<exists>l' g' m'. reach (solo A fs now) (goto ProfMode l, g, m) (goto Inside l', g', m') \<and>
     gate_state (tenants m' ! tenant_idx g) = GATE_KILLER_ACTIVE A \<and> killer_start g' = now \<and>
     (mode m \<noteq> MODE_FREE A \<longrightarrow> timeslice_exhausted g m \<longrightarrow>
        time_remain_us (tenants m' ! tenant_idx g) = calc_slice_us m (tenant_idx g))"
proof -
  let ?R = "reach (solo A fs now)"
  let ?m' = "upd_tenant (tenant_idx g) (\<lambda>t. t\<lparr>gate_state := GATE_KILLER_ACTIVE A\<rparr>) m"
  have my: "tenant_idx g < length (tenants m)" using assms(2,4) by (simp add: shm_wf_def)
  have start: "?R (goto ProfMode l, g, m) y" if "?R (goto FreeMode l, g, m) y" for y
    using that assms(6) by - (rule solo_next, simp, simp add: gate_step_at)
  consider (free) "mode m = MODE_FREE A" | (round) "mode m \<noteq> MODE_FREE A" "timeslice_exhausted g m" |
    (time) "mode m \<noteq> MODE_FREE A" "\<not> timeslice_exhausted g m" by blast
  then show ?thesis
  proof cases
    case free
    then have "?R (goto FreeMode l, g, m) (goto Inside l, g\<lparr>killer_start := now\<rparr>, ?m')"
      using solo_mark [of A fs now l g m] by - (rule solo_next, simp_all add: gate_step_at)
    then show ?thesis using start free my
      by (intro exI [of _ l] exI [of _ "g\<lparr>killer_start := now\<rparr>"] exI [of _ ?m']) simp
  next
    case round
    then have "all_waiting A (timeslice_set_waiting A g m)" using assms(8) by simp
    then obtain l' g' m' where r: "?R (goto SetWaiting l, g, m) (goto Inside l', g', m')"
      "gate_state (tenants m' ! tenant_idx g) = GATE_KILLER_ACTIVE A" "killer_start g' = now"
      "time_remain_us (tenants m' ! tenant_idx g) = calc_slice_us m (tenant_idx g)"
      using solo_new_round [OF assms(1-5,7), of fs now l] by blast
    have "?R (goto FreeMode l, g, m) (goto Inside l', g', m')"
      using r(1) round by - (rule solo_next, simp, simp add: gate_step_at, rule solo_next, simp_all add: gate_step_at)
    then show ?thesis using start r by blast
  next
    case time
    then have "peers_quiet A (tenant_idx g) m" using assms(8) by simp
    then have "?R (goto FreeMode l, g, m) (goto Inside l, g\<lparr>killer_start := now\<rparr>, ?m')"
      using time solo_from_peers [of A g m fs now l]
      by - (rule solo_next, simp, simp add: gate_step_at, rule solo_next, simp_all add: gate_step_at)
    then show ?thesis using start time my
      by (intro exI [of _ l] exI [of _ "g\<lparr>killer_start := now\<rparr>"] exI [of _ ?m']) simp
  qed
qed

text \<open>
  C3. The gate opens for a tenant that nobody holds back. Outside profiling, a registered
  tenant enters when no active peer is inside a killer and either it has time left or every
  other active tenant is waiting too, in which case it starts the new round itself and is
  recharged: the call returns after finitely many steps, marked as killer and with its clock
  started. In the free mode it enters unconditionally.
\<close>

theorem enter_uncontended_returns:
  assumes "abi_ok A" and "shm_wf A m" and "g_shm g" and "tenant_idx g < tenant_count m" and "is_active m (tenant_idx g)"
    and "mode m \<noteq> MODE_PROFILING A" and "round_trigger_lock m = 0"
    and "mode m = MODE_FREE A \<or> (if timeslice_exhausted g m then all_waiting A (timeslice_set_waiting A g m)
           else peers_quiet A (tenant_idx g) m)"
  shows "\<exists>n g' m'. (\<forall>k\<ge>n. gate_killer_enter A fs (replicate k (undisturbed now)) now (g, m) = Some (now, g', m')) \<and>
     gate_state (tenants m' ! tenant_idx g) = GATE_KILLER_ACTIVE A \<and> killer_start g' = now \<and>
     (mode m \<noteq> MODE_FREE A \<longrightarrow> timeslice_exhausted g m \<longrightarrow>
        time_remain_us (tenants m' ! tenant_idx g) = calc_slice_us m (tenant_idx g))"
proof -
  obtain l' g' m' where *: "reach (solo A fs now) (goto ProfMode \<lparr>pc = ProfMode, wait_s = now, elapsed_us = 0\<rparr>, g, m) (goto Inside l', g', m')"
    "gate_state (tenants m' ! tenant_idx g) = GATE_KILLER_ACTIVE A" "killer_start g' = now"
    "mode m \<noteq> MODE_FREE A \<longrightarrow> timeslice_exhausted g m \<longrightarrow> time_remain_us (tenants m' ! tenant_idx g) = calc_slice_us m (tenant_idx g)"
    using solo_enter [OF assms] by blast
  obtain n where "\<forall>k\<ge>n. gate_killer_enter A fs (replicate k (undisturbed now)) now (g, m) = Some (now, g', m')"
    using enter_of_solo [of A fs now g m l' g' m'] *(1) assms(3) by auto
  with * show ?thesis by blast
qed

section \<open>What every step keeps\<close>

lemma trigger_step_frame:
  "trigger_step A fs p (g, m) = (p', g', m') \<Longrightarrow>
     mode m' = mode m \<and> tenant_count m' = tenant_count m \<and> length (tenants m') = length (tenants m) \<and>
     weights m' = weights m \<and> alloc m' = alloc m \<and> g_shm g' = g_shm g \<and> tenant_idx g' = tenant_idx g"
  by (cases p) (auto split: if_splits simp: store_round_id_def)

lemma gate_step_frame:
  assumes "gate_step A fs now (l, g, m) = (l', g', m')"
  shows "mode m' = mode m \<and> tenant_count m' = tenant_count m \<and> length (tenants m') = length (tenants m) \<and>
     weights m' = weights m \<and> alloc m' = alloc m \<and> g_shm g' = g_shm g \<and> tenant_idx g' = tenant_idx g"
proof (cases "pc l")
qed (use assms in \<open>auto simp: gate_step.simps timeslice_set_waiting_def timeslice_add_wait_def timeslice_deduct_def
       split: prod.splits dest: trigger_step_frame simp del: trigger_step.simps\<close>)

section \<open>Exclusive entry when peers do not rush in\<close>

text \<open>
  The rely condition on the other processes: nobody becomes an active killer, nobody else
  writes the gate state of this tenant except to wake it, the table keeps its size and the
  mode is not switched to free.
\<close>

definition calm :: "kraken_abi \<Rightarrow> nat \<Rightarrow> (KrakenSharedState \<Rightarrow> KrakenSharedState) \<Rightarrow> bool" where
  "calm A my f \<longleftrightarrow> (\<forall>m. tenant_count (f m) = tenant_count m \<and> length (tenants (f m)) = length (tenants m) \<and>
     (mode m \<noteq> MODE_FREE A \<longrightarrow> mode (f m) \<noteq> MODE_FREE A) \<and>
     (gate_state (tenants m ! my) \<noteq> GATE_WAITING A \<longrightarrow> gate_state (tenants (f m) ! my) = gate_state (tenants m ! my)) \<and>
     (\<forall>j. j \<noteq> my \<longrightarrow> is_active (f m) j \<longrightarrow> gate_state (tenants (f m) ! j) = GATE_KILLER_ACTIVE A \<longrightarrow>
        is_active m j \<and> gate_state (tenants m ! j) = GATE_KILLER_ACTIVE A))"

definition quiet_upto :: "kraken_abi \<Rightarrow> nat \<Rightarrow> nat \<Rightarrow> KrakenSharedState \<Rightarrow> bool" where
  "quiet_upto A my i m \<longleftrightarrow> (\<forall>j < i. j \<noteq> my \<longrightarrow> is_active m j \<longrightarrow> gate_state (tenants m ! j) \<noteq> GATE_KILLER_ACTIVE A)"

fun peers_seen :: "kraken_abi \<Rightarrow> nat \<Rightarrow> gate_pc \<Rightarrow> KrakenSharedState \<Rightarrow> bool" where
  "peers_seen A my (PeerActive i) m = quiet_upto A my i m"
| "peers_seen A my (PeerState i) m = quiet_upto A my i m"
| "peers_seen A my (PeerStart i) m = quiet_upto A my i m"
| "peers_seen A my (PeerSpin i) m = quiet_upto A my i m"
| "peers_seen A my (PeerEnd i) m = quiet_upto A my (Suc i) m"
| "peers_seen A my MarkActive m = quiet_upto A my (tenant_count m) m"
| "peers_seen A my Stamp m = (quiet_upto A my (tenant_count m) m \<and> gate_state (tenants m ! my) = GATE_KILLER_ACTIVE A)"
| "peers_seen A my Inside m = (quiet_upto A my (tenant_count m) m \<and> gate_state (tenants m ! my) = GATE_KILLER_ACTIVE A)"
| "peers_seen A my _ m = True"

definition entering :: "kraken_abi \<Rightarrow> nat \<Rightarrow> 'a gate_conf \<Rightarrow> bool" where
  "entering A my = (\<lambda>(now, l, g, m). mode m \<noteq> MODE_FREE A \<and> g_shm g \<and> tenant_idx g = my \<and> my < length (tenants m) \<and>
     tenant_count m \<le> length (tenants m) \<and> pc l \<notin> {Outside, ExitClock, Deduct, CountKiller, Release} \<and> peers_seen A my (pc l) m)"

lemma quiet_upto_0 [simp]: "quiet_upto A my 0 m"
  by (simp add: quiet_upto_def)

lemma quiet_upto_Suc: "quiet_upto A my (Suc i) m \<longleftrightarrow> quiet_upto A my i m \<and>
    (i \<noteq> my \<longrightarrow> is_active m i \<longrightarrow> gate_state (tenants m ! i) \<noteq> GATE_KILLER_ACTIVE A)"
  by (auto simp: quiet_upto_def less_Suc_eq)

lemma quiet_upto_mono: "quiet_upto A my i m \<Longrightarrow> j \<le> i \<Longrightarrow> quiet_upto A my j m"
  by (auto simp: quiet_upto_def)

lemma quiet_upto_own:
  assumes "i \<le> length (tenants m)" and "\<And>t. active (f t) = active t"
  shows "quiet_upto A my i (upd_tenant my f m) = quiet_upto A my i m"
  using assms by (auto simp: quiet_upto_def)

lemma calm_quiet: "calm A my f \<Longrightarrow> quiet_upto A my i m \<Longrightarrow> quiet_upto A my i (f m)"
  unfolding calm_def quiet_upto_def by blast

lemma calm_seen:
  assumes "calm A my f" and "abi_ok A" and "peers_seen A my p m"
  shows "peers_seen A my p (f m)"
proof -
  have c: "tenant_count (f m) = tenant_count m"
    and k: "gate_state (tenants m ! my) = GATE_KILLER_ACTIVE A \<Longrightarrow> gate_state (tenants (f m) ! my) = GATE_KILLER_ACTIVE A"
    using assms(1,2) by (auto simp: calm_def abi_ok_def)
  show ?thesis using assms(3) calm_quiet [OF assms(1)] c k by (cases p) auto
qed

lemma quiet_upto_wait:
  assumes "tenant_count m \<le> length (tenants m)" and "quiet_upto A (tenant_idx g) i m"
  shows "quiet_upto A (tenant_idx g) i (timeslice_add_wait w g m)"
proof -
  have "is_active (timeslice_add_wait w g m) j = is_active m j \<and>
     gate_state (tenants (timeslice_add_wait w g m) ! j) = gate_state (tenants m ! j)" if "j \<noteq> tenant_idx g" for j
    using that by (simp add: timeslice_add_wait_def upd_tenant_def)
  then show ?thesis using assms(2) by (simp add: quiet_upto_def)
qed

lemma entering_step:
  assumes "entering A my (now, l, g, m)" and "pc l \<noteq> Inside"
  shows "entering A my (now, gate_step A fs now (l, g, m))"
proof -
  obtain l' g' m' where s: "gate_step A fs now (l, g, m) = (l', g', m')" by (cases "gate_step A fs now (l, g, m)")
  have "pc l' \<notin> {Outside, ExitClock, Deduct, CountKiller, Release} \<and> peers_seen A my (pc l') m'"
  proof (cases "pc l")
    case (AllActive i c)
    with s show ?thesis by (cases c) (auto simp: gate_step.simps split: if_splits)
  next
    case (AllState i c)
    with s show ?thesis by (cases c) (auto simp: gate_step.simps split: if_splits)
  next
    case (TryLock c)
    with s show ?thesis by (cases c) (auto simp: gate_step.simps split: if_splits)
  next
    case (Unlock c)
    with s show ?thesis by (cases c) (auto simp: gate_step.simps split: if_splits)
  next
    case (PeerActive i)
    with s assms quiet_upto_mono [of A my i m "tenant_count m"] show ?thesis
      by (auto simp: gate_step.simps entering_def quiet_upto_Suc split: if_splits)
  next
    case MarkActive
    with s assms show ?thesis by (auto simp: gate_step.simps entering_def quiet_upto_own)
  next
    case (PeerEnd i)
    with s assms show ?thesis by (auto simp: gate_step.simps entering_def quiet_upto_wait)
  qed (use s assms in \<open>auto simp: gate_step.simps entering_def quiet_upto_Suc split: if_splits\<close>)
  with assms s gate_step_frame [OF s] show ?thesis by (simp add: entering_def)
qed

lemma entering_disturb:
  assumes "entering A my x" and "calm A my (snd e)" and "abi_ok A"
  shows "entering A my (disturb e x)"
  using assms calm_seen [OF assms(2,3)] unfolding entering_def disturb_def
  by (auto simp: calm_def)

text \<open>
  C2. Exclusive entry: whenever \<open>gate_killer_enter\<close> returns outside the free mode, then no
  active peer is inside a killer and the tenant is marked, provided that during the call the
  other processes only leave their killers and do not start one. (Without that proviso the
  check and the mark are separate accesses and the property fails, see
  \<open>gate_admits_two_killers\<close>.)
\<close>

theorem enter_exclusive_if_calm:
  fixes g :: "'a KrakenRuntime_scheme"
  assumes "gate_killer_enter A fs es now (g, m) = Some (now', g', m')"
    and "abi_ok A" and "g_shm g" and "mode m \<noteq> MODE_FREE A" and "\<forall>e \<in> set es. calm A (tenant_idx g) (snd e)"
    and "tenant_idx g < length (tenants m)" and "tenant_count m \<le> length (tenants m)"
  shows "peers_quiet A (tenant_idx g) m' \<and> gate_state (tenants m' ! tenant_idx g) = GATE_KILLER_ACTIVE A"
proof -
  let ?s = "(now, \<lparr>pc = ProfMode, wait_s = now, elapsed_us = 0\<rparr>, g, m)"
  obtain l' rest where p: "poll (call_body A fs Inside) (map disturb es) ?s = Some ((now', l', g', m'), rest)"
    using assms(1,3) by (auto simp: gate_killer_enter_def gate_call_def)
  have "\<exists>t. entering A (tenant_idx g) t \<and> call_body A fs Inside t = Inr (now', l', g', m')"
  proof (rule poll_result [OF p, where I = "entering A (tenant_idx g)"])
    show "entering A (tenant_idx g) ?s" using assms by (simp add: entering_def)
  next
    fix s s' :: "'a gate_conf" and e :: "'a gate_conf \<Rightarrow> 'a gate_conf"
    assume "entering A (tenant_idx g) s" and "call_body A fs Inside s = Inl s'" and "e \<in> set (map disturb es)"
    then show "entering A (tenant_idx g) (e s')" using assms(2,5)
      by (cases s) (auto simp: call_body_def split: if_splits intro!: entering_disturb entering_step)
  qed
  then show ?thesis
    by (auto simp: call_body_def entering_def peers_quiet_def quiet_upto_def list_all_iff split: if_splits)
qed

section \<open>Leaving the gate\<close>

definition keeps_slot :: "nat \<Rightarrow> (KrakenSharedState \<Rightarrow> KrakenSharedState) \<Rightarrow> bool" where
  "keeps_slot my f \<longleftrightarrow> (\<forall>m. length (tenants (f m)) = length (tenants m) \<and> tenants (f m) ! my = tenants m ! my)"

lemma poll_call_Cons:
  "pc l \<noteq> fin \<Longrightarrow> gate_step A fs now (l, g, m) = (l', g', m') \<Longrightarrow>
   poll (call_body A fs fin) (map disturb (e # es)) (now, l, g, m) =
   poll (call_body A fs fin) (map disturb es) (fst e, l', g', snd e m')"
  by (simp add: poll_Cons [of _ _ "(now, l', g', m')"] call_body_def disturb_def)

lemma poll_call_exit: "pc l = fin \<Longrightarrow> poll (call_body A fs fin) ds (now, l, g, m) = Some ((now, l, g, m), ds)"
  by (simp add: poll_exit call_body_def)

lemma exit_charges_and_releases_lemma:
  assumes "g_shm g" and "4 \<le> length es"
  shows "\<exists>now' m'. gate_killer_exit A fs es now (g, m) = Some (now', g, m') \<and>
    (tenant_idx g < length (tenants m) \<and> (\<forall>e \<in> set es. keeps_slot (tenant_idx g) (snd e)) \<longrightarrow>
     tenants m' ! tenant_idx g =
       (let t = tenants m ! tenant_idx g; d = timespec_diff_us (killer_start g) now in
        t\<lparr>time_remain_us := wrap64 (time_remain_us t - d), total_exec_us := wrap64 (total_exec_us t + d),
          killer_count := killer_count t + 1, gate_state := GATE_RUNNING A\<rparr>))"
proof -
  obtain e1 e2 e3 e4 es' where es: "es = e1 # e2 # e3 # e4 # es'"
    using assms(2) by (auto simp: Suc_le_length_iff numeral_eq_Suc)
  let ?my = "tenant_idx g" and ?d = "timespec_diff_us (killer_start g) now"
  let ?m1 = "snd e1 m" let ?m2 = "snd e2 (timeslice_deduct ?d g ?m1)"
  let ?m3 = "snd e3 (upd_tenant ?my (\<lambda>t. t\<lparr>killer_count := killer_count t + 1\<rparr>) ?m2)"
  let ?m4 = "snd e4 (upd_tenant ?my (\<lambda>t. t\<lparr>gate_state := GATE_RUNNING A\<rparr>) ?m3)"
  have "gate_killer_exit A fs es now (g, m) = Some (fst e4, g, ?m4)"
    using assms(1) by (simp add: es gate_killer_exit_def gate_call_def poll_call_Cons poll_call_exit gate_step.simps del: list.map)
  moreover have "tenants ?m4 ! ?my =
       (let t = tenants m ! ?my in
        t\<lparr>time_remain_us := wrap64 (time_remain_us t - ?d), total_exec_us := wrap64 (total_exec_us t + ?d),
          killer_count := killer_count t + 1, gate_state := GATE_RUNNING A\<rparr>)"
    if "?my < length (tenants m)" "\<forall>e \<in> set es. keeps_slot ?my (snd e)"
    using that assms(1) by (simp add: es keeps_slot_def timeslice_deduct_def Let_def)
  ultimately show ?thesis by (intro exI [of _ "fst e4"] exI [of _ ?m4]) (simp add: Let_def)
qed

text \<open>
  C39. \<open>gate_killer_exit\<close> never waits: it returns after four accesses whatever the other
  processes do. When they leave the tenant's slot alone it charges exactly the time since
  \<open>killer_start\<close> to the slice and to the execution total, counts one killer and opens the
  gate.
\<close>

theorem exit_charges_and_releases:
  assumes "g_shm g" and "4 \<le> length es"
  shows "\<exists>now' m'. gate_killer_exit A fs es now (g, m) = Some (now', g, m') \<and>
    (tenant_idx g < length (tenants m) \<and> (\<forall>e \<in> set es. keeps_slot (tenant_idx g) (snd e)) \<longrightarrow>
     tenants m' ! tenant_idx g =
       (let t = tenants m ! tenant_idx g; d = timespec_diff_us (killer_start g) now in
        t\<lparr>time_remain_us := wrap64 (time_remain_us t - d), total_exec_us := wrap64 (total_exec_us t + d),
          killer_count := killer_count t + 1, gate_state := GATE_RUNNING A\<rparr>))"
  by (rule exit_charges_and_releases_lemma [OF assms])

section \<open>The mark and the clock of the killer\<close>

definition approaching :: "gate_pc \<Rightarrow> bool" where
  "approaching p \<longleftrightarrow> p \<notin> {Outside, Stamp, Inside, ExitClock, Deduct, CountKiller, Release}"

lemma approaching_step:
  assumes "gate_step A fs now (l, g, m) = (l', g', m')" and "approaching (pc l)" and "pc l \<noteq> MarkActive"
  shows "approaching (pc l')"
proof (cases "pc l")
qed (use assms in \<open>auto simp: gate_step.simps approaching_def split: if_splits elim!: after_trigger.elims\<close>)

text \<open>
  A call that returns stored the mark, read the clock next, and took what it read as the start of
  the killer: the last two interferences of the call lie between the mark and the clock, and
  between the clock and the return.
\<close>

lemma disturb_conf: "disturb e (now, l, g, m) = (fst e, l, g, snd e m)"
  by (simp add: disturb_def)

lemma enter_stamps_after_mark:
  fixes g :: "'a KrakenRuntime_scheme"
  assumes "poll (call_body A fs Inside) (map disturb es) (now, l, g, m) = Some ((now', l', g', m'), rest)" and "approaching (pc l)"
  shows "\<exists>us c f e vs m0. es = us @ (c, f) # e # vs \<and> now' = fst e \<and> killer_start g' = c \<and>
    m' = snd e (f (upd_tenant (tenant_idx g) (\<lambda>t. t\<lparr>gate_state := GATE_KILLER_ACTIVE A\<rparr>) m0))"
  using assms
proof (induction es arbitrary: now l g m)
  case Nil
  then show ?case by (auto simp: call_body_def approaching_def poll.simps split: if_splits)
next
  case (Cons e es)
  obtain l1 g1 m1 where s: "gate_step A fs now (l, g, m) = (l1, g1, m1)" by (cases "gate_step A fs now (l, g, m)")
  have b: "call_body A fs Inside (now, l, g, m) = Inl (now, l1, g1, m1)" using Cons.prems(2) s by (auto simp: call_body_def approaching_def)
  have p: "poll (call_body A fs Inside) (map disturb es) (fst e, l1, g1, snd e m1) = Some ((now', l', g', m'), rest)"
    using Cons.prems(1) b by (simp add: poll_Cons disturb_conf del: map_map)
  show ?case
  proof (cases "pc l = MarkActive")
    case False
    have "tenant_idx g1 = tenant_idx g" using gate_step_frame [OF s] by simp
    with Cons.IH [OF p approaching_step [OF s Cons.prems(2) False]] show ?thesis by (metis append_Cons)
  next
    case True
    let ?mark = "upd_tenant (tenant_idx g) (\<lambda>t. t\<lparr>gate_state := GATE_KILLER_ACTIVE A\<rparr>) m"
    have 1: "l1 = goto Stamp l" "g1 = g" "m1 = ?mark" using s True by (auto simp: gate_step.simps)
    then have b2: "call_body A fs Inside (fst e, l1, g1, snd e m1) = Inl (fst e, goto Inside l, g\<lparr>killer_start := fst e\<rparr>, snd e ?mark)"
      by (simp add: call_body_def gate_step.simps)
    with p obtain e2 vs where es: "es = e2 # vs" by (cases es) (auto simp: poll_Nil)
    have "(now', l', g', m') = (fst e2, goto Inside l, g\<lparr>killer_start := fst e\<rparr>, snd e2 (snd e ?mark))"
      using p b2 unfolding es by (simp add: poll_Cons disturb_conf poll_exit call_body_def)
    then have "e # es = [] @ (fst e, snd e) # e2 # vs \<and> now' = fst e2 \<and> killer_start g' = fst e \<and> m' = snd e2 (snd e ?mark)"
      by (simp add: es)
    then show ?thesis by blast
  qed
qed

section \<open>Instances\<close>

definition idle :: gate_local where
  "idle = \<lparr>pc = Outside, wait_s = \<lparr>tv_sec = 0, tv_nsec = 0\<rparr>, elapsed_us = 0\<rparr>"

theorem trigger_refines_round_manager_witness:
  "reach (solo sample_abi Map.empty (killer_start g_kraken_zero)) (goto (AllActive 0 SpinCall) idle, sample_runtime 0,
      sample_shm (sample_tenant 1 0) (sample_tenant 1 0))
     (goto WaitTest idle, round_check_and_trigger sample_abi Map.empty (sample_runtime 0, sample_shm (sample_tenant 1 0) (sample_tenant 1 0)))"
  using trigger_refines_round_manager [of "sample_runtime 0" sample_abi Map.empty "killer_start g_kraken_zero" SpinCall idle
      "sample_shm (sample_tenant 1 0) (sample_tenant 1 0)"]
  by (simp add: sample_runtime_def)

theorem enter_uncontended_returns_witness:
  "\<exists>n g' m'. (\<forall>k\<ge>n. gate_killer_enter sample_abi Map.empty (replicate k (undisturbed (killer_start g_kraken_zero)))
       (killer_start g_kraken_zero) (sample_runtime 0, sample_shm (sample_tenant 0 0) (sample_tenant 1 0)) =
         Some (killer_start g_kraken_zero, g', m')) \<and>
     gate_state (tenants m' ! 0) = 2 \<and>
     time_remain_us (tenants m' ! 0) = calc_slice_us (sample_shm (sample_tenant 0 0) (sample_tenant 1 0)) 0"
  using enter_uncontended_returns [of sample_abi "sample_shm (sample_tenant 0 0) (sample_tenant 1 0)" "sample_runtime 0"
      Map.empty "killer_start g_kraken_zero"]
  by (simp add: abi_ok_def shm_wf_def timeslice_exhausted_def timeslice_set_waiting_def all_waiting_def upd_tenant_def
      upt_rec numeral_2_eq_2 sample_defs) fast

theorem enter_exclusive_if_calm_witness:
  "\<exists>now' g' m'. gate_killer_enter sample_abi Map.empty (replicate 10 (undisturbed (killer_start g_kraken_zero)))
       (killer_start g_kraken_zero) (sample_runtime 0, sample_shm (sample_tenant 0 5) (sample_tenant 0 5)) = Some (now', g', m') \<and>
     peers_quiet sample_abi 0 m' \<and> gate_state (tenants m' ! 0) = 2"
proof -
  let ?t = "killer_start g_kraken_zero" and ?m = "sample_shm (sample_tenant 0 5) (sample_tenant 0 5)"
  have "gate_killer_enter sample_abi Map.empty (replicate 10 (undisturbed ?t)) ?t (sample_runtime 0, ?m) \<noteq> None"
    by code_simp
  then obtain now' g' m' where "gate_killer_enter sample_abi Map.empty (replicate 10 (undisturbed ?t)) ?t (sample_runtime 0, ?m) = Some (now', g', m')"
    by auto
  then show ?thesis
    using enter_exclusive_if_calm [of sample_abi Map.empty "replicate 10 (undisturbed ?t)" ?t "sample_runtime 0" ?m now' g' m']
    by (simp add: abi_ok_def calm_def undisturbed_def sample_defs)
qed

theorem exit_charges_and_releases_witness:
  "\<exists>now' m'. gate_killer_exit sample_abi Map.empty (replicate 4 (undisturbed \<lparr>tv_sec = 1, tv_nsec = 0\<rparr>)) \<lparr>tv_sec = 1, tv_nsec = 0\<rparr>
      (sample_runtime 0, sample_shm (sample_tenant 2 5) (sample_tenant 0 5)) = Some (now', sample_runtime 0, m') \<and>
     time_remain_us (tenants m' ! 0) = 5 - 1000000 \<and> gate_state (tenants m' ! 0) = 0"
  using exit_charges_and_releases [of "sample_runtime 0" "replicate 4 (undisturbed \<lparr>tv_sec = 1, tv_nsec = 0\<rparr>)"
      sample_abi Map.empty "\<lparr>tv_sec = 1, tv_nsec = 0\<rparr>" "sample_shm (sample_tenant 2 5) (sample_tenant 0 5)"]
  by (auto simp: keeps_slot_def undisturbed_def sample_defs timespec_diff_us_def c_div_def wrap64_def Let_def)

end
