(* ===== verification/ShmClient.thy ===== *)
theory ShmClient
  imports RoundManager
begin

text \<open>
  \<open>shm/shm_client.cpp\<close> and the constructor and destructor of \<open>hooks/cuda_hooks.cpp\<close>:
  attaching a process to its segment, the search for its slot, the allocation that the
  device plugin passes through the environment, and the removal at exit. \<open>getenv\<close> is the
  process environment, \<open>segs\<close> the POSIX shared memory objects by path and \<open>shm_path_fmt\<close> the
  path format \<open>SHM_PATH_FMT\<close> of the header that is not in the repository.
\<close>

section \<open>Model\<close>

definition ENV_VIRTUAL_SM :: string where "ENV_VIRTUAL_SM = ''KRAKEN_VIRTUAL_SM''"
definition ENV_VIRTUAL_MEM_MB :: string where "ENV_VIRTUAL_MEM_MB = ''KRAKEN_VIRTUAL_MEM_MB''"
definition ENV_TENANT_ID :: string where "ENV_TENANT_ID = ''KRAKEN_TENANT''"
definition ENV_GROUP_ID :: string where "ENV_GROUP_ID = ''KRAKEN_GROUP''"
definition ENV_POLICY_PATH :: string where "ENV_POLICY_PATH = ''KRAKEN_KILLER_POLICY''"

text \<open>The slot that already carries the tenant's name, otherwise the first that is inactive and unnamed.\<close>

definition find_slot :: "kraken_abi \<Rightarrow> string \<Rightarrow> KrakenSharedState \<Rightarrow> nat option" where
  "find_slot A tid m =
     (case first_index (\<lambda>i. slot_tenant_id (alloc m ! i) = tid) [0..<MAX_TENANTS A] of
        Some i \<Rightarrow> Some i
      | None \<Rightarrow> first_index (\<lambda>i. \<not> is_active m i \<and> slot_tenant_id (alloc m ! i) = []) [0..<MAX_TENANTS A])"

definition env_mps_pct :: "int \<Rightarrow> int \<Rightarrow> int" where
  "env_mps_pct vsm phys = (if phys > 0 then c_div (wrap32 (vsm * 100)) phys else 100)"

definition fill_from_env :: "(string \<Rightarrow> string option) \<Rightarrow> nat \<Rightarrow> KrakenSharedState \<Rightarrow> KrakenSharedState" where
  "fill_from_env getenv idx m =
     (if virtual_sm (alloc m ! idx) \<noteq> 0 then m
      else case (getenv ENV_VIRTUAL_SM, getenv ENV_VIRTUAL_MEM_MB) of
        (Some env_sm, Some env_mem) \<Rightarrow>
          let vsm = atoi env_sm; vmem = atoi env_mem in
          if vsm > 0 \<and> vmem > 0
          then let m1 = upd_alloc idx (\<lambda>a. a\<lparr>virtual_sm := vsm, virtual_mem_mb := vmem,
                          mps_pct := env_mps_pct vsm (physical_sm_total m)\<rparr>) m
               in m1\<lparr>virtual_sm_total := wrap32 (virtual_sm_total m1 + vsm),
                     virtual_mem_total_mb := wrap32 (virtual_mem_total_mb m1 + vmem)\<rparr>
          else m
      | _ \<Rightarrow> m)"

text \<open>From the slot search to the registration, on a mapped segment.\<close>

definition register_tenant :: "kraken_abi \<Rightarrow> (string \<Rightarrow> string option) \<Rightarrow>
    'a KrakenRuntime_scheme \<times> KrakenSharedState \<Rightarrow> 'a KrakenRuntime_scheme \<times> KrakenSharedState" where
  "register_tenant A getenv = (\<lambda>(g, m). case find_slot A (tenant_id g) m of
      None \<Rightarrow> (g, m)
    | Some idx \<Rightarrow>
        let m1 = upd_alloc idx (\<lambda>a. a\<lparr>slot_tenant_id := strncpy_buf (TENANT_ID_SIZE A) (tenant_id g)\<rparr>) m;
            m2 = fill_from_env getenv idx m1
        in (g\<lparr>g_shm := True, tenant_idx := idx\<rparr>, upd_tenant idx (\<lambda>t. t\<lparr>active := 1\<rparr>) m2))"

definition shm_path :: "(string \<Rightarrow> string) \<Rightarrow> string \<Rightarrow> string" where
  "shm_path shm_path_fmt grp = take 127 (shm_path_fmt grp)"

definition kraken_shm_open :: "kraken_abi \<Rightarrow> (string \<Rightarrow> string) \<Rightarrow> (string \<Rightarrow> string option) \<Rightarrow> bool \<Rightarrow> string \<Rightarrow>
    'a KrakenRuntime_scheme \<times> (string \<Rightarrow> KrakenSharedState option) \<Rightarrow>
    'a KrakenRuntime_scheme \<times> (string \<Rightarrow> KrakenSharedState option)" where
  "kraken_shm_open A fmt getenv mmap_ok grp = (\<lambda>(g, segs).
     let path = shm_path fmt grp in
     case segs path of
       None \<Rightarrow> (g, segs)
     | Some m \<Rightarrow>
         if \<not> mmap_ok \<or> magic m \<noteq> SHM_MAGIC A then (g, segs)
         else case register_tenant A getenv (g, m) of (g', m') \<Rightarrow> (g', segs(path \<mapsto> m')))"

definition kraken_shm_close :: "'a KrakenRuntime_scheme \<Rightarrow> 'a KrakenRuntime_scheme" where
  "kraken_shm_close g = (if \<not> g_shm g then g else g\<lparr>g_shm := False\<rparr>)"

definition init_policy :: "(string \<Rightarrow> string option) \<Rightarrow> (string \<Rightarrow> string option) \<Rightarrow> 'a KrakenRuntime_scheme \<Rightarrow>
    'a KrakenRuntime_scheme" where
  "init_policy fs getenv g = (case getenv ENV_POLICY_PATH of
      Some path \<Rightarrow> load_killer_policy fs path (g\<lparr>policy_path := strncpy_buf 256 path\<rparr>)
    | None \<Rightarrow> g\<lparr>policy := install_patterns 0 default_patterns (policy g)\<rparr>)"

definition kraken_init :: "kraken_abi \<Rightarrow> (string \<Rightarrow> string) \<Rightarrow> (string \<Rightarrow> string option) \<Rightarrow> (string \<Rightarrow> string option) \<Rightarrow> bool \<Rightarrow>
    'a KrakenRuntime_scheme \<times> (string \<Rightarrow> KrakenSharedState option) \<Rightarrow>
    'a KrakenRuntime_scheme \<times> (string \<Rightarrow> KrakenSharedState option)" where
  "kraken_init A fmt fs getenv mmap_ok = (\<lambda>(g, segs).
     case getenv ENV_TENANT_ID of
       None \<Rightarrow> (g, segs)
     | Some tid \<Rightarrow>
         let grp = (case getenv ENV_GROUP_ID of Some s \<Rightarrow> s | None \<Rightarrow> DEFAULT_GROUP_ID);
             g1 = g\<lparr>tenant_id := strncpy_buf 16 tid, group_id := strncpy_buf 64 grp\<rparr>;
             (g2, segs2) = kraken_shm_open A fmt getenv mmap_ok (group_id g1) (g1, segs)
         in if \<not> g_shm g2 then (g2, segs2)
            else let g3 = init_policy fs getenv g2;
                     ver = (case segs2 (shm_path fmt (group_id g1)) of Some m \<Rightarrow> killer_policy_version m
                            | None \<Rightarrow> loaded_killer_version g3)
                 in (g3\<lparr>loaded_killer_version := ver, initialized := True\<rparr>, segs2))"

definition kraken_fini :: "'a KrakenRuntime_scheme \<times> KrakenSharedState \<Rightarrow> 'a KrakenRuntime_scheme \<times> KrakenSharedState" where
  "kraken_fini = (\<lambda>(g, m).
     if g_shm g \<and> initialized g
     then (kraken_shm_close g, upd_tenant (tenant_idx g) (\<lambda>t. t\<lparr>active := 0\<rparr>) m)
     else (g, m))"

section \<open>The slot search\<close>

lemma first_index_upt: "first_index P [0..<n] = Some i \<longleftrightarrow> i < n \<and> P i \<and> (\<forall>j < i. \<not> P j)"
proof
  assume "first_index P [0..<n] = Some i"
  from first_index_SomeD [OF this] show "i < n \<and> P i \<and> (\<forall>j < i. \<not> P j)" by auto
next
  assume "i < n \<and> P i \<and> (\<forall>j < i. \<not> P j)"
  then show "first_index P [0..<n] = Some i" by (intro first_index_SomeI) auto
qed

lemma first_index_upt_None: "first_index P [0..<n] = None \<longleftrightarrow> (\<forall>i < n. \<not> P i)"
  by (auto simp: first_index_None_iff)

lemma find_slot_Some:
  assumes "find_slot A tid m = Some i"
  shows "i < MAX_TENANTS A"
    and "slot_tenant_id (alloc m ! i) = tid \<or>
      (\<forall>j < MAX_TENANTS A. slot_tenant_id (alloc m ! j) \<noteq> tid) \<and> \<not> is_active m i \<and> slot_tenant_id (alloc m ! i) = []"
  using assms by (auto simp: find_slot_def first_index_upt first_index_upt_None split: option.splits)

lemma find_slot_None:
  "find_slot A tid m = None \<Longrightarrow> i < MAX_TENANTS A \<Longrightarrow>
     slot_tenant_id (alloc m ! i) \<noteq> tid \<and> (is_active m i \<or> slot_tenant_id (alloc m ! i) \<noteq> [])"
  by (auto simp: find_slot_def first_index_upt_None split: option.splits)

lemma fill_from_env_frame [simp]:
  "tenants (fill_from_env e i m) = tenants m"
  "tenant_count (fill_from_env e i m) = tenant_count m"
  "length (alloc (fill_from_env e i m)) = length (alloc m)"
  "killer_policy_version (fill_from_env e i m) = killer_policy_version m"
  by (auto simp: fill_from_env_def Let_def upd_alloc_def split: option.splits)

lemma fill_from_env_slot:
  "j < length (alloc m) \<Longrightarrow> slot_tenant_id (alloc (fill_from_env e i m) ! j) = slot_tenant_id (alloc m ! j)"
  "j < length (alloc m) \<Longrightarrow> j \<noteq> i \<Longrightarrow> alloc (fill_from_env e i m) ! j = alloc m ! j"
  by (auto simp: fill_from_env_def Let_def split: option.splits)

text \<open>Named slots carry distinct names.\<close>

definition owners_distinct :: "kraken_abi \<Rightarrow> KrakenSharedState \<Rightarrow> bool" where
  "owners_distinct A m \<longleftrightarrow> (\<forall>i < MAX_TENANTS A. \<forall>j < MAX_TENANTS A.
     slot_tenant_id (alloc m ! i) = slot_tenant_id (alloc m ! j) \<longrightarrow> slot_tenant_id (alloc m ! i) \<noteq> [] \<longrightarrow> i = j)"

text \<open>
  C31. Registration: a process whose name fits the slot is turned away only when no slot carries
  its name and every slot is taken (named or active), and then neither it nor the segment
  changes. Otherwise it owns a slot that carries its name and is active: the one it owned
  before when it reconnects, else one that was free. No other slot and no other tenant is
  touched, the number of counted tenants stays the same, and different tenants own different
  slots.
\<close>

theorem register_tenant_correct:
  assumes "shm_wf A m" and "owners_distinct A m" and "tenant_id g \<noteq> []" and "length (tenant_id g) < TENANT_ID_SIZE A"
    and "register_tenant A getenv (g, m) = (g', m')"
  shows "owners_distinct A m' \<and> tenant_count m' = tenant_count m \<and>
    ((g' = g \<and> m' = m \<and> (\<forall>i < MAX_TENANTS A. slot_tenant_id (alloc m ! i) \<noteq> tenant_id g \<and>
        (is_active m i \<or> slot_tenant_id (alloc m ! i) \<noteq> []))) \<or>
     (g_shm g' \<and> tenant_idx g' < MAX_TENANTS A \<and> is_active m' (tenant_idx g') \<and>
      slot_tenant_id (alloc m' ! tenant_idx g') = tenant_id g \<and>
      (\<forall>i < MAX_TENANTS A. slot_tenant_id (alloc m ! i) = tenant_id g \<longrightarrow> tenant_idx g' = i) \<and>
      (slot_tenant_id (alloc m ! tenant_idx g') = tenant_id g \<or>
         \<not> is_active m (tenant_idx g') \<and> slot_tenant_id (alloc m ! tenant_idx g') = []) \<and>
      (\<forall>j < MAX_TENANTS A. j \<noteq> tenant_idx g' \<longrightarrow> alloc m' ! j = alloc m ! j \<and> tenants m' ! j = tenants m ! j)))"
proof (cases "find_slot A (tenant_id g) m")
  case None
  then show ?thesis using assms find_slot_None [OF None] by (auto simp: register_tenant_def)
next
  case (Some idx)
  note sl = find_slot_Some [OF Some]
  have len: "length (alloc m) = MAX_TENANTS A" "length (tenants m) = MAX_TENANTS A" using assms(1) by (auto simp: shm_wf_def)
  have nm: "strncpy_buf (TENANT_ID_SIZE A) (tenant_id g) = tenant_id g" using assms(4) by (simp add: strncpy_buf_def)
  have g': "g' = g\<lparr>g_shm := True, tenant_idx := idx\<rparr>"
    and m': "m' = upd_tenant idx (\<lambda>t. t\<lparr>active := 1\<rparr>)
      (fill_from_env getenv idx (upd_alloc idx (\<lambda>a. a\<lparr>slot_tenant_id := tenant_id g\<rparr>) m))"
    using assms(5) Some by (auto simp: register_tenant_def Let_def nm)
  have al: "alloc m' ! j = alloc m ! j \<and> tenants m' ! j = tenants m ! j" if "j < MAX_TENANTS A" "j \<noteq> idx" for j
    using that len by (simp add: m' fill_from_env_slot)
  have id: "slot_tenant_id (alloc m' ! j) = (if j = idx then tenant_id g else slot_tenant_id (alloc m ! j))" if "j < MAX_TENANTS A" for j
    using that len by (simp add: m' fill_from_env_slot)
  have uniq: "idx = i" if "i < MAX_TENANTS A" "slot_tenant_id (alloc m ! i) = tenant_id g" for i
    using that sl assms(2,3) unfolding owners_distinct_def by metis
  have "owners_distinct A m'"
    unfolding owners_distinct_def
  proof (intro allI impI)
    fix i j assume i: "i < MAX_TENANTS A" and j: "j < MAX_TENANTS A"
      and eq: "slot_tenant_id (alloc m' ! i) = slot_tenant_id (alloc m' ! j)" and ne: "slot_tenant_id (alloc m' ! i) \<noteq> []"
    show "i = j"
    proof (cases "i = idx \<or> j = idx")
      case True
      then show ?thesis using eq id i j uniq by metis
    next
      case False
      then show ?thesis using eq ne id i j assms(2) by (simp add: owners_distinct_def)
    qed
  qed
  moreover have "is_active m' idx" using sl len by (simp add: m')
  moreover have "tenant_count m' = tenant_count m" by (simp add: m')
  moreover have "slot_tenant_id (alloc m' ! idx) = tenant_id g" using id sl by simp
  ultimately show ?thesis using al uniq sl by (auto simp: g')
qed

definition empty_shm :: KrakenSharedState where
  "empty_shm = (sample_shm (sample_tenant 0 0) (sample_tenant 0 0))
     \<lparr>tenants := replicate 2 ((sample_tenant 0 0)\<lparr>active := 0\<rparr>),
      alloc := replicate 2 \<lparr>slot_tenant_id = [], virtual_sm = 0, virtual_mem_mb = 0, mps_pct = 0\<rparr>,
      virtual_sm_total := 0\<rparr>"

theorem register_tenant_correct_witness:
  "let r = register_tenant sample_abi Map.empty (g_kraken_zero\<lparr>tenant_id := ''B''\<rparr>, empty_shm) in
   g_shm (fst r) \<and> slot_tenant_id (alloc (snd r) ! tenant_idx (fst r)) = ''B''"
proof -
  let ?g = "g_kraken_zero\<lparr>tenant_id := ''B''\<rparr>"
  obtain g' m' where r: "register_tenant sample_abi Map.empty (?g, empty_shm) = (g', m')" by fastforce
  have wf: "shm_wf sample_abi empty_shm" "owners_distinct sample_abi empty_shm"
    by (auto simp: shm_wf_def owners_distinct_def empty_shm_def sample_defs less_Suc_eq numeral_2_eq_2)
  have free: "0 < MAX_TENANTS sample_abi" "\<not> is_active empty_shm 0" "slot_tenant_id (alloc empty_shm ! 0) = []"
    by (simp_all add: empty_shm_def sample_defs)
  have "tenant_id ?g \<noteq> []" "length (tenant_id ?g) < TENANT_ID_SIZE sample_abi" by (simp_all add: sample_abi_def)
  from register_tenant_correct [OF wf this r] free show ?thesis unfolding r by (auto simp: Let_def)
qed

section \<open>Truncated names\<close>

text \<open>
  Tenant names are cut to 15 bytes before the slot search. Two processes whose names agree
  on the first 15 bytes are the same tenant to the runtime: once the first has registered,
  the second one is given the same slot and shares its slice, its gate state and its quota.
\<close>

theorem truncated_names_share_slot:
  assumes "shm_wf A m" and "owners_distinct A m" and "TENANT_ID_SIZE A = 16" and "take 15 tid1 = take 15 tid2" and "tid1 \<noteq> []"
    and "register_tenant A env1 (g1\<lparr>tenant_id := strncpy_buf 16 tid1\<rparr>, m) = (g1', m1)" and "g_shm g1'" and "\<not> g_shm g1"
    and "register_tenant A env2 (g2\<lparr>tenant_id := strncpy_buf 16 tid2\<rparr>, m1) = (g2', m2)"
  shows "g_shm g2' \<and> tenant_idx g2' = tenant_idx g1'"
proof -
  let ?id = "take 15 tid1"
  have eq: "strncpy_buf 16 tid1 = ?id" "strncpy_buf 16 tid2 = ?id" using assms(4) by (simp_all add: strncpy_buf_def)
  obtain i where s1: "find_slot A ?id m = Some i"
    using assms(6-8) eq by (cases "find_slot A ?id m") (auto simp: register_tenant_def)
  note sl = find_slot_Some [OF s1]
  have len: "length (alloc m) = MAX_TENANTS A" using assms(1) by (simp add: shm_wf_def)
  have i1: "tenant_idx g1' = i"
    and m1: "m1 = upd_tenant i (\<lambda>t. t\<lparr>active := 1\<rparr>) (fill_from_env env1 i (upd_alloc i (\<lambda>a. a\<lparr>slot_tenant_id := ?id\<rparr>) m))"
    using assms(3,6) s1 eq by (auto simp: register_tenant_def Let_def strncpy_buf_def)
  have id: "slot_tenant_id (alloc m1 ! j) = (if j = i then ?id else slot_tenant_id (alloc m ! j))" if "j < MAX_TENANTS A" for j
    using that len by (simp add: m1 fill_from_env_slot)
  have "slot_tenant_id (alloc m ! j) \<noteq> ?id" if "j < MAX_TENANTS A" "j \<noteq> i" for j
    using that sl assms(2,5) unfolding owners_distinct_def by (metis take_eq_Nil zero_neq_numeral)
  then have "first_index (\<lambda>j. slot_tenant_id (alloc m1 ! j) = ?id) [0..<MAX_TENANTS A] = Some i"
    using sl(1) id unfolding first_index_upt by (metis order.strict_trans less_irrefl)
  then have "find_slot A ?id m1 = Some i" by (simp add: find_slot_def)
  then show ?thesis using assms(9) eq i1 by (auto simp: register_tenant_def Let_def)
qed

theorem truncated_names_share_slot_witness:
  "tenant_idx (fst (register_tenant sample_abi Map.empty (g_kraken_zero\<lparr>tenant_id := strncpy_buf 16 ''training-pod-0-b''\<rparr>,
     snd (register_tenant sample_abi Map.empty (g_kraken_zero\<lparr>tenant_id := strncpy_buf 16 ''training-pod-0-a''\<rparr>, empty_shm))))) = 0"
proof -
  let ?A = "''training-pod-0-a''" and ?B = "''training-pod-0-b''"
  let ?g1 = "g_kraken_zero\<lparr>tenant_id := strncpy_buf 16 ?A\<rparr>" and ?g2 = "g_kraken_zero\<lparr>tenant_id := strncpy_buf 16 ?B\<rparr>"
  obtain g1 m1 where r1: "register_tenant sample_abi Map.empty (?g1, empty_shm) = (g1, m1)" by fastforce
  obtain g2 m2 where r2: "register_tenant sample_abi Map.empty (?g2, m1) = (g2, m2)" by fastforce
  have wf: "shm_wf sample_abi empty_shm" "owners_distinct sample_abi empty_shm"
    by (auto simp: shm_wf_def owners_distinct_def empty_shm_def sample_defs less_Suc_eq numeral_2_eq_2)
  have "find_slot sample_abi (strncpy_buf 16 ?A) empty_shm = Some 0"
    by (simp add: find_slot_def strncpy_buf_def empty_shm_def sample_defs upt_rec)
  then have g1: "g_shm g1" "tenant_idx g1 = 0" using r1 by (auto simp: register_tenant_def Let_def)
  have "g_shm g2 \<and> tenant_idx g2 = tenant_idx g1"
    by (rule truncated_names_share_slot [OF wf _ _ _ r1 g1(1) _ r2]) (simp_all add: sample_abi_def g_kraken_zero_def)
  then show ?thesis using g1 r1 r2 by simp
qed

section \<open>Accounting of the virtual SM total\<close>

definition sm_accounted :: "KrakenSharedState \<Rightarrow> bool" where
  "sm_accounted m \<longleftrightarrow> virtual_sm_total m = wrap32 (sum_list (map virtual_sm (alloc m)))"

lemma wrap32_add_left: "wrap32 (wrap32 x + y) = wrap32 (x + y)"
  by (simp add: wrap32_def mod_simps algebra_simps)

lemma fill_from_env_accounted:
  assumes "sm_accounted m" and "i < length (alloc m)"
  shows "sm_accounted (fill_from_env getenv i m)"
proof -
  have "sum_list (map virtual_sm ((alloc m)[i := (alloc m ! i)\<lparr>virtual_sm := v, virtual_mem_mb := w, mps_pct := p\<rparr>])) =
      sum_list (map virtual_sm (alloc m)) - virtual_sm (alloc m ! i) + v" for v w p
    using assms(2) by (simp add: sum_list_update_int)
  then show ?thesis
    using assms by (auto simp: sm_accounted_def fill_from_env_def upd_alloc_def Let_def wrap32_add_left split: option.splits)
qed

definition active_sm :: "KrakenSharedState \<Rightarrow> int" where
  "active_sm m = (\<Sum>i < length (alloc m). if is_active m i then virtual_sm (alloc m ! i) else 0)"

definition departed_sm :: "KrakenSharedState \<Rightarrow> int" where
  "departed_sm m = (\<Sum>i < length (alloc m). if is_active m i then 0 else virtual_sm (alloc m ! i))"

lemma sm_split: "sum_list (map virtual_sm (alloc m)) = active_sm m + departed_sm m"
proof -
  have "sum_list (map virtual_sm (alloc m)) = (\<Sum>i < length (alloc m). virtual_sm (alloc m ! i))"
    by (simp add: sum_list_sum_nth atLeast0LessThan)
  then show ?thesis by (simp add: active_sm_def departed_sm_def flip: sum.distrib) (rule sum.cong, simp_all)
qed

lemma departed_fini:
  assumes "i < length (alloc m)" and "i < length (tenants m)" and "is_active m i"
  shows "departed_sm (upd_tenant i (\<lambda>t. t\<lparr>active := 0\<rparr>) m) = departed_sm m + virtual_sm (alloc m ! i)"
proof -
  let ?m = "upd_tenant i (\<lambda>t. t\<lparr>active := 0\<rparr>) m"
  have "is_active ?m j \<longleftrightarrow> is_active m j \<and> j \<noteq> i" for j using assms(2) by (cases "j = i") (auto simp: upd_tenant_def)
  then have "departed_sm ?m = (\<Sum>j < length (alloc m). (if is_active m j then 0 else virtual_sm (alloc m ! j)) +
      (if j = i then virtual_sm (alloc m ! i) else 0))"
    unfolding departed_sm_def using assms(3) by (intro sum.cong) auto
  also have "\<dots> = departed_sm m + virtual_sm (alloc m ! i)"
    using assms(1) by (simp add: sum.distrib departed_sm_def)
  finally show ?thesis .
qed

text \<open>
  C40. What \<open>virtual_sm_total\<close> counts: registering a tenant keeps it equal to the sum of the
  virtual SMs of all slots (modulo 32 bits), whether the controller had filled the slot or the
  environment fills it, and however often the tenant reconnects. The sum is over the active
  tenants and the departed ones: when the process ends, the total stays and the share of the
  tenant moves from the active to the departed part, so that the total exceeds the sum over the
  active tenants by exactly what the departed ones had.
\<close>

theorem register_keeps_sm_total:
  assumes "shm_wf A m" and "sm_accounted m" and "register_tenant A getenv (g, m) = (g', m')"
    and "g_shm g'" and "\<not> g_shm g" and "kraken_fini (g'\<lparr>initialized := True\<rparr>, m') = (g'', m'')"
  shows "virtual_sm_total m' = wrap32 (active_sm m' + departed_sm m') \<and> virtual_sm_total m'' = virtual_sm_total m' \<and>
    active_sm m'' = active_sm m' - virtual_sm (alloc m' ! tenant_idx g') \<and>
    departed_sm m'' = departed_sm m' + virtual_sm (alloc m' ! tenant_idx g')"
proof -
  obtain idx where s: "find_slot A (tenant_id g) m = Some idx"
    using assms(3-5) by (cases "find_slot A (tenant_id g) m") (auto simp: register_tenant_def)
  let ?m1 = "upd_alloc idx (\<lambda>a. a\<lparr>slot_tenant_id := strncpy_buf (TENANT_ID_SIZE A) (tenant_id g)\<rparr>) m"
  have idx: "idx < length (alloc m)" "idx < length (tenants m)"
    using find_slot_Some(1) [OF s] assms(1) by (simp_all add: shm_wf_def)
  then have "map virtual_sm (alloc ?m1) = map virtual_sm (alloc m)"
    by (intro nth_equalityI) (auto simp: nth_list_update upd_alloc_def)
  then have "sm_accounted ?m1" using assms(2) by (simp add: sm_accounted_def)
  then have acc: "sm_accounted (fill_from_env getenv idx ?m1)" using idx by (intro fill_from_env_accounted) simp_all
  have m': "m' = upd_tenant idx (\<lambda>t. t\<lparr>active := 1\<rparr>) (fill_from_env getenv idx ?m1)" "tenant_idx g' = idx"
    using assms(3) s by (auto simp: register_tenant_def Let_def)
  have m'': "m'' = upd_tenant idx (\<lambda>t. t\<lparr>active := 0\<rparr>) m'" using assms(4,6) m'(2) by (auto simp: kraken_fini_def)
  have i: "idx < length (alloc m')" "idx < length (tenants m')" "is_active m' idx" using idx by (simp_all add: m'(1))
  have t: "virtual_sm_total m' = wrap32 (active_sm m' + departed_sm m')"
    using acc unfolding m'(1) sm_accounted_def sm_split [symmetric] by simp
  note d = departed_fini [OF i]
  have "active_sm m'' + departed_sm m'' = active_sm m' + departed_sm m'" unfolding m'' sm_split [symmetric] by simp
  with t d show ?thesis by (simp add: m'' m'(2))
qed

theorem register_keeps_sm_total_witness:
  "let r = register_tenant sample_abi [ENV_VIRTUAL_SM \<mapsto> ''40'', ENV_VIRTUAL_MEM_MB \<mapsto> ''512''] (g_kraken_zero\<lparr>tenant_id := ''A''\<rparr>, empty_shm)
   in virtual_sm_total (snd r) = wrap32 (active_sm (snd r) + departed_sm (snd r))"
proof -
  let ?e = "[ENV_VIRTUAL_SM \<mapsto> ''40'', ENV_VIRTUAL_MEM_MB \<mapsto> ''512'']" and ?g = "g_kraken_zero\<lparr>tenant_id := ''A''\<rparr>"
  obtain g' m' where r: "register_tenant sample_abi ?e (?g, empty_shm) = (g', m')" by fastforce
  obtain g'' m'' where f: "kraken_fini (g'\<lparr>initialized := True\<rparr>, m') = (g'', m'')" by fastforce
  have "find_slot sample_abi ''A'' empty_shm = Some 0" by (simp add: find_slot_def empty_shm_def sample_defs upt_rec)
  then have "g_shm g'" using r by (auto simp: register_tenant_def Let_def)
  moreover have "shm_wf sample_abi empty_shm" "sm_accounted empty_shm" "\<not> g_shm ?g"
    by (simp_all add: shm_wf_def sm_accounted_def empty_shm_def sample_defs wrap32_def numeral_2_eq_2 g_kraken_zero_def)
  ultimately show ?thesis using register_keeps_sm_total [OF _ _ r _ _ f] by (simp add: r Let_def)
qed

section \<open>Start-up\<close>

lemma load_killer_policy_frame:
  "g_shm (load_killer_policy fs path g) = g_shm g" "tenant_idx (load_killer_policy fs path g) = tenant_idx g"
  by (auto simp: load_killer_policy_def Let_def split: option.splits prod.splits)

lemma register_tenant_idx: "register_tenant A env (g, m) = (g', m') \<Longrightarrow> \<not> g_shm g \<Longrightarrow> g_shm g' \<Longrightarrow>
    tenant_idx g' < MAX_TENANTS A \<and> policy g' = policy g \<and> killer_policy_version m' = killer_policy_version m"
  by (auto simp: register_tenant_def Let_def upd_alloc_def dest: find_slot_Some split: option.splits)

text \<open>
  C32. What the constructor guarantees to every hook: the library counts as initialised only
  when it is attached to a segment at a slot inside the table, with policy arrays in bounds
  and with the segment's policy version recorded, so that no reload happens before the
  version changes. In every other case gating stays off.
\<close>

theorem kraken_init_ready:
  assumes "\<not> g_shm g" and "\<not> initialized g" and "policy g = zero_policy"
    and "kraken_init A fmt fs getenv mmap_ok (g, segs) = (g', segs')" and "initialized g'"
  shows "g_shm g' \<and> tenant_idx g' < MAX_TENANTS A \<and> policy_wf (policy g') \<and>
    (\<exists>m. segs' (shm_path fmt (strncpy_buf 64 (case getenv ENV_GROUP_ID of Some s \<Rightarrow> s | None \<Rightarrow> DEFAULT_GROUP_ID))) = Some m \<and>
       reload_killer_policy_if_needed fs' m g' = g')"
proof -
  let ?grp = "strncpy_buf 64 (case getenv ENV_GROUP_ID of Some s \<Rightarrow> s | None \<Rightarrow> DEFAULT_GROUP_ID)"
  obtain tid where tid: "getenv ENV_TENANT_ID = Some tid"
    using assms(2,4,5) by (auto simp: kraken_init_def split: option.splits)
  let ?g1 = "g\<lparr>tenant_id := strncpy_buf 16 tid, group_id := ?grp\<rparr>"
  obtain g2 segs2 where o: "kraken_shm_open A fmt getenv mmap_ok ?grp (?g1, segs) = (g2, segs2)" by fastforce
  have g2: "g_shm g2" using assms(1,2,4,5) tid o
    by (auto simp: kraken_init_def Let_def kraken_shm_open_def register_tenant_def split: option.splits if_splits prod.splits)
  obtain m m' where m: "segs (shm_path fmt ?grp) = Some m" "register_tenant A getenv (?g1, m) = (g2, m')"
    "segs2 = segs(shm_path fmt ?grp \<mapsto> m')"
    using o g2 assms(1) by (auto simp: kraken_shm_open_def Let_def split: option.splits if_splits prod.splits)
  have g': "g' = (init_policy fs getenv g2)\<lparr>loaded_killer_version := killer_policy_version m', initialized := True\<rparr>" "segs' = segs2"
    using assms(4) tid o g2 m(3) by (auto simp: kraken_init_def Let_def)
  have r: "tenant_idx g2 < MAX_TENANTS A" "policy g2 = zero_policy"
    using register_tenant_idx [OF m(2)] g2 assms(1,3) by auto
  have "policy_wf (policy (init_policy fs getenv g2))"
    using r(2) by (auto simp: init_policy_def zero_policy_def [THEN arg_cong [of _ _ count]] split: option.splits
        intro!: load_killer_policy_wf install_patterns_wf)
  moreover have "g_shm (init_policy fs getenv g2)" "tenant_idx (init_policy fs getenv g2) = tenant_idx g2"
    using g2 by (auto simp: init_policy_def load_killer_policy_frame split: option.splits)
  ultimately show ?thesis using r g' m(3) by (simp add: reload_killer_policy_if_needed_def)
qed

theorem kraken_init_ready_witness:
  "\<exists>g' segs'. kraken_init sample_abi (\<lambda>s. ''/kraken_'' @ s) Map.empty [ENV_TENANT_ID \<mapsto> ''A''] True
       (g_kraken_zero, [''/kraken_default'' \<mapsto> empty_shm]) = (g', segs') \<and> g_shm g' \<and> tenant_idx g' < 2"
proof -
  let ?fmt = "\<lambda>s. ''/kraken_'' @ s" and ?env = "[ENV_TENANT_ID \<mapsto> ''A'']" and ?segs = "[''/kraken_default'' \<mapsto> empty_shm]"
  obtain g' segs' where r: "kraken_init sample_abi ?fmt Map.empty ?env True (g_kraken_zero, ?segs) = (g', segs')" by fastforce
  have "find_slot sample_abi ''A'' empty_shm = Some 0"
    by (simp add: find_slot_def empty_shm_def sample_defs upt_rec)
  moreover have "magic empty_shm = SHM_MAGIC sample_abi" by (simp add: empty_shm_def sample_defs)
  ultimately have "initialized g'"
    using r by (auto simp: kraken_init_def kraken_shm_open_def Let_def strncpy_buf_def shm_path_def DEFAULT_GROUP_ID_def
        ENV_GROUP_ID_def ENV_TENANT_ID_def register_tenant_def split: prod.splits)
  then have "g_shm g' \<and> tenant_idx g' < MAX_TENANTS sample_abi"
    using kraken_init_ready [OF _ _ _ r, of Map.empty] by (simp add: g_kraken_zero_def)
  then show ?thesis using r by (simp add: sample_abi_def)
qed

end
