(* ===== verification/GateSystem.thy ===== *)
theory GateSystem
  imports StreamGate ShmClient
begin

text \<open>
  Several tenants at the gate: the calls that never return, the invariants of every
  interleaving of the processes and the scheduler, and the interleavings in which the gate
  admits two killers.
\<close>

section \<open>All the processes\<close>

text \<open>
  \<open>procs ! i\<close> is the process of slot \<open>i\<close> (one launching thread per process); a slot without a
  process has \<open>g_shm\<close> unset. Besides the steps of the gate there are the calls themselves; the
  end of a process, which comes at any point of the gate, with the destructor (\<open>kraken_fini\<close>) or
  without it; the constructor of the next process of the slot (\<open>kraken_init\<close>), which finds the
  slot as it was left; and the central scheduler, which rewrites the mode, the profiled tenant
  and the policy at any time.
\<close>

record gate_sys =
  segm :: KrakenSharedState
  procs :: "(gate_local \<times> KrakenRuntime) list"

abbreviation pc_of :: "gate_sys \<Rightarrow> nat \<Rightarrow> gate_pc" where
  "pc_of s i \<equiv> pc (fst (procs s ! i))"

definition scheduler_write :: "int \<Rightarrow> int \<Rightarrow> f32 list \<Rightarrow> int \<Rightarrow> int \<Rightarrow> KrakenSharedState \<Rightarrow> KrakenSharedState" where
  "scheduler_write md prof ws dur ver m =
     m\<lparr>mode := md, profiling_tenant_idx := prof, weights := ws, round_duration_us := dur,
       killer_policy_version := ver\<rparr>"

definition end_process :: "bool \<Rightarrow> nat \<Rightarrow> gate_sys \<Rightarrow> gate_sys" where
  "end_process clean i s = (case procs s ! i of (l, g) \<Rightarrow>
     s\<lparr>segm := (if clean then snd (kraken_fini (g, segm s)) else segm s),
       procs := (procs s)[i := (goto Outside l, g\<lparr>g_shm := False\<rparr>)]\<rparr>)"

inductive sys_step :: "kraken_abi \<Rightarrow> (string \<Rightarrow> string option) \<Rightarrow> gate_sys \<Rightarrow> gate_sys \<Rightarrow> bool" for A fs where
  call_enter: "i < length (procs s) \<Longrightarrow> procs s ! i = (l, g) \<Longrightarrow> g_shm g \<Longrightarrow> pc l = Outside \<Longrightarrow>
     sys_step A fs s (s\<lparr>procs := (procs s)[i := (goto ProfMode l, g)]\<rparr>)"
| call_exit: "i < length (procs s) \<Longrightarrow> procs s ! i = (l, g) \<Longrightarrow> pc l = Inside \<Longrightarrow>
     sys_step A fs s (s\<lparr>procs := (procs s)[i := (goto ExitClock l, g)]\<rparr>)"
| run: "i < length (procs s) \<Longrightarrow> procs s ! i = (l, g) \<Longrightarrow> gate_step A fs now (l, g, segm s) = (l', g', m') \<Longrightarrow>
     sys_step A fs s (s\<lparr>segm := m', procs := (procs s)[i := (l', g')]\<rparr>)"
| ends: "i < length (procs s) \<Longrightarrow> g_shm (snd (procs s ! i)) \<Longrightarrow> sys_step A fs s (end_process clean i s)"
| attach: "i < length (procs s) \<Longrightarrow> procs s ! i = (l, g) \<Longrightarrow> \<not> g_shm g \<Longrightarrow> \<not> g_shm g0 \<Longrightarrow>
     register_tenant A env (g0, segm s) = (g1, m') \<Longrightarrow> g_shm g1 \<Longrightarrow> tenant_idx g1 = i \<Longrightarrow>
     g' = (init_policy fs env g1)\<lparr>loaded_killer_version := killer_policy_version m', initialized := True\<rparr> \<Longrightarrow>
     sys_step A fs s (s\<lparr>segm := m', procs := (procs s)[i := (goto Outside l, g')]\<rparr>)"
| schedule: "sys_step A fs s (s\<lparr>segm := scheduler_write md prof ws dur ver (segm s)\<rparr>)"

inductive_cases sys_stepE: "sys_step A fs s t"

definition sys_wf :: "gate_sys \<Rightarrow> bool" where
  "sys_wf s \<longleftrightarrow> length (procs s) = length (tenants (segm s)) \<and> tenant_count (segm s) \<le> length (tenants (segm s)) \<and>
     (\<forall>i < length (procs s). tenant_idx (snd (procs s ! i)) = i \<and> (g_shm (snd (procs s ! i)) \<or> pc_of s i = Outside))"

section \<open>Tenants that are never admitted\<close>

lemma call_stuck:
  fixes g :: "'a KrakenRuntime_scheme"
  assumes "I (now, l, g, m)"
    and "\<And>now l (g :: 'a KrakenRuntime_scheme) m. I (now, l, g, m) \<Longrightarrow> pc l \<noteq> Inside \<and> I (now, gate_step A fs now (l, g, m))"
    and "\<And>x e. I x \<Longrightarrow> e \<in> set es \<Longrightarrow> I (disturb e x)"
  shows "poll (call_body A fs Inside) (map disturb es) (now, l, g, m) = None"
proof (rule poll_stuck [where I = I, OF assms(1)])
  fix s :: "'a gate_conf" assume i: "I s"
  obtain now l g m where s: "s = (now, l, g, m)" by (cases s)
  from assms(2) [OF i [unfolded s]]
  have "call_body A fs Inside s = Inl (now, gate_step A fs now (l, g, m))" and "I (now, gate_step A fs now (l, g, m))"
    by (simp_all add: s call_body_def)
  with assms(3) show "\<exists>s'. call_body A fs Inside s = Inl s' \<and> (\<forall>e \<in> set (map disturb es). I (e s'))" by auto
qed

text \<open>A waiting tenant outside the counted part of the table.\<close>

fun uncounted_pc :: "kraken_abi \<Rightarrow> nat \<Rightarrow> int \<Rightarrow> gate_pc \<Rightarrow> bool" where
  "uncounted_pc A n st (RechargeTime i c) = (i < n \<and> st = GATE_WAITING A)"
| "uncounted_pc A n st (RechargeState i c) = (i < n \<and> st = GATE_WAITING A)"
| "uncounted_pc A n st p = (p \<in> {ProfMode, ProfIdx, FreeMode, SliceTest, SetWaiting} \<or>
     st = GATE_WAITING A \<and> p \<notin> {Outside, WaitEnd, MarkActive, Stamp, Inside, ExitClock, Deduct, CountKiller, Release} \<and>
     (\<forall>i. p \<notin> {PeerActive i, PeerState i, PeerStart i, PeerSpin i, PeerEnd i}))"

definition uncounted :: "kraken_abi \<Rightarrow> nat \<Rightarrow> 'a gate_conf \<Rightarrow> bool" where
  "uncounted A my = (\<lambda>(now, l, g, m). mode m \<noteq> MODE_FREE A \<and> g_shm g \<and> tenant_idx g = my \<and> my < length (tenants m) \<and>
     tenant_count m \<le> my \<and> time_remain_us (tenants m ! my) \<le> 0 \<and>
     uncounted_pc A (tenant_count m) (gate_state (tenants m ! my)) (pc l))"

lemma uncounted_step:
  assumes "uncounted A my (now, l, g, m)"
  shows "uncounted A my (now, gate_step A fs now (l, g, m))"
proof -
  have a: "mode m \<noteq> MODE_FREE A" "g_shm g" "tenant_idx g = my" "my < length (tenants m)" "tenant_count m \<le> my"
    "time_remain_us (tenants m ! my) \<le> 0" "uncounted_pc A (tenant_count m) (gate_state (tenants m ! my)) (pc l)"
    using assms by (auto simp: uncounted_def)
  show ?thesis
  proof (cases "pc l")
    case (AllActive i c) with a show ?thesis by (cases c) (auto simp: uncounted_def gate_step.simps)
  next
    case (AllState i c) with a show ?thesis by (cases c) (auto simp: uncounted_def gate_step.simps)
  next
    case (TryLock c) with a show ?thesis by (cases c) (auto simp: uncounted_def gate_step.simps)
  next
    case (Unlock c) with a show ?thesis by (cases c) (auto simp: uncounted_def gate_step.simps)
  qed (use a in \<open>auto simp: uncounted_def gate_step.simps timeslice_exhausted_def timeslice_set_waiting_def store_round_id_def\<close>)
qed

definition ignores_slot :: "kraken_abi \<Rightarrow> nat \<Rightarrow> (KrakenSharedState \<Rightarrow> KrakenSharedState) \<Rightarrow> bool" where
  "ignores_slot A my f \<longleftrightarrow> (\<forall>m. tenant_count (f m) = tenant_count m \<and> length (tenants (f m)) = length (tenants m) \<and>
     (mode m \<noteq> MODE_FREE A \<longrightarrow> mode (f m) \<noteq> MODE_FREE A) \<and> tenants (f m) ! my = tenants m ! my)"

text \<open>
  A tenant whose slot lies beyond \<open>tenant_count\<close> is outside every round: the loops of the
  round manager run to \<open>tenant_count\<close>, so once its slice is used up nothing recharges it and
  \<open>gate_killer_enter\<close> does not return, for as long as the segment is in a gated mode and the
  other processes leave its slot and the count alone. \<open>kraken_shm_open\<close> registers a tenant in
  the first free slot without raising the count.
\<close>

theorem uncounted_tenant_never_enters:
  assumes "g_shm g" and "tenant_idx g < length (tenants m)" and "tenant_count m \<le> tenant_idx g"
    and "mode m \<noteq> MODE_FREE A" and "time_remain_us (tenants m ! tenant_idx g) \<le> 0"
    and "\<forall>e \<in> set es. ignores_slot A (tenant_idx g) (snd e)"
  shows "gate_killer_enter A fs es now (g, m) = None"
proof -
  have "poll (call_body A fs Inside) (map disturb es) (now, \<lparr>pc = ProfMode, wait_s = now, elapsed_us = 0\<rparr>, g, m) = None"
  proof (rule call_stuck [where I = "uncounted A (tenant_idx g)"])
    show "uncounted A (tenant_idx g) (now, \<lparr>pc = ProfMode, wait_s = now, elapsed_us = 0\<rparr>, g, m)"
      using assms by (simp add: uncounted_def)
  qed (use assms(6) in \<open>auto simp: uncounted_step, auto simp: uncounted_def disturb_def ignores_slot_def\<close>)
  then show ?thesis using assms(1) by (simp add: gate_killer_enter_def gate_call_def)
qed

text \<open>The wait loop of an exhausted tenant while some active peer is not waiting.\<close>

fun wait_pc :: "nat \<Rightarrow> gate_pc \<Rightarrow> bool" where
  "wait_pc p (AllActive i c) = (i \<le> p)"
| "wait_pc p (AllState i c) = (i \<le> p)"
| "wait_pc p q = (q \<in> {WaitStart, WaitTest})"

definition held_back :: "kraken_abi \<Rightarrow> nat \<Rightarrow> nat \<Rightarrow> KrakenSharedState \<Rightarrow> bool" where
  "held_back A my p m \<longleftrightarrow> gate_state (tenants m ! my) = GATE_WAITING A \<and> p < tenant_count m \<and> is_active m p \<and>
     gate_state (tenants m ! p) \<noteq> GATE_WAITING A"

definition waiting_conf :: "kraken_abi \<Rightarrow> nat \<Rightarrow> nat \<Rightarrow> 'a gate_conf \<Rightarrow> bool" where
  "waiting_conf A my p = (\<lambda>(now, l, g, m). tenant_idx g = my \<and> wait_pc p (pc l) \<and> held_back A my p m)"

lemma waiting_step: "waiting_conf A my p (now, l, g, m) \<Longrightarrow> waiting_conf A my p (now, gate_step A fs now (l, g, m))"
proof (cases "pc l")
  case (AllActive i c)
  then show "waiting_conf A my p (now, l, g, m) \<Longrightarrow> ?thesis"
    by (cases "i = p") (auto simp: waiting_conf_def held_back_def gate_step.simps)
next
  case (AllState i c)
  then show "waiting_conf A my p (now, l, g, m) \<Longrightarrow> ?thesis"
    by (cases "i = p"; cases c) (auto simp: waiting_conf_def held_back_def gate_step.simps)
qed (auto simp: waiting_conf_def held_back_def gate_step.simps)

text \<open>
  A tenant in the wait loop looks at nothing but its own gate state: as long as one active
  peer keeps computing without using up its slice it stays there, whatever the scheduler
  writes to \<open>mode\<close>, \<open>profiling_tenant_idx\<close>, the weights or the round length. In particular
  switching the segment to the free mode does not release it, although in that mode a new
  call passes at once and the peers no longer wait.
\<close>

theorem waiting_tenant_ignores_mode:
  assumes "held_back A (tenant_idx g) p m" and "\<forall>e \<in> set es. \<forall>m'. held_back A (tenant_idx g) p m' \<longrightarrow> held_back A (tenant_idx g) p (snd e m')"
  shows "poll (call_body A fs Inside) (map disturb es) (now, goto WaitTest l, g, m) = None"
proof (rule call_stuck [where I = "waiting_conf A (tenant_idx g) p"])
  show "waiting_conf A (tenant_idx g) p (now, goto WaitTest l, g, m)" using assms(1) by (simp add: waiting_conf_def)
qed (use assms(2) in \<open>auto simp: waiting_step, auto simp: waiting_conf_def disturb_def\<close>)

text \<open>A peer that died inside its killer: the wait for it tests only the gate state.\<close>

lemma peer_spin_stuck:
  assumes "gate_state (tenants m ! p) = GATE_KILLER_ACTIVE A"
    and "\<forall>e \<in> set es. \<forall>m'. gate_state (tenants m' ! p) = GATE_KILLER_ACTIVE A \<longrightarrow> gate_state (tenants (snd e m') ! p) = GATE_KILLER_ACTIVE A"
  shows "poll (call_body A fs Inside) (map disturb es) (now, goto (PeerSpin p) l, g, m) = None"
  by (rule call_stuck [where I = "\<lambda>(now, l, g, m). pc l = PeerSpin p \<and> gate_state (tenants m ! p) = GATE_KILLER_ACTIVE A"])
     (use assms in \<open>auto simp: gate_step.simps disturb_def\<close>)

section \<open>Invariants of the whole system\<close>

text \<open>Program points between the acquisition and the release of \<open>round_trigger_lock\<close>.\<close>

fun critical :: "gate_pc \<Rightarrow> bool" where
  "critical (Reload c) = True" | "critical (Recharge i c) = True" | "critical (RechargeTime i c) = True"
| "critical (RechargeState i c) = True" | "critical (ReadRid c) = True" | "critical (StoreRid i r c) = True"
| "critical (Unlock c) = True" | "critical _ = False"

text \<open>Program points between the mark and the release of the gate.\<close>

definition holding :: "gate_pc \<Rightarrow> bool" where
  "holding p \<longleftrightarrow> p \<in> {Stamp, Inside, ExitClock, Deduct, CountKiller, Release}"

lemma after_trigger_simps [simp]: "critical (after_trigger c) = False" "holding (after_trigger c) = False"
  by (cases c; simp add: holding_def)+

lemma gate_step_lock:
  assumes "gate_step A fs now (l, g, m) = (l', g', m')"
  shows "round_trigger_lock m' =
    (if critical (pc l) then (if critical (pc l') then round_trigger_lock m else 0)
     else if critical (pc l') then 1 else round_trigger_lock m) \<and>
    (\<not> critical (pc l) \<and> critical (pc l') \<longrightarrow> round_trigger_lock m = 0)"
proof (cases "pc l")
qed (use assms in \<open>auto simp: gate_step.simps timeslice_set_waiting_def timeslice_add_wait_def timeslice_deduct_def
       store_round_id_def split: if_splits\<close>)

lemma gate_step_owner:
  assumes "gate_step A fs now (l, g, m) = (l', g', m')" and "abi_ok A" and "j < length (tenants m)"
    and "gate_state (tenants m' ! j) = GATE_KILLER_ACTIVE A"
  shows "(j = tenant_idx g \<and> holding (pc l')) \<or> (j \<noteq> tenant_idx g \<and> gate_state (tenants m ! j) = GATE_KILLER_ACTIVE A) \<or>
     (gate_state (tenants m ! j) = GATE_KILLER_ACTIVE A \<and> \<not> holding (pc l))"
proof (cases "pc l")
qed (use assms in \<open>auto simp: gate_step.simps timeslice_set_waiting_def timeslice_add_wait_def timeslice_deduct_def
       store_round_id_def abi_ok_def holding_def split: if_splits\<close>)

definition gate_inv :: "kraken_abi \<Rightarrow> gate_sys \<Rightarrow> bool" where
  "gate_inv A s \<longleftrightarrow> abi_ok A \<and> sys_wf s \<and>
     (\<forall>i < length (procs s). critical (pc_of s i) \<longrightarrow> round_trigger_lock (segm s) \<noteq> 0) \<and>
     (\<forall>i < length (procs s). \<forall>j < length (procs s). critical (pc_of s i) \<longrightarrow> critical (pc_of s j) \<longrightarrow> i = j)"

lemma gate_inv_move:
  assumes "gate_inv A s" and "i < length (procs s)" and "procs s ! i = (l, g)" and "\<not> critical p"
    and "round_trigger_lock m' = round_trigger_lock (segm s)" and "tenant_count m' = tenant_count (segm s)"
    and "length (tenants m') = length (tenants (segm s))" and "tenant_idx g' = i" and "g_shm g' \<or> p = Outside"
  shows "gate_inv A (s\<lparr>segm := m', procs := (procs s)[i := (goto p l, g')]\<rparr>)"
  using assms by (auto simp: gate_inv_def sys_wf_def nth_list_update)

lemma gate_invD:
  assumes "gate_inv A s"
  shows "abi_ok A" and "sys_wf s"
    and "\<And>i. i < length (procs s) \<Longrightarrow> critical (pc_of s i) \<Longrightarrow> round_trigger_lock (segm s) \<noteq> 0"
    and "\<And>i j. i < length (procs s) \<Longrightarrow> j < length (procs s) \<Longrightarrow> critical (pc_of s i) \<Longrightarrow> critical (pc_of s j) \<Longrightarrow> i = j"
  using assms by (simp_all add: gate_inv_def)

lemma gate_inv_run:
  assumes inv: "gate_inv A s" and i: "i < length (procs s)" and p: "procs s ! i = (l, g)"
    and st: "gate_step A fs now (l, g, segm s) = (l', g', m')"
  shows "gate_inv A (s\<lparr>segm := m', procs := (procs s)[i := (l', g')]\<rparr>)" (is "gate_inv A ?t")
proof -
  note fr = gate_step_frame [OF st] and lk = gate_step_lock [OF st] and I = gate_invD [OF inv]
  have my: "tenant_idx g = i" and len: "length (procs s) = length (tenants (segm s))"
    using I(2) i p unfolding sys_wf_def by (metis snd_conv)+
  have pcl: "pc_of s i = pc l" using p by simp
  have pct: "pc_of ?t j = (if j = i then pc l' else pc_of s j)" for j using i by (simp add: nth_list_update)
  have "g_shm g \<or> pc l = Outside" using I(2) i p unfolding sys_wf_def by (metis fst_conv snd_conv)
  then have "g_shm g' \<or> pc l' = Outside" using fr st by (auto simp: gate_step.simps)
  then have wf: "sys_wf ?t" using I(2) fr i p by (auto simp: sys_wf_def nth_list_update)
  have one: "j = i" if "j < length (procs s)" "critical (pc_of s j)" "critical (pc l')" for j
    using that I(3,4) [of j] I(4) [of j i] i lk pcl by metis
  have lock: "round_trigger_lock m' \<noteq> 0" if "j < length (procs s)" "critical (pc_of ?t j)" for j
  proof (cases "j = i")
    case True
    then show ?thesis using that I(3) [OF i] lk pcl pct by (metis zero_neq_one)
  next
    case False
    then show ?thesis using that I(3) [of j] I(4) [of j i] i lk pcl pct by (metis zero_neq_one)
  qed
  have uniq: "j = k" if "j < length (procs s)" "k < length (procs s)" "critical (pc_of ?t j)" "critical (pc_of ?t k)" for j k
    using that I(4) [of j k] one [of j] one [of k] pct by metis
  show ?thesis using I(1) wf lock uniq unfolding gate_inv_def by simp
qed

lemma fini_frame [simp]:
  "round_trigger_lock (snd (kraken_fini (g, m))) = round_trigger_lock m" "tenant_count (snd (kraken_fini (g, m))) = tenant_count m"
  "length (tenants (snd (kraken_fini (g, m)))) = length (tenants m)"
  "j < length (tenants m) \<Longrightarrow> gate_state (tenants (snd (kraken_fini (g, m))) ! j) = gate_state (tenants m ! j)"
  by (auto simp: kraken_fini_def)

lemma register_frame:
  assumes "register_tenant A env (g, m) = (g', m')"
  shows "round_trigger_lock m' = round_trigger_lock m" and "tenant_count m' = tenant_count m"
    and "length (tenants m') = length (tenants m)"
    and "j < length (tenants m) \<Longrightarrow> gate_state (tenants m' ! j) = gate_state (tenants m ! j)"
  using assms by (auto simp: register_tenant_def fill_from_env_def upd_alloc_def Let_def split: option.splits if_splits)

lemma init_policy_frame [simp]:
  "g_shm (init_policy fs env g) = g_shm g" "tenant_idx (init_policy fs env g) = tenant_idx g"
  by (auto simp: init_policy_def load_killer_policy_frame split: option.splits)

lemma gate_inv_end:
  assumes "gate_inv A s" and "i < length (procs s)"
  shows "gate_inv A (end_process clean i s)"
proof -
  obtain l g where p: "procs s ! i = (l, g)" by (cases "procs s ! i")
  have "tenant_idx g = i" using gate_invD(2) [OF assms(1)] assms(2) p unfolding sys_wf_def by (metis snd_conv)
  then show ?thesis
    using gate_inv_move [OF assms p, of Outside "if clean then snd (kraken_fini (g, segm s)) else segm s" "g\<lparr>g_shm := False\<rparr>"]
    by (simp add: end_process_def p)
qed

lemma gate_inv_step:
  assumes "gate_inv A s" and "sys_step A fs s t"
  shows "gate_inv A t"
proof -
  have idx: "tenant_idx g = i" if "i < length (procs s)" "procs s ! i = (l, g)" for i l g
    using gate_invD(2) [OF assms(1)] that unfolding sys_wf_def by (metis snd_conv)
  have here: "gate_inv A (s\<lparr>procs := (procs s)[i := (goto p l, g)]\<rparr>)"
    if "i < length (procs s)" "procs s ! i = (l, g)" "\<not> critical p" "g_shm g" for i l g p
    using gate_inv_move [OF assms(1) that(1,2,3), of "segm s" g] idx [OF that(1,2)] that(4) by simp
  from assms(2) show ?thesis
  proof cases
    case (call_enter i l g)
    with here show ?thesis by simp
  next
    case (call_exit i l g)
    then have "g_shm g" using gate_invD(2) [OF assms(1)] unfolding sys_wf_def by (metis fst_conv snd_conv gate_pc.distinct)
    with call_exit here show ?thesis by simp
  next
    case (run i l g now l' g' m')
    then show ?thesis using gate_inv_run [OF assms(1)] by blast
  next
    case (ends i clean)
    then show ?thesis using gate_inv_end [OF assms(1)] by blast
  next
    case (attach i l g g0 env g1 m' g')
    show ?thesis unfolding attach(1)
      by (rule gate_inv_move [OF assms(1) attach(2,3)]) (use attach register_frame [OF attach(6)] in simp_all)
  next
    case (schedule md prof ws dur ver)
    then show ?thesis using assms(1) by (simp add: gate_inv_def sys_wf_def scheduler_write_def)
  qed
qed

interpretation gate: inductive_invariant "sys_step A fs" "gate_inv A" for A fs
  by unfold_locales (rule gate_inv_step)

text \<open>The state after start-up: nobody is in the gate, the lock is free, nobody is marked.\<close>

definition gate_init :: "kraken_abi \<Rightarrow> gate_sys \<Rightarrow> bool" where
  "gate_init A s \<longleftrightarrow> sys_wf s \<and> round_trigger_lock (segm s) = 0 \<and>
     (\<forall>i < length (procs s). pc_of s i = Outside \<and> gate_state (tenants (segm s) ! i) \<noteq> GATE_KILLER_ACTIVE A)"

lemma gate_init_inv: "abi_ok A \<Longrightarrow> gate_init A s \<Longrightarrow> gate_inv A s"
  by (auto simp: gate_init_def gate_inv_def)

text \<open>
  C1. A round is started by one process at a time: in every interleaving of the tenants and
  the scheduler at most one process is between the compare-and-swap on \<open>round_trigger_lock\<close>
  and its release, and while one is there the lock is taken.
\<close>

theorem round_trigger_exclusive:
  assumes "abi_ok A" and "gate_init A s" and "reach (sys_step A fs) s t"
    and "i < length (procs t)" and "j < length (procs t)" and "critical (pc_of t i)" and "critical (pc_of t j)"
  shows "i = j \<and> round_trigger_lock (segm t) \<noteq> 0"
  using gate.reach_inv [OF assms(3) gate_init_inv [OF assms(1,2)]] assms(4-7) by (auto simp: gate_inv_def)

text \<open>Where a mark in the segment comes from: a process inside the gate, or one that ended there.\<close>

definition left_behind :: "kraken_abi \<Rightarrow> (string \<Rightarrow> string option) \<Rightarrow> gate_sys \<Rightarrow> nat \<Rightarrow> gate_sys \<Rightarrow> bool" where
  "left_behind A fs s i t \<longleftrightarrow>
     (\<exists>u clean. reach (sys_step A fs) s u \<and> holding (pc_of u i) \<and> reach (sys_step A fs) (end_process clean i u) t)"

lemma left_behind_step: "left_behind A fs s i t \<Longrightarrow> sys_step A fs t u \<Longrightarrow> left_behind A fs s i u"
  unfolding left_behind_def by (blast intro: reach_step)

lemma mark_step:
  assumes "gate_inv A t" and "sys_step A fs t u" and "i < length (procs t)" and "gate_state (tenants (segm u) ! i) = GATE_KILLER_ACTIVE A"
  shows "holding (pc_of u i) \<or> gate_state (tenants (segm t) ! i) = GATE_KILLER_ACTIVE A \<and>
    (holding (pc_of t i) \<longrightarrow> (\<exists>clean. u = end_process clean i t))"
proof -
  note wf = gate_invD(1,2) [OF assms(1)]
  have len: "length (procs t) = length (tenants (segm t))" using wf(2) by (simp add: sys_wf_def)
  from assms(2) show ?thesis
  proof cases
    case (run k l g now l' g' m')
    have "tenant_idx g = k" using wf(2) run(2,3) unfolding sys_wf_def by (metis snd_conv)
    then show ?thesis using gate_step_owner [OF run(4) wf(1), of i] assms(3,4) len run by (auto simp: nth_list_update)
  next
    case (ends k clean)
    then show ?thesis using assms(3,4) len by (cases "i = k") (auto simp: end_process_def nth_list_update split: prod.splits if_splits)
  next
    case (attach k l g g0 env g1 m' g')
    have "pc l = Outside" using wf(2) attach(2,3,4) unfolding sys_wf_def by (metis fst_conv snd_conv)
    then show ?thesis using register_frame(4) [OF attach(6), of i] assms(3,4) len attach(1,2,3) by (auto simp: nth_list_update holding_def)
  qed (use assms(3,4) len in \<open>auto simp: nth_list_update holding_def scheduler_write_def\<close>)
qed

lemma procs_length: "gate_inv A t \<Longrightarrow> sys_step A fs t u \<Longrightarrow> length (procs u) = length (procs t)"
  by (elim sys_stepE) (auto simp: end_process_def split: prod.splits)

text \<open>
  C15. Every mark has an owner: in every interleaving, with processes that end at any point and
  slots that are taken over again, a tenant shown as \<open>GATE_KILLER_ACTIVE\<close> in the segment is
  one whose process has passed the gate and has not yet released it, unless an earlier process
  of the slot ended in that very stretch. So a peer that spins on the mark waits for a process on
  its way through \<open>gate_killer_exit\<close>, as long as no process ends inside its killer; nothing
  else leaves a mark behind.
\<close>

theorem killer_mark_has_owner:
  assumes "abi_ok A" and "gate_init A s" and "reach (sys_step A fs) s t"
    and "i < length (procs t)" and "gate_state (tenants (segm t) ! i) = GATE_KILLER_ACTIVE A"
  shows "holding (pc_of t i) \<or> (\<exists>u clean. reach (sys_step A fs) s u \<and> holding (pc_of u i) \<and>
    reach (sys_step A fs) (end_process clean i u) t)"
proof -
  note s = gate_init_inv [OF assms(1,2)]
  have "holding (pc_of t i) \<or> left_behind A fs s i t"
    using assms(3-5) s assms(2)
  proof (induction rule: reach.induct)
    case (reach_refl s)
    then show ?case by (simp add: gate_init_def)
  next
    case (reach_step s t u)
    note inv = gate.reach_inv [OF reach_step.hyps(1) reach_step.prems(3)]
    have i: "i < length (procs t)" using procs_length [OF inv reach_step.hyps(2)] reach_step.prems(1) by simp
    show ?case
    proof (cases "holding (pc_of u i)")
      case False
      note m = mark_step [OF inv reach_step.hyps(2) i reach_step.prems(2)]
      then have "holding (pc_of t i) \<or> left_behind A fs s i t" using False reach_step.IH reach_step.prems(3,4) i by blast
      moreover have "left_behind A fs s i u" if "holding (pc_of t i)"
        using that m False reach_step.hyps(1) unfolding left_behind_def by (blast intro: reach.reach_refl)
      ultimately show ?thesis using left_behind_step [OF _ reach_step.hyps(2)] by blast
    qed simp
  qed
  then show ?thesis by (simp add: left_behind_def)
qed

text \<open>A round lock without a holder.\<close>

definition lock_lost :: "gate_sys \<Rightarrow> bool" where
  "lock_lost s \<longleftrightarrow> round_trigger_lock (segm s) \<noteq> 0 \<and> (\<forall>i < length (procs s). \<not> critical (pc_of s i))"

lemma lock_lost_step:
  assumes "lock_lost s" and "sys_step A fs s t"
  shows "lock_lost t"
  using assms(2)
proof cases
  case (run i l g now l' g' m')
  have "\<not> critical (pc l)" using assms(1) run(2,3) unfolding lock_lost_def by (metis fst_conv)
  then show ?thesis using gate_step_lock [OF run(4)] assms(1) run(1,2) by (auto simp: lock_lost_def nth_list_update)
next
  case (attach i l g g0 env g1 m' g')
  then show ?thesis using assms(1) register_frame(1) [OF attach(6)] by (auto simp: lock_lost_def nth_list_update)
qed (use assms(1) in \<open>auto simp: lock_lost_def nth_list_update end_process_def scheduler_write_def split: prod.splits\<close>)

interpretation lost: inductive_invariant "sys_step A fs" lock_lost for A fs
  by unfold_locales (rule lock_lost_step)

text \<open>
  A process that ends between the compare-and-swap on \<open>round_trigger_lock\<close> and its release takes
  the lock with it: the destructor does not give it back, and no process ever starts another
  round, whatever happens afterwards.
\<close>

theorem end_in_round_stops_all_rounds:
  assumes "abi_ok A" and "gate_init A s" and "reach (sys_step A fs) s u" and "i < length (procs u)" and "critical (pc_of u i)"
    and "reach (sys_step A fs) (end_process clean i u) t" and "j < length (procs t)"
  shows "round_trigger_lock (segm t) \<noteq> 0 \<and> \<not> critical (pc_of t j)"
proof -
  note inv = gate.reach_inv [OF assms(3) gate_init_inv [OF assms(1,2)]]
  have "lock_lost (end_process clean i u)"
    using gate_invD(3) [OF inv assms(4,5)] gate_invD(4) [OF inv _ assms(4) _ assms(5)] assms(4)
    by (auto simp: lock_lost_def end_process_def nth_list_update split: prod.splits)
  from lost.reach_inv [OF assms(6) this] show ?thesis using assms(7) by (simp add: lock_lost_def)
qed

section \<open>Schedules\<close>

datatype act = Enter nat | Exit nat | Run nat | End bool nat

fun do_act :: "kraken_abi \<Rightarrow> (string \<Rightarrow> string option) \<Rightarrow> act \<Rightarrow> gate_sys \<Rightarrow> gate_sys" where
  "do_act A fs (Enter i) s = (case procs s ! i of (l, g) \<Rightarrow>
     if i < length (procs s) \<and> g_shm g \<and> pc l = Outside then s\<lparr>procs := (procs s)[i := (goto ProfMode l, g)]\<rparr> else s)"
| "do_act A fs (Exit i) s = (case procs s ! i of (l, g) \<Rightarrow>
     if i < length (procs s) \<and> pc l = Inside then s\<lparr>procs := (procs s)[i := (goto ExitClock l, g)]\<rparr> else s)"
| "do_act A fs (Run i) s = (case procs s ! i of (l, g) \<Rightarrow>
     (case gate_step A fs \<lparr>tv_sec = 0, tv_nsec = 0\<rparr> (l, g, segm s) of (l', g', m') \<Rightarrow>
        if i < length (procs s) then s\<lparr>segm := m', procs := (procs s)[i := (l', g')]\<rparr> else s))"
| "do_act A fs (End clean i) s = (if i < length (procs s) \<and> g_shm (snd (procs s ! i)) then end_process clean i s else s)"

lemma do_act_reach: "reach (sys_step A fs) s (do_act A fs a s)"
  by (cases a) (auto split: prod.splits intro!: reach_one reach_refl sys_step.call_enter sys_step.call_exit sys_step.run sys_step.ends)

lemma schedule_reach: "reach (sys_step A fs) s (fold (do_act A fs) as s)"
proof (induction "as" arbitrary: s)
  case (Cons a "as")
  have "reach (sys_step A fs) (do_act A fs a s) (fold (do_act A fs) (a # as) s)" using Cons by simp
  then show ?case by (rule reach_trans [OF do_act_reach])
qed (simp add: reach_refl)

definition two_tenants :: "int \<Rightarrow> gate_sys" where
  "two_tenants remain = \<lparr>segm = (sample_shm (sample_tenant 0 remain) (sample_tenant 0 remain))
       \<lparr>weights := [Fin 1, Fin 1], round_duration_us := 2\<rparr>,
     procs = [(idle, sample_runtime 0), (idle, sample_runtime 1)]\<rparr>"

lemma two_tenants_init: "gate_init sample_abi (two_tenants r)"
  by (auto simp: gate_init_def two_tenants_def sys_wf_def sample_defs idle_def less_Suc_eq)

definition race_schedule :: "act list" where
  "race_schedule = [Enter 0, Enter 1] @ replicate 6 (Run 0) @ replicate 9 (Run 1) @ replicate 3 (Run 0)"

definition stale_trigger_schedule :: "act list" where
  "stale_trigger_schedule = [Enter 0, Enter 1] @ replicate 14 (Run 0) @ replicate 9 (Run 1) @
     replicate 28 (Run 0) @ replicate 23 (Run 1)"

definition outcome :: "gate_sys \<Rightarrow> gate_pc list \<times> int list" where
  "outcome t = (map (\<lambda>p. pc (fst p)) (procs t), map gate_state (tenants (segm t)))"

lemma outcome_two: "outcome t = ([p, q], [a, b]) \<Longrightarrow>
    pc_of t 0 = p \<and> pc_of t 1 = q \<and> gate_state (tenants (segm t) ! 0) = a \<and> gate_state (tenants (segm t) ! 1) = b"
  by (auto simp: outcome_def)

lemma race_outcome:
  "outcome (fold (do_act sample_abi Map.empty) race_schedule (two_tenants 5)) = ([Inside, Inside], [2, 2])"
  by code_simp

lemma stale_trigger_outcome:
  "outcome (fold (do_act sample_abi Map.empty) stale_trigger_schedule (two_tenants 0)) = ([Inside, Inside], [0, 2])"
  by code_simp

text \<open>
  The entry check is not atomic with the mark: two tenants with time left that scan
  their peers at the same time both find nobody active and both enter, so two killers run at
  once in the overcommit mode.
\<close>

theorem gate_admits_two_killers:
  "\<exists>t. gate_init sample_abi (two_tenants 5) \<and> reach (sys_step sample_abi Map.empty) (two_tenants 5) t \<and>
     pc_of t 0 = Inside \<and> pc_of t 1 = Inside \<and>
     gate_state (tenants (segm t) ! 0) = GATE_KILLER_ACTIVE sample_abi \<and>
     gate_state (tenants (segm t) ! 1) = GATE_KILLER_ACTIVE sample_abi"
  using two_tenants_init schedule_reach outcome_two [OF race_outcome]
  by (intro exI [of _ "fold (do_act sample_abi Map.empty) race_schedule (two_tenants 5)"]) (simp add: sample_abi_def)

text \<open>
  The lock around the start of a round does not protect the decision to start it: a tenant
  that found everybody waiting and acquires the lock after another tenant has already
  started and left the round starts a second one. It then overwrites the mark of a peer that
  is inside its killer, no longer sees it, and enters as well.
\<close>

theorem stale_trigger_clears_mark:
  "\<exists>t. gate_init sample_abi (two_tenants 0) \<and> reach (sys_step sample_abi Map.empty) (two_tenants 0) t \<and>
     pc_of t 0 = Inside \<and> gate_state (tenants (segm t) ! 0) = GATE_RUNNING sample_abi \<and>
     pc_of t 1 = Inside \<and> gate_state (tenants (segm t) ! 1) = GATE_KILLER_ACTIVE sample_abi"
  using two_tenants_init schedule_reach outcome_two [OF stale_trigger_outcome]
  by (intro exI [of _ "fold (do_act sample_abi Map.empty) stale_trigger_schedule (two_tenants 0)"]) (simp add: sample_abi_def)

section \<open>Instances\<close>

theorem uncounted_tenant_never_enters_witness:
  "gate_killer_enter sample_abi Map.empty (replicate 50 (undisturbed (killer_start g_kraken_zero))) (killer_start g_kraken_zero)
     (sample_runtime 1, (sample_shm (sample_tenant 0 5) (sample_tenant 0 0))\<lparr>tenant_count := 1\<rparr>) = None"
  using uncounted_tenant_never_enters [of "sample_runtime 1" "(sample_shm (sample_tenant 0 5) (sample_tenant 0 0))\<lparr>tenant_count := 1\<rparr>"
      sample_abi "replicate 50 (undisturbed (killer_start g_kraken_zero))"]
  by (simp add: ignores_slot_def undisturbed_def sample_defs)

theorem waiting_tenant_ignores_mode_witness:
  "poll (call_body sample_abi Map.empty Inside)
     (map disturb (replicate 50 (killer_start g_kraken_zero, scheduler_write (MODE_FREE sample_abi) 0 [] 1 1)))
     (killer_start g_kraken_zero, goto WaitTest idle, sample_runtime 0, sample_shm (sample_tenant 1 0) (sample_tenant 0 5)) = None"
  using waiting_tenant_ignores_mode [of sample_abi "sample_runtime 0" 1 "sample_shm (sample_tenant 1 0) (sample_tenant 0 5)"
      "replicate 50 (killer_start g_kraken_zero, scheduler_write (MODE_FREE sample_abi) 0 [] 1 1)" Map.empty
      "killer_start g_kraken_zero" idle]
  by (simp add: held_back_def scheduler_write_def sample_defs)

definition sample_critical :: gate_sys where
  "sample_critical = fold (do_act sample_abi Map.empty) ([Enter 0, Enter 1] @ replicate 14 (Run 0) @ replicate 10 (Run 1)) (two_tenants 0)"

lemma sample_critical_outcome: "outcome sample_critical = ([WaitTest, Reload FirstCall], [1, 1])"
  by code_simp

theorem round_trigger_exclusive_witness:
  "(1 :: nat) = 1 \<and> round_trigger_lock (segm sample_critical) \<noteq> 0"
proof (rule round_trigger_exclusive [OF sample_abi_ok two_tenants_init, of Map.empty 0])
  show "reach (sys_step sample_abi Map.empty) (two_tenants 0) sample_critical"
    unfolding sample_critical_def by (rule schedule_reach)
  have "length (procs sample_critical) = length (fst (outcome sample_critical))" by (simp add: outcome_def)
  then show "1 < length (procs sample_critical)" by (simp add: sample_critical_outcome)
  then show "1 < length (procs sample_critical)" .
  show "critical (pc_of sample_critical 1)" using outcome_two [OF sample_critical_outcome] by simp
  then show "critical (pc_of sample_critical 1)" .
qed

theorem end_in_round_stops_all_rounds_witness:
  "round_trigger_lock (segm (end_process True 1 sample_critical)) \<noteq> 0"
proof -
  have r: "reach (sys_step sample_abi Map.empty) (two_tenants 0) sample_critical"
    unfolding sample_critical_def by (rule schedule_reach)
  have "length (procs sample_critical) = length (fst (outcome sample_critical))" by (simp add: outcome_def)
  then have n: "length (procs sample_critical) = 2" by (simp add: sample_critical_outcome)
  then have "0 < length (procs (end_process True 1 sample_critical))" by (auto simp: end_process_def split: prod.splits)
  with n outcome_two [OF sample_critical_outcome] show ?thesis
    using end_in_round_stops_all_rounds [where i = 1 and j = 0 and clean = True, OF sample_abi_ok two_tenants_init r _ _ reach_refl]
    by simp
qed

text \<open>The second tenant ends inside its killer; its mark stays.\<close>

definition sample_orphan :: gate_sys where
  "sample_orphan = fold (do_act sample_abi Map.empty) (race_schedule @ [End True 1]) (two_tenants 5)"

lemma sample_orphan_outcome: "outcome sample_orphan = ([Inside, Outside], [2, 2])"
  by code_simp

theorem killer_mark_has_owner_witness:
  "\<exists>u clean. reach (sys_step sample_abi Map.empty) (two_tenants 5) u \<and> holding (pc_of u 1) \<and>
     reach (sys_step sample_abi Map.empty) (end_process clean 1 u) sample_orphan"
proof -
  have r: "reach (sys_step sample_abi Map.empty) (two_tenants 5) sample_orphan"
    unfolding sample_orphan_def by (rule schedule_reach)
  have "length (procs sample_orphan) = length (fst (outcome sample_orphan))" by (simp add: outcome_def)
  then have "length (procs sample_orphan) = 2" by (simp add: sample_orphan_outcome)
  then show ?thesis
    using killer_mark_has_owner [OF sample_abi_ok two_tenants_init r, of 1] outcome_two [OF sample_orphan_outcome]
    by (simp add: sample_abi_def holding_def)
qed

end
