(* ===== verification/Ledger.thy ===== *)
theory Ledger
  imports Prelude
begin

text \<open>
  The contract of a device memory ledger. Both libraries keep one: the gating library a
  fixed table of 4096 entries (\<open>resource/virtual_mem.cpp\<close>), the interception library a hash
  map (\<open>alloc_size_map\<close> in \<open>libbless.cpp\<close>). A ledger records the size of every live pointer
  beside a 64 bit usage counter that is updated on its own; what the clients rely on is
  that the counter and the recorded sizes never drift apart. The counters wrap, so the laws
  are stated up to \<open>wrap64\<close>.
\<close>

definition live_total :: "('p \<rightharpoonup> int) \<Rightarrow> int" where
  "live_total m = (\<Sum>p \<in> dom m. the (m p))"

lemma live_total_upd:
  "finite (dom m) \<Longrightarrow> m p = None \<Longrightarrow> live_total (m(p \<mapsto> v)) = live_total m + v"
  unfolding live_total_def by (subst dom_fun_upd) (auto simp: sum.insert_if domIff intro!: sum.cong)

lemma live_total_del:
  assumes "finite (dom m)"
  shows "live_total (m(p := None)) = live_total m - (case m p of None \<Rightarrow> 0 | Some v \<Rightarrow> v)"
proof (cases "m p")
  case None
  then show ?thesis by (simp add: fun_upd_idem)
next
  case (Some v)
  have "live_total m = live_total ((m(p := None))(p \<mapsto> v))"
    using Some by (simp add: fun_upd_idem)
  also have "\<dots> = live_total (m(p := None)) + v"
    using assms by (intro live_total_upd) auto
  finally show ?thesis using Some by simp
qed

lemma live_total_nonneg: "(\<And>p v. m p = Some v \<Longrightarrow> 0 < v) \<Longrightarrow> 0 \<le> live_total m"
  unfolding live_total_def by (rule sum_nonneg) fastforce

lemma live_total_empty [simp]: "live_total (\<lambda>_. None) = 0"
  by (simp add: live_total_def)

text \<open>Pointers are addresses; null is address 0.\<close>

definition nonnull :: "nat \<Rightarrow> bool" where
  "nonnull p \<longleftrightarrow> p \<noteq> 0"

text \<open>Sequences of allocations and releases, run by a pair of operations.\<close>

datatype 'p mem_event = Alloc 'p nat | Free 'p

fun mem_step :: "('p \<Rightarrow> nat \<Rightarrow> 's \<Rightarrow> 's) \<Rightarrow> ('p \<Rightarrow> 's \<Rightarrow> 's) \<Rightarrow> 'p mem_event \<Rightarrow> 's \<Rightarrow> 's" where
  "mem_step add rem (Alloc p n) s = add p n s"
| "mem_step add rem (Free p) s = rem p s"

fun mem_run :: "('p \<Rightarrow> nat \<Rightarrow> 's \<Rightarrow> 's) \<Rightarrow> ('p \<Rightarrow> 's \<Rightarrow> 's) \<Rightarrow> 'p mem_event list \<Rightarrow> 's \<Rightarrow> 's" where
  "mem_run add rem [] s = s"
| "mem_run add rem (e # es) s = mem_run add rem es (mem_step add rem e s)"

text \<open>Every event of the sequence satisfies \<open>ok\<close> in the state in which it is run.\<close>

fun mem_run_ok :: "('s \<Rightarrow> 'p mem_event \<Rightarrow> bool) \<Rightarrow> ('p \<Rightarrow> nat \<Rightarrow> 's \<Rightarrow> 's) \<Rightarrow> ('p \<Rightarrow> 's \<Rightarrow> 's) \<Rightarrow>
    'p mem_event list \<Rightarrow> 's \<Rightarrow> bool" where
  "mem_run_ok ok add rem [] s = True"
| "mem_run_ok ok add rem (e # es) s = (ok s e \<and> mem_run_ok ok add rem es (mem_step add rem e s))"

text \<open>
  \<open>wf\<close>: the representation invariant. \<open>ok s p n\<close>: the ledger can record the allocation of \<open>n\<close>
  bytes at \<open>p\<close>. \<open>live\<close>: the recorded sizes. \<open>used\<close>: the counter. \<open>valid_ptr\<close>: not null.
\<close>

locale ledger =
  fixes wf :: "'s \<Rightarrow> bool" and ok :: "'s \<Rightarrow> 'p \<Rightarrow> nat \<Rightarrow> bool" and valid_ptr :: "'p \<Rightarrow> bool"
    and live :: "'s \<Rightarrow> 'p \<Rightarrow> int option" and used :: "'s \<Rightarrow> int"
    and add :: "'p \<Rightarrow> nat \<Rightarrow> 's \<Rightarrow> 's" and rem :: "'p \<Rightarrow> 's \<Rightarrow> 's"
  assumes finite_live: "wf s \<Longrightarrow> finite (dom (live s))"
    and ok_fresh: "ok s p n \<Longrightarrow> live s p = None \<and> valid_ptr p \<and> 0 < n"
    and add_wf: "wf s \<Longrightarrow> ok s p n \<Longrightarrow> wf (add p n s)"
    and add_live: "wf s \<Longrightarrow> ok s p n \<Longrightarrow> live (add p n s) = (live s)(p \<mapsto> wrap64 (int n))"
    and add_used: "wf s \<Longrightarrow> ok s p n \<Longrightarrow> used (add p n s) = wrap64 (used s + int n)"
    and rem_wf: "wf s \<Longrightarrow> valid_ptr p \<Longrightarrow> wf (rem p s)"
    and rem_live: "wf s \<Longrightarrow> valid_ptr p \<Longrightarrow> live (rem p s) = (live s)(p := None)"
    and rem_used: "wf s \<Longrightarrow> valid_ptr p \<Longrightarrow>
      used (rem p s) = (case live s p of None \<Rightarrow> used s | Some v \<Rightarrow> wrap64 (used s - v))"
begin

definition accounted :: "'s \<Rightarrow> bool" where
  "accounted s \<longleftrightarrow> wf s \<and> used s = wrap64 (live_total (live s))"

fun ev_ok :: "'s \<Rightarrow> 'p mem_event \<Rightarrow> bool" where
  "ev_ok s (Alloc p n) = ok s p n"
| "ev_ok s (Free p) = valid_ptr p"

lemma wrap64_live_add: "wrap64 (a + wrap64 b) = wrap64 (a + b)"
  by (metis add.commute wrap64_add_left)

lemma wrap64_live_diff: "wrap64 (wrap64 a - b) = wrap64 (a - b)"
  by simp

lemma accounted_step: "accounted s \<Longrightarrow> ev_ok s e \<Longrightarrow> accounted (mem_step add rem e s)"
proof (cases e)
  case (Alloc p n)
  assume a: "accounted s" and ok: "ev_ok s e"
  with Alloc show ?thesis
    by (simp add: accounted_def add_wf add_live add_used live_total_upd finite_live wrap64_live_add
        ok_fresh [THEN conjunct1])
next
  case (Free p)
  assume a: "accounted s" and ok: "ev_ok s e"
  with Free have "accounted (rem p s)"
    by (cases "live s p") (simp_all add: accounted_def rem_wf rem_live rem_used live_total_del finite_live)
  with Free show ?thesis by simp
qed

theorem accounted_run:
  "accounted s \<Longrightarrow> mem_run_ok ev_ok add rem es s \<Longrightarrow> accounted (mem_run add rem es s)"
  by (induction es arbitrary: s) (auto intro: accounted_step)

theorem used_after_run:
  "wf s \<Longrightarrow> used s = wrap64 (live_total (live s)) \<Longrightarrow> mem_run_ok ev_ok add rem es s \<Longrightarrow>
   used (mem_run add rem es s) = wrap64 (live_total (live (mem_run add rem es s)))"
  using accounted_run [of s es] by (auto simp: accounted_def)

theorem add_rem_used:
  assumes "wf s" "ok s p n" "in_i64 (used s)"
  shows "used (rem p (add p n s)) = used s"
proof -
  have "wf (add p n s)" and "live (add p n s) p = Some (wrap64 (int n))" and "valid_ptr p"
    using assms ok_fresh by (simp_all add: add_wf add_live)
  then have "used (rem p (add p n s)) = wrap64 (wrap64 (used s + int n) - wrap64 (int n))"
    using assms by (simp add: rem_used add_used)
  also have "\<dots> = wrap64 (used s + int n - int n)"
    by (metis minus_diff_eq uminus_add_conv_diff wrap64_diff_left wrap64_live_add diff_conv_add_uminus
        diff_add_cancel add_diff_cancel_right')
  finally show ?thesis using assms(3) by (simp add: wrap64_id)
qed

end

text \<open>A ledger whose allocations are admitted by a quota check.\<close>

locale quota_ledger = ledger wf ok valid_ptr live used add rem
  for wf :: "'s \<Rightarrow> bool" and ok :: "'s \<Rightarrow> 'p \<Rightarrow> nat \<Rightarrow> bool" and valid_ptr :: "'p \<Rightarrow> bool"
    and live :: "'s \<Rightarrow> 'p \<Rightarrow> int option" and used :: "'s \<Rightarrow> int"
    and add :: "'p \<Rightarrow> nat \<Rightarrow> 's \<Rightarrow> 's" and rem :: "'p \<Rightarrow> 's \<Rightarrow> 's" +
  fixes limit :: "'s \<Rightarrow> int" and check :: "nat \<Rightarrow> 's \<Rightarrow> bool"
  assumes check_sound: "wf s \<Longrightarrow> 0 \<le> used s \<Longrightarrow> in_i64 (used s + int n) \<Longrightarrow> check n s \<Longrightarrow>
      used s + int n \<le> limit s"
    and limit_add: "wf s \<Longrightarrow> limit (add p n s) = limit s"
    and limit_rem: "wf s \<Longrightarrow> limit (rem p s) = limit s"
begin

definition guarded_add :: "'p \<Rightarrow> nat \<Rightarrow> 's \<Rightarrow> 's" where
  "guarded_add p n s = (if check n s then add p n s else s)"

fun fits :: "'s \<Rightarrow> 'p mem_event \<Rightarrow> bool" where
  "fits s (Alloc p n) = (ok s p n \<and> in_i64 (used s + int n))"
| "fits s (Free p) = valid_ptr p"

definition in_quota :: "'s \<Rightarrow> bool" where
  "in_quota s \<longleftrightarrow> wf s \<and> used s = live_total (live s) \<and> (\<forall>p v. live s p = Some v \<longrightarrow> 0 < v) \<and>
     in_i64 (used s) \<and> used s \<le> limit s"

lemma in_quota_nonneg: "in_quota s \<Longrightarrow> 0 \<le> used s"
  by (auto simp: in_quota_def intro: live_total_nonneg)

lemma in_quota_guarded:
  "in_quota s \<Longrightarrow> fits s e \<Longrightarrow>
   in_quota (mem_step guarded_add rem e s) \<and> limit (mem_step guarded_add rem e s) = limit s"
proof (cases e)
  case (Alloc p n)
  assume q: "in_quota s" and f: "fits s e"
  show ?thesis
  proof (cases "check n s")
    case True
    have n: "in_i64 (int n)" using q f Alloc in_quota_nonneg [OF q] by (simp add: in_i64_def)
    have fr: "live s p = None" "0 < n" using f Alloc ok_fresh by auto
    have "used s + int n \<le> limit s"
      using q f Alloc True in_quota_nonneg [OF q] by (intro check_sound) (auto simp: in_quota_def)
    with True Alloc q f n fr show ?thesis
      by (auto simp: guarded_add_def in_quota_def add_wf add_live add_used live_total_upd finite_live limit_add wrap64_id)
  next
    case False
    with Alloc q show ?thesis by (simp add: guarded_add_def)
  qed
next
  case (Free p)
  assume q: "in_quota s" and f: "fits s e"
  then have w: "wf s" and v: "valid_ptr p" using Free by (auto simp: in_quota_def)
  have nn: "0 \<le> live_total ((live s)(p := None))"
    using q by (intro live_total_nonneg) (auto simp: in_quota_def split: if_splits)
  show ?thesis
  proof (cases "live s p")
    case None
    with Free q w v show ?thesis
      by (auto simp: in_quota_def rem_wf rem_live rem_used limit_rem fun_upd_idem)
  next
    case (Some u)
    have d: "live_total ((live s)(p := None)) = used s - u"
      using q Some by (simp add: in_quota_def live_total_del finite_live)
    have u: "0 < u" using q Some by (auto simp: in_quota_def)
    have i: "in_i64 (used s - u)" using q d nn u by (auto simp: in_quota_def in_i64_def)
    have le: "used s - u \<le> limit s" using q u by (simp add: in_quota_def)
    with i Free q w v Some d show ?thesis
      by (auto simp: in_quota_def rem_wf rem_live rem_used limit_rem wrap64_id)
  qed
qed

theorem guarded_run_in_quota:
  "in_quota s \<Longrightarrow> mem_run_ok fits guarded_add rem es s \<Longrightarrow>
   in_quota (mem_run guarded_add rem es s) \<and> limit (mem_run guarded_add rem es s) = limit s"
proof (induction es arbitrary: s)
  case (Cons e es)
  with in_quota_guarded [of s e] show ?case by auto
qed simp

theorem guarded_run_bounded:
  "in_quota s \<Longrightarrow> mem_run_ok fits guarded_add rem es s \<Longrightarrow>
   0 \<le> used (mem_run guarded_add rem es s) \<and> used (mem_run guarded_add rem es s) \<le> limit s"
  using guarded_run_in_quota [of s es] in_quota_nonneg by (auto simp: in_quota_def)

end

end
