(* ===== verification/VirtualRes.thy ===== *)
theory VirtualRes
  imports KrakenShm Ledger
begin

text \<open>
  \<open>resource/virtual_mem.cpp\<close> and \<open>resource/virtual_sm.cpp\<close>: the per-process table of device
  allocations, the tenant's memory quota, and the overcommit test. The static variables
  \<open>alloc_table\<close> and \<open>alloc_table_size\<close> are the list of the used prefix of the table; a null
  pointer marks a slot that was released. The table is an instance of the ledger contract.
\<close>

section \<open>Model\<close>

definition MAX_ALLOC_ENTRIES :: nat where "MAX_ALLOC_ENTRIES = 4096"

record process = KrakenRuntime +
  alloc_table :: "(nat \<times> int) list"

type_synonym vmem = "process \<times> KrakenSharedState"

definition quota_bytes :: "vmem \<Rightarrow> int" where
  "quota_bytes = (\<lambda>(p, m).
     if \<not> g_shm p then INT64_MAX
     else let mb = virtual_mem_mb (alloc m ! tenant_idx p)
          in if mb > 0 then wrap64 (mb * 1024 * 1024) else INT64_MAX)"

definition vmem_check_alloc :: "nat \<Rightarrow> vmem \<Rightarrow> bool" where
  "vmem_check_alloc bytes v =
     (let limit = quota_bytes v in
      if limit = INT64_MAX then True
      else wrap64 (mem_used_bytes (fst v) + wrap64 (int bytes)) \<le> limit)"

definition table_record :: "nat \<Rightarrow> nat \<Rightarrow> (nat \<times> int) list \<Rightarrow> (nat \<times> int) list" where
  "table_record ptr bytes tab = (case first_index (\<lambda>e. fst e = 0) tab of
      Some i \<Rightarrow> tab[i := (ptr, wrap64 (int bytes))]
    | None \<Rightarrow> if length tab < MAX_ALLOC_ENTRIES then tab @ [(ptr, wrap64 (int bytes))] else tab)"

definition vmem_track_alloc :: "nat \<Rightarrow> nat \<Rightarrow> vmem \<Rightarrow> vmem" where
  "vmem_track_alloc ptr bytes = (\<lambda>(p, m).
     if ptr = 0 \<or> bytes = 0 then (p, m)
     else (p\<lparr>alloc_table := table_record ptr bytes (alloc_table p),
             mem_used_bytes := wrap64 (mem_used_bytes p + int bytes)\<rparr>,
           if g_shm p
           then upd_tenant (tenant_idx p) (\<lambda>t. t\<lparr>stat_mem_used_bytes := wrap64 (stat_mem_used_bytes t + int bytes)\<rparr>) m
           else m))"

definition vmem_track_free :: "nat \<Rightarrow> vmem \<Rightarrow> vmem" where
  "vmem_track_free ptr = (\<lambda>(p, m).
     if ptr = 0 then (p, m)
     else case first_index (\<lambda>e. fst e = ptr) (alloc_table p) of
       None \<Rightarrow> (p, m)
     | Some i \<Rightarrow>
         let sz = snd (alloc_table p ! i) in
         (p\<lparr>alloc_table := (alloc_table p)[i := (0, 0)],
            mem_used_bytes := wrap64 (mem_used_bytes p - sz)\<rparr>,
          if g_shm p
          then upd_tenant (tenant_idx p) (\<lambda>t. t\<lparr>stat_mem_used_bytes := wrap64 (stat_mem_used_bytes t - sz)\<rparr>) m
          else m))"

definition resource_is_overcommit :: "KrakenRuntime \<Rightarrow> KrakenSharedState \<Rightarrow> bool" where
  "resource_is_overcommit g m = (if \<not> g_shm g then False else virtual_sm_total m > physical_sm_total m)"

section \<open>The table as a ledger\<close>

definition table_live :: "(nat \<times> int) list \<Rightarrow> nat \<Rightarrow> int option" where
  "table_live tab p = (if p = 0 then None else map_of tab p)"

definition table_wf :: "(nat \<times> int) list \<Rightarrow> bool" where
  "table_wf tab \<longleftrightarrow> length tab \<le> MAX_ALLOC_ENTRIES \<and> distinct (filter (\<lambda>p. p \<noteq> 0) (map fst tab))"

definition table_room :: "(nat \<times> int) list \<Rightarrow> bool" where
  "table_room tab \<longleftrightarrow> 0 \<in> fst ` set tab \<or> length tab < MAX_ALLOC_ENTRIES"

lemma table_live_Nil [simp]: "table_live [] = (\<lambda>_. None)"
  by (simp add: table_live_def fun_eq_iff)

lemma map_of_update_other:
  "i < length tab \<Longrightarrow> q \<noteq> fst (tab ! i) \<Longrightarrow> q \<noteq> fst e \<Longrightarrow> map_of (tab[i := e]) q = map_of tab q"
  by (induction tab arbitrary: i) (auto split: nat.split)

lemma map_of_update_same:
  "i < length tab \<Longrightarrow> q \<notin> fst ` set tab \<Longrightarrow> map_of (tab[i := (q, v)]) q = Some v"
  by (induction tab arbitrary: i) (auto split: nat.split)

lemma table_live_record:
  assumes "table_live tab p = None" and "p \<noteq> 0" and "table_room tab"
  shows "table_live (table_record p n tab) = (table_live tab)(p \<mapsto> wrap64 (int n))"
proof (cases "first_index (\<lambda>e. fst e = 0) tab")
  case None
  then have "0 \<notin> fst ` set tab" by (auto simp: first_index_None_iff)
  then have "length tab < MAX_ALLOC_ENTRIES" using assms by (simp add: table_room_def)
  with None assms show ?thesis
    by (auto simp: table_record_def table_live_def fun_eq_iff map_add_def split: option.splits)
next
  case (Some i)
  note i = first_index_SomeD [OF Some]
  have "p \<notin> fst ` set tab" using assms by (simp add: table_live_def map_of_eq_None_iff)
  with i have "map_of (tab[i := (p, wrap64 (int n))]) p = Some (wrap64 (int n))"
    by (intro map_of_update_same) auto
  moreover have "map_of (tab[i := (p, wrap64 (int n))]) q = map_of tab q" if "q \<noteq> p" "q \<noteq> 0" for q
    using i that by (intro map_of_update_other) auto
  ultimately show ?thesis using Some assms(2)
    by (auto simp: table_record_def table_live_def fun_eq_iff)
qed

lemma distinct_nonnull_update:
  "i < length ps \<Longrightarrow> distinct (filter (\<lambda>p. p \<noteq> 0) ps) \<Longrightarrow> q = 0 \<or> q \<notin> set ps \<Longrightarrow>
   distinct (filter (\<lambda>p. p \<noteq> (0::nat)) (ps[i := q]))"
proof (induction ps arbitrary: i)
  case (Cons a ps)
  show ?case
  proof (cases i)
    case 0
    with Cons.prems show ?thesis by (auto split: if_splits)
  next
    case (Suc k)
    have "distinct (filter (\<lambda>p. p \<noteq> 0) (ps[k := q]))"
      using Cons.prems Suc by (intro Cons.IH) (auto split: if_splits)
    moreover have "a \<noteq> 0 \<longrightarrow> a \<notin> set (ps[k := q])"
      using Cons.prems Suc set_update_subset_insert [of ps k q] by (auto split: if_splits)
    ultimately show ?thesis using Suc by simp
  qed
qed simp

lemma table_wf_record:
  assumes "table_wf tab" and "table_live tab p = None" and "p \<noteq> 0"
  shows "table_wf (table_record p n tab)"
proof -
  have p: "p \<notin> set (map fst tab)" using assms by (simp add: table_live_def map_of_eq_None_iff)
  show ?thesis
  proof (cases "first_index (\<lambda>e. fst e = 0) tab")
    case None
    with assms p show ?thesis by (auto simp: table_record_def table_wf_def)
  next
    case (Some i)
    note i = first_index_SomeD [OF Some]
    have "distinct (filter (\<lambda>p. p \<noteq> 0) ((map fst tab)[i := p]))"
      using assms i p by (intro distinct_nonnull_update) (auto simp: table_wf_def)
    with Some assms show ?thesis by (simp add: table_record_def table_wf_def map_update)
  qed
qed

lemma table_wf_clear:
  assumes "table_wf tab" and "i < length tab"
  shows "table_wf (tab[i := (0, 0)])"
proof -
  have "distinct (filter (\<lambda>p. p \<noteq> 0) ((map fst tab)[i := 0]))"
    using assms by (intro distinct_nonnull_update) (auto simp: table_wf_def)
  then show ?thesis using assms by (simp add: table_wf_def map_update)
qed

lemma nonnull_clear_notin:
  "i < length ps \<Longrightarrow> distinct (filter (\<lambda>p. p \<noteq> 0) ps) \<Longrightarrow> ps ! i \<noteq> (0::nat) \<Longrightarrow> ps ! i \<notin> set (ps[i := 0])"
proof (induction ps arbitrary: i)
  case (Cons a ps)
  show ?case
  proof (cases i)
    case 0
    with Cons.prems show ?thesis by (auto split: if_splits)
  next
    case (Suc k)
    have "ps ! k \<notin> set (ps[k := 0])"
      using Cons.prems Suc by (intro Cons.IH) (auto split: if_splits)
    moreover have "a \<noteq> ps ! k" using Cons.prems Suc by (auto split: if_splits)
    ultimately show ?thesis using Suc by simp
  qed
qed simp

lemma table_live_clear:
  assumes "table_wf tab" and "first_index (\<lambda>e. fst e = p) tab = Some i" and "p \<noteq> 0"
  shows "table_live (tab[i := (0, 0)]) = (table_live tab)(p := None)"
    and "table_live tab p = Some (snd (tab ! i))"
proof -
  note i = first_index_SomeD [OF assms(2)]
  have "p \<notin> set ((map fst tab)[i := 0])"
    using nonnull_clear_notin [of i "map fst tab"] i assms by (auto simp: table_wf_def)
  then have "map_of (tab[i := (0, 0)]) p = None"
    by (simp add: map_of_eq_None_iff flip: map_update)
       (metis fst_conv image_set map_update)
  moreover have "map_of (tab[i := (0, 0)]) q = map_of tab q" if "q \<noteq> p" "q \<noteq> 0" for q
    using i that by (intro map_of_update_other) auto
  ultimately show "table_live (tab[i := (0, 0)]) = (table_live tab)(p := None)"
    by (auto simp: table_live_def fun_eq_iff)
  have "map_of tab p = Some (snd (tab ! i))" if "first_index (\<lambda>e. fst e = p) tab = Some i" for tab i
    using that by (induction tab arbitrary: i) (auto split: if_splits)
  then show "table_live tab p = Some (snd (tab ! i))"
    using assms by (simp add: table_live_def)
qed

definition vmem_wf :: "vmem \<Rightarrow> bool" where
  "vmem_wf v \<longleftrightarrow> table_wf (alloc_table (fst v))"

definition vmem_live :: "vmem \<Rightarrow> nat \<Rightarrow> int option" where
  "vmem_live v = table_live (alloc_table (fst v))"

definition vmem_ok :: "vmem \<Rightarrow> nat \<Rightarrow> nat \<Rightarrow> bool" where
  "vmem_ok v p n \<longleftrightarrow> table_room (alloc_table (fst v)) \<and> p \<noteq> 0 \<and> vmem_live v p = None \<and> 0 < n"

abbreviation vmem_used :: "vmem \<Rightarrow> int" where
  "vmem_used v \<equiv> mem_used_bytes (fst v)"

lemmas vmem_defs = vmem_wf_def vmem_ok_def vmem_live_def

lemma quota_bytes_track [simp]:
  "quota_bytes (vmem_track_alloc p n v) = quota_bytes v"
  "quota_bytes (vmem_track_free p v) = quota_bytes v"
  by (auto simp: quota_bytes_def vmem_track_alloc_def vmem_track_free_def Let_def
      split: prod.splits option.splits)

lemma vmem_check_sound:
  "0 \<le> vmem_used v \<Longrightarrow> in_i64 (vmem_used v + int n) \<Longrightarrow> vmem_check_alloc n v \<Longrightarrow>
   vmem_used v + int n \<le> quota_bytes v"
  by (auto simp: vmem_check_alloc_def Let_def wrap64_id in_i64_def split: if_splits)

lemma finite_table_live: "finite (dom (table_live tab))"
proof (rule finite_subset)
  show "dom (table_live tab) \<subseteq> dom (map_of tab)" by (auto simp: table_live_def split: if_splits)
qed (rule finite_dom_map_of)

lemma vmem_free_cases:
  assumes "vmem_wf v" and "p \<noteq> 0"
  shows "vmem_wf (vmem_track_free p v)"
    and "vmem_live (vmem_track_free p v) = (vmem_live v)(p := None)"
    and "vmem_used (vmem_track_free p v) =
      (case vmem_live v p of None \<Rightarrow> vmem_used v | Some sz \<Rightarrow> wrap64 (vmem_used v - sz))"
proof -
  obtain q m where v: "v = (q, m)" by force
  let ?tab = "alloc_table q"
  have wf: "table_wf ?tab" using assms v by (simp add: vmem_wf_def)
  have "vmem_wf (vmem_track_free p v) \<and> vmem_live (vmem_track_free p v) = (vmem_live v)(p := None) \<and>
    vmem_used (vmem_track_free p v) =
      (case vmem_live v p of None \<Rightarrow> vmem_used v | Some sz \<Rightarrow> wrap64 (vmem_used v - sz))"
  proof (cases "first_index (\<lambda>e. fst e = p) ?tab")
    case None
    then have "p \<notin> fst ` set ?tab" by (auto simp: first_index_None_iff)
    then have "table_live ?tab p = None" by (simp add: table_live_def map_of_eq_None_iff)
    with None assms v show ?thesis by (simp add: vmem_track_free_def vmem_defs fun_upd_idem)
  next
    case (Some i)
    from first_index_SomeD [OF Some] have "table_wf (?tab[i := (0, 0)])"
      using wf by (simp add: table_wf_clear)
    with Some assms(2) v table_live_clear [OF wf Some] show ?thesis
      by (simp add: vmem_track_free_def vmem_defs Let_def)
  qed
  then show "vmem_wf (vmem_track_free p v)"
    and "vmem_live (vmem_track_free p v) = (vmem_live v)(p := None)"
    and "vmem_used (vmem_track_free p v) =
      (case vmem_live v p of None \<Rightarrow> vmem_used v | Some sz \<Rightarrow> wrap64 (vmem_used v - sz))"
    by auto
qed

lemma vmem_alloc_facts:
  assumes "p \<noteq> 0" and "0 < n"
  shows "alloc_table (fst (vmem_track_alloc p n v)) = table_record p n (alloc_table (fst v))"
    and "vmem_used (vmem_track_alloc p n v) = wrap64 (vmem_used v + int n)"
  using assms by (cases v; simp add: vmem_track_alloc_def)+

interpretation vm: quota_ledger vmem_wf vmem_ok nonnull vmem_live vmem_used
  vmem_track_alloc vmem_track_free quota_bytes vmem_check_alloc
proof (unfold_locales, goal_cases)
  case (1 s)
  show ?case by (simp add: vmem_live_def finite_table_live)
next
  case (3 s p n)
  then show ?case by (simp add: vmem_defs vmem_alloc_facts table_wf_record)
next
  case (4 s p n)
  then show ?case by (simp add: vmem_defs vmem_alloc_facts table_live_record)
qed (simp_all add: nonnull_def vmem_ok_def vmem_alloc_facts vmem_free_cases vmem_check_sound)

fun vmem_event_ok :: "vmem \<Rightarrow> nat mem_event \<Rightarrow> bool" where
  "vmem_event_ok v (Alloc p n) = vmem_ok v p n"
| "vmem_event_ok v (Free p) = nonnull p"

lemma vmem_event_ok_eq: "vmem_event_ok = vm.ev_ok"
proof (intro ext)
  show "vmem_event_ok v e = vm.ev_ok v e" for v e by (cases e) simp_all
qed

section \<open>Properties\<close>

text \<open>
  The process usage counter that the quota is checked against is exact: after any
  sequence of recorded allocations and releases that starts from a consistent table and
  never overflows it, the counter equals (up to the 64 bit wrap-around) the sum of the
  sizes of the pointers that the table holds, whatever slots were reused on the way.
\<close>

theorem vmem_counter_exact:
  assumes "vmem_wf v" and "vmem_used v = wrap64 (live_total (vmem_live v))"
    and "mem_run_ok vmem_event_ok vmem_track_alloc vmem_track_free evs v"
  shows "vmem_used (mem_run vmem_track_alloc vmem_track_free evs v) =
    wrap64 (live_total (vmem_live (mem_run vmem_track_alloc vmem_track_free evs v)))"
  using assms unfolding vmem_event_ok_eq by (rule vm.used_after_run)

definition sample_vmem :: vmem where
  "sample_vmem = (KrakenRuntime.extend (sample_runtime 0) \<lparr>alloc_table = []\<rparr>,
     sample_shm (sample_tenant 0 1000) (sample_tenant 0 1000))"

theorem vmem_counter_exact_witness:
  "vmem_used (mem_run vmem_track_alloc vmem_track_free
     [Alloc 16 100, Alloc 32 50, Free 16, Alloc 48 7] sample_vmem) = 57"
proof -
  let ?evs = "[Alloc 16 100, Alloc 32 50, Free 16, Alloc 48 7]"
  let ?fin = "mem_run vmem_track_alloc vmem_track_free ?evs sample_vmem"
  note defs = sample_vmem_def sample_defs vmem_track_alloc_def vmem_track_free_def table_record_def
    MAX_ALLOC_ENTRIES_def KrakenRuntime.defs Let_def
  have "vmem_wf sample_vmem" and "vmem_used sample_vmem = wrap64 (live_total (vmem_live sample_vmem))"
    by (simp_all add: defs vmem_defs table_wf_def)
  moreover have "mem_run_ok vmem_event_ok vmem_track_alloc vmem_track_free ?evs sample_vmem"
    by (simp add: defs vmem_defs table_room_def table_live_def nonnull_def)
  ultimately have "vmem_used ?fin = wrap64 (live_total (vmem_live ?fin))"
    by (rule vmem_counter_exact)
  also have "vmem_live ?fin = [48 \<mapsto> 7, 32 \<mapsto> 50]"
    by (auto simp: defs vmem_live_def table_live_def wrap64_def fun_eq_iff)
  also have "live_total ([48 \<mapsto> 7, 32 \<mapsto> 50] :: nat \<rightharpoonup> int) = 57"
    by (simp add: live_total_def)
  finally show ?thesis by (simp add: wrap64_def)
qed

text \<open>
  A full table leaks quota: when all 4096 slots hold live pointers, a further allocation
  is counted but not recorded, so the release of that pointer gives nothing back and the
  usage counter stays too high by its size.
\<close>

theorem vmem_full_table_leaks:
  assumes "vmem_wf v" and "\<not> table_room (alloc_table (fst v))"
    and "vmem_live v p = None" and "p \<noteq> 0" and "0 < n"
  shows "vmem_used (vmem_track_free p (vmem_track_alloc p n v)) = wrap64 (vmem_used v + int n) \<and>
    vmem_live (vmem_track_free p (vmem_track_alloc p n v)) = vmem_live v"
proof -
  let ?w = "vmem_track_alloc p n v"
  have "first_index (\<lambda>e. fst e = 0) (alloc_table (fst v)) = None"
    using assms(2) by (auto simp: table_room_def first_index_None_iff image_iff)
  then have tab: "alloc_table (fst ?w) = alloc_table (fst v)"
    using assms by (simp add: vmem_alloc_facts table_record_def table_room_def)
  then have "vmem_wf ?w" and "vmem_live ?w = vmem_live v"
    using assms by (simp_all add: vmem_wf_def vmem_live_def)
  then show ?thesis
    using vmem_free_cases(2,3) [of ?w p] vmem_alloc_facts(2) [of p n v] assms
    by (simp add: fun_upd_idem)
qed

theorem vmem_full_table_leaks_witness:
  "let full = map (\<lambda>i. (Suc i, 1)) [0..<4096];
       v = (fst sample_vmem\<lparr>alloc_table := full, mem_used_bytes := 4096\<rparr>, snd sample_vmem)
   in vmem_used (vmem_track_free 5000 (vmem_track_alloc 5000 8 v)) = 4104"
proof -
  let ?full = "map (\<lambda>i. (Suc i, 1)) [0..<4096] :: (nat \<times> int) list"
  let ?v = "(fst sample_vmem\<lparr>alloc_table := ?full, mem_used_bytes := 4096\<rparr>, snd sample_vmem)"
  have "vmem_wf ?v"
    by (simp add: vmem_wf_def table_wf_def MAX_ALLOC_ENTRIES_def comp_def distinct_map filter_map)
  moreover have "\<not> table_room (alloc_table (fst ?v))"
    by (simp add: table_room_def MAX_ALLOC_ENTRIES_def image_iff)
  moreover have "vmem_live ?v 5000 = None"
    by (auto simp: vmem_live_def table_live_def map_of_eq_None_iff)
  ultimately have "vmem_used (vmem_track_free 5000 (vmem_track_alloc 5000 8 ?v)) = wrap64 (4096 + int 8)"
    using vmem_full_table_leaks [of ?v 5000 8] by simp
  then show ?thesis by (simp add: wrap64_def)
qed

end
