(* ===== verification/CudaHooks.thy ===== *)
theory CudaHooks
  imports GateSystem ShmClient VirtualRes
begin

text \<open>
  \<open>hooks/cuda_hooks.cpp\<close>: symbol interposition (\<open>dlsym\<close>, \<open>cuGetProcAddress_v2\<close>), the three
  launch hooks around the gate and the four memory hooks around the quota. The CUDA driver
  and the dynamic linker are not part of the repository; what they answer during one call is
  the record \<open>driver\<close>, and what the hooks pass on to them is recorded in \<open>calls\<close>.
\<close>

section \<open>Symbol lookup\<close>

datatype dl_handle = RTLD_NEXT | RTLD_DEFAULT | Handle nat

text \<open>A function pointer: null, one of the hooks of this library, or a function of another one.\<close>

datatype fn_ptr = Null | Hook string | Foreign string

definition dlsym :: "bool \<Rightarrow> (dl_handle \<Rightarrow> string \<Rightarrow> fn_ptr) \<Rightarrow> dl_handle \<Rightarrow> string \<Rightarrow> fn_ptr" where
  "dlsym have_real real_dlsym h symbol =
     (if \<not> have_real then Null
      else if h \<noteq> RTLD_NEXT \<and> h \<noteq> RTLD_DEFAULT \<and> symbol = ''cuLaunchKernel'' then Hook ''cuLaunchKernel''
      else if h \<noteq> RTLD_NEXT \<and> h \<noteq> RTLD_DEFAULT \<and> symbol = ''cuLaunchKernelEx'' then Hook ''cuLaunchKernelEx''
      else if h \<noteq> RTLD_NEXT \<and> h \<noteq> RTLD_DEFAULT \<and> (symbol = ''cuGetProcAddress_v2'' \<or> symbol = ''cuGetProcAddress'')
      then Hook ''cuGetProcAddress_v2''
      else real_dlsym h symbol)"

text \<open>\<open>LAZY_RESOLVE\<close>: a pointer that is not null is kept, otherwise it is looked up.\<close>

definition LAZY_RESOLVE :: "bool \<Rightarrow> (dl_handle \<Rightarrow> string \<Rightarrow> fn_ptr) \<Rightarrow> string \<Rightarrow> fn_ptr \<Rightarrow> fn_ptr" where
  "LAZY_RESOLVE have_real real_dlsym symbol ptr =
     (if ptr \<noteq> Null then ptr
      else if have_real then real_dlsym RTLD_NEXT symbol else dlsym have_real real_dlsym RTLD_NEXT symbol)"

definition ptsz_variant :: "string \<Rightarrow> string \<Rightarrow> bool" where
  "ptsz_variant symbol base \<longleftrightarrow> starts_with symbol base \<and> (drop (length base) symbol = [] \<or> drop (length base) symbol = ''_ptsz'')"

text \<open>
  \<open>real_fn\<close> is the pointer to the driver's function, \<open>answer\<close> its result code and the pointer it
  stores through \<open>pfn\<close>; \<open>None\<close> for \<open>pfn\<close> is a null out parameter.
\<close>

definition CUDA_SUCCESS :: int where "CUDA_SUCCESS = 0"
definition CUDA_ERROR_OUT_OF_MEMORY :: int where "CUDA_ERROR_OUT_OF_MEMORY = 2"
definition CUDA_ERROR_NOT_INITIALIZED :: int where "CUDA_ERROR_NOT_INITIALIZED = 3"
definition cudaErrorMemoryAllocation :: int where "cudaErrorMemoryAllocation = 2"
definition cudaErrorNoDevice :: int where "cudaErrorNoDevice = 100"

definition cuGetProcAddress_v2 :: "fn_ptr \<Rightarrow> (string \<Rightarrow> int \<times> fn_ptr) \<Rightarrow> string \<Rightarrow> fn_ptr option \<Rightarrow> int \<times> fn_ptr option" where
  "cuGetProcAddress_v2 real_fn answer symbol pfn =
     (if real_fn = Null then (CUDA_ERROR_NOT_INITIALIZED, pfn)
      else let (r, q) = answer symbol; out = map_option (\<lambda>_. q) pfn in
        if r = CUDA_SUCCESS \<and> pfn \<noteq> None
        then if ptsz_variant symbol ''cuLaunchKernel'' then (r, Some (Hook ''cuLaunchKernel''))
             else if ptsz_variant symbol ''cuLaunchKernelEx'' then (r, Some (Hook ''cuLaunchKernelEx''))
             else if symbol = ''cuGetProcAddress'' \<or> symbol = ''cuGetProcAddress_v2'' then (r, Some (Hook ''cuGetProcAddress_v2''))
             else (r, out)
        else (r, out))"

section \<open>Launch hooks\<close>

datatype driver_call = Launch string | Sync | MemAlloc nat | MemFree nat

record hooks =
  resolved :: "string list"
  calls :: "driver_call list"

text \<open>What linker and driver answer during one hook call.\<close>

record driver =
  next_has :: "string \<Rightarrow> bool"
  kernel_name :: "string option"
  ret :: int
  out_ptr :: nat

definition resolve :: "driver \<Rightarrow> string \<Rightarrow> hooks \<Rightarrow> hooks" where
  "resolve d symbol h = (if symbol \<in> set (resolved h) \<or> \<not> next_has d symbol then h else h\<lparr>resolved := symbol # resolved h\<rparr>)"

abbreviation has_real :: "hooks \<Rightarrow> string \<Rightarrow> bool" where
  "has_real h symbol \<equiv> symbol \<in> set (resolved h)"

definition pass :: "driver_call \<Rightarrow> hooks \<Rightarrow> hooks" where
  "pass c h = h\<lparr>calls := calls h @ [c]\<rparr>"

text \<open>
  The interferences of one launch: during the entry, while the kernel runs, and during the
  exit.
\<close>

record launch_env =
  env_enter :: "interference list"
  env_running :: interference
  env_exit :: "interference list"

type_synonym launch_state = "hooks \<times> process \<times> KrakenSharedState"

definition next_kernel :: "process \<Rightarrow> process" where
  "next_kernel p = p\<lparr>kernel_idx := wrap32 (kernel_idx p + 1)\<rparr>"

text \<open>
  The common text of the hooks for the symbol \<open>symbol\<close>: \<open>sync_sym\<close> is the synchronisation that
  follows a killer, \<open>can_sync\<close> the extra test of \<open>cuLaunchKernelEx\<close>, \<open>err\<close> the error code
  when the driver's function cannot be found.
\<close>

definition launch_hook :: "string \<Rightarrow> string \<Rightarrow> bool \<Rightarrow> int \<Rightarrow> kraken_abi \<Rightarrow> (string \<Rightarrow> string option) \<Rightarrow> driver \<Rightarrow>
    launch_env \<Rightarrow> timespec \<Rightarrow> launch_state \<Rightarrow> (int \<times> timespec \<times> launch_state) option" where
  "launch_hook symbol sync_sym can_sync err A fs d env now = (\<lambda>(h0, p, m).
     let h = resolve d symbol h0 in
     if \<not> initialized p \<or> \<not> has_real h symbol
     then if has_real h symbol then Some (ret d, now, pass (Launch symbol) h, p, m)
          else Some (err, now, h, p, m)
     else if is_killer p (kernel_name d)
     then case gate_killer_enter A fs (env_enter env) now (p, m) of None \<Rightarrow> None
       | Some (now1, p1, m1) \<Rightarrow>
          let h1 = pass (Launch symbol) h;
              (now2, m2) = (fst (env_running env), snd (env_running env) m1);
              h2 = resolve d sync_sym h1;
              h3 = (if can_sync \<and> has_real h2 sync_sym then pass Sync h2 else h2)
          in (case gate_killer_exit A fs (env_exit env) now2 (p1, m2) of None \<Rightarrow> None
              | Some (now3, p3, m3) \<Rightarrow> Some (ret d, now3, h3, next_kernel p3, m3))
     else Some (ret d, now, pass (Launch symbol) h, next_kernel p, m))"

definition cuLaunchKernel :: "kraken_abi \<Rightarrow> (string \<Rightarrow> string option) \<Rightarrow> driver \<Rightarrow> launch_env \<Rightarrow> timespec \<Rightarrow>
    launch_state \<Rightarrow> (int \<times> timespec \<times> launch_state) option" where
  "cuLaunchKernel = launch_hook ''cuLaunchKernel'' ''cuStreamSynchronize'' True CUDA_ERROR_NOT_INITIALIZED"

definition cuLaunchKernelEx :: "bool \<Rightarrow> kraken_abi \<Rightarrow> (string \<Rightarrow> string option) \<Rightarrow> driver \<Rightarrow> launch_env \<Rightarrow> timespec \<Rightarrow>
    launch_state \<Rightarrow> (int \<times> timespec \<times> launch_state) option" where
  "cuLaunchKernelEx config_given =
     launch_hook ''cuLaunchKernelEx'' ''cuStreamSynchronize'' config_given CUDA_ERROR_NOT_INITIALIZED"

definition cudaLaunchKernel :: "kraken_abi \<Rightarrow> (string \<Rightarrow> string option) \<Rightarrow> driver \<Rightarrow> launch_env \<Rightarrow> timespec \<Rightarrow>
    launch_state \<Rightarrow> (int \<times> timespec \<times> launch_state) option" where
  "cudaLaunchKernel = launch_hook ''cudaLaunchKernel'' ''cudaStreamSynchronize'' True cudaErrorNoDevice"

section \<open>Memory hooks\<close>

definition alloc_hook :: "string \<Rightarrow> int \<Rightarrow> int \<Rightarrow> driver \<Rightarrow> nat \<Rightarrow> launch_state \<Rightarrow> int \<times> launch_state" where
  "alloc_hook symbol oom err d bytes = (\<lambda>(h0, p, m).
     let h = resolve d symbol h0 in
     if \<not> initialized p \<or> \<not> has_real h symbol
     then if has_real h symbol then (ret d, pass (MemAlloc bytes) h, p, m) else (err, h, p, m)
     else if \<not> vmem_check_alloc bytes (p, m) then (oom, h, p, m)
     else (ret d, pass (MemAlloc bytes) h,
           if ret d = CUDA_SUCCESS then vmem_track_alloc (out_ptr d) bytes (p, m) else (p, m)))"

definition free_hook :: "string \<Rightarrow> int \<Rightarrow> driver \<Rightarrow> nat \<Rightarrow> launch_state \<Rightarrow> int \<times> launch_state" where
  "free_hook symbol err d ptr = (\<lambda>(h0, p, m).
     let h = resolve d symbol h0 in
     if \<not> initialized p \<or> \<not> has_real h symbol
     then if has_real h symbol then (ret d, pass (MemFree ptr) h, p, m) else (err, h, p, m)
     else (ret d, pass (MemFree ptr) h, vmem_track_free ptr (p, m)))"

definition cuMemAlloc_v2 :: "driver \<Rightarrow> nat \<Rightarrow> launch_state \<Rightarrow> int \<times> launch_state" where
  "cuMemAlloc_v2 = alloc_hook ''cuMemAlloc_v2'' CUDA_ERROR_OUT_OF_MEMORY CUDA_ERROR_NOT_INITIALIZED"

definition cuMemFree_v2 :: "driver \<Rightarrow> nat \<Rightarrow> launch_state \<Rightarrow> int \<times> launch_state" where
  "cuMemFree_v2 = free_hook ''cuMemFree_v2'' CUDA_ERROR_NOT_INITIALIZED"

definition cudaMalloc :: "driver \<Rightarrow> nat \<Rightarrow> launch_state \<Rightarrow> int \<times> launch_state" where
  "cudaMalloc = alloc_hook ''cudaMalloc'' cudaErrorMemoryAllocation cudaErrorNoDevice"

definition cudaFree :: "driver \<Rightarrow> nat \<Rightarrow> launch_state \<Rightarrow> int \<times> launch_state" where
  "cudaFree = free_hook ''cudaFree'' cudaErrorNoDevice"

section \<open>No way around the launch hooks\<close>

text \<open>
  The pointers that a library can obtain for a symbol: by \<open>dlsym\<close> on a library handle, and by
  calling an address query that it obtained before, which is the hook or the driver's own
  query \<open>Foreign f\<close>.
\<close>

inductive obtains_ptr :: "(dl_handle \<Rightarrow> string \<Rightarrow> fn_ptr) \<Rightarrow> string \<Rightarrow> (string \<Rightarrow> int \<times> fn_ptr) \<Rightarrow> string \<Rightarrow> fn_ptr \<Rightarrow> bool"
  for real_dlsym f answer where
  by_dlsym: "obtains_ptr real_dlsym f answer symbol (dlsym True real_dlsym (Handle n) symbol)"
| by_hook: "obtains_ptr real_dlsym f answer s (Hook ''cuGetProcAddress_v2'') \<Longrightarrow>
     cuGetProcAddress_v2 (Foreign f) answer symbol (Some q0) = (CUDA_SUCCESS, Some q) \<Longrightarrow>
     obtains_ptr real_dlsym f answer symbol q"
| by_driver: "obtains_ptr real_dlsym f answer s (Foreign f) \<Longrightarrow> answer symbol = (CUDA_SUCCESS, q) \<Longrightarrow>
     obtains_ptr real_dlsym f answer symbol q"

definition query_names :: "string set" where
  "query_names = {''cuGetProcAddress'', ''cuGetProcAddress_v2''}"

definition ptsz_names :: "string set" where
  "ptsz_names = {''cuLaunchKernel_ptsz'', ''cuLaunchKernelEx_ptsz''}"

definition hook_for :: "string \<Rightarrow> fn_ptr option" where
  "hook_for = [''cuLaunchKernel'' \<mapsto> Hook ''cuLaunchKernel'', ''cuLaunchKernel_ptsz'' \<mapsto> Hook ''cuLaunchKernel'',
     ''cuLaunchKernelEx'' \<mapsto> Hook ''cuLaunchKernelEx'', ''cuLaunchKernelEx_ptsz'' \<mapsto> Hook ''cuLaunchKernelEx'',
     ''cuGetProcAddress'' \<mapsto> Hook ''cuGetProcAddress_v2'', ''cuGetProcAddress_v2'' \<mapsto> Hook ''cuGetProcAddress_v2'']"

lemma hook_for_Foreign [simp]: "hook_for symbol \<noteq> Some (Foreign f)"
  by (simp add: hook_for_def)

lemma hook_for_query: "symbol \<in> query_names \<Longrightarrow> hook_for symbol = Some (Hook ''cuGetProcAddress_v2'') \<and> symbol \<notin> ptsz_names"
  by (auto simp: query_names_def hook_for_def ptsz_names_def)

lemma dlsym_hook_for: "hook_for symbol = Some hk \<Longrightarrow> symbol \<notin> ptsz_names \<Longrightarrow> dlsym True real_dlsym (Handle n) symbol = hk"
  by (auto simp: hook_for_def dlsym_def ptsz_names_def split: if_splits)

lemma dlsym_other: "hook_for symbol = None \<or> symbol \<in> ptsz_names \<Longrightarrow> dlsym True real_dlsym (Handle n) symbol = real_dlsym (Handle n) symbol"
  by (auto simp: hook_for_def dlsym_def ptsz_names_def split: if_splits)

lemma ptsz_variant_iff: "ptsz_variant symbol b \<longleftrightarrow> symbol = b \<or> symbol = b @ ''_ptsz''"
proof
  assume v: "ptsz_variant symbol b"
  then have e: "symbol = b @ drop (length b) symbol" unfolding ptsz_variant_def starts_with_def by (auto elim: prefixE)
  show "symbol = b \<or> symbol = b @ ''_ptsz''"
  proof (cases "drop (length b) symbol = []")
    case True
    then show ?thesis using e by simp
  next
    case False
    then have "drop (length b) symbol = ''_ptsz''" using v unfolding ptsz_variant_def by blast
    then show ?thesis using e by (intro disjI2) (simp only:)
  qed
next
  assume "symbol = b \<or> symbol = b @ ''_ptsz''"
  then show "ptsz_variant symbol b" unfolding ptsz_variant_def starts_with_def by (elim disjE) simp_all
qed

lemma hook_for_eq: "hook_for symbol =
   (if ptsz_variant symbol ''cuLaunchKernel'' then Some (Hook ''cuLaunchKernel'')
    else if ptsz_variant symbol ''cuLaunchKernelEx'' then Some (Hook ''cuLaunchKernelEx'')
    else if symbol = ''cuGetProcAddress'' \<or> symbol = ''cuGetProcAddress_v2'' then Some (Hook ''cuGetProcAddress_v2'') else None)"
  unfolding hook_for_def ptsz_variant_iff by simp

lemma proc_hook_for:
  assumes "cuGetProcAddress_v2 (Foreign f) answer symbol (Some q0) = (CUDA_SUCCESS, Some q)"
  shows "case hook_for symbol of Some hk \<Rightarrow> q = hk | None \<Rightarrow> answer symbol = (CUDA_SUCCESS, q)"
  using assms unfolding hook_for_eq
  by (cases "ptsz_variant symbol ''cuLaunchKernel''"; cases "ptsz_variant symbol ''cuLaunchKernelEx''";
      cases "symbol = ''cuGetProcAddress'' \<or> symbol = ''cuGetProcAddress_v2''"; cases "answer symbol")
     (simp_all add: cuGetProcAddress_v2_def Let_def split: if_splits)

text \<open>No chain of queries reaches the driver's own query, because both ways to ask for it answer with the hook.\<close>

lemma driver_query_not_obtained:
  assumes "obtains_ptr real_dlsym f answer symbol q"
    and "\<forall>n s. real_dlsym (Handle n) s = Foreign f \<longrightarrow> s \<in> query_names"
    and "\<forall>s. snd (answer s) = Foreign f \<longrightarrow> s \<in> query_names"
  shows "q \<noteq> Foreign f"
  using assms(1)
proof (induction rule: obtains_ptr.induct)
  case (by_dlsym symbol n)
  show ?case
  proof (cases "hook_for symbol = None \<or> symbol \<in> ptsz_names")
    case True
    then show ?thesis using assms(2) hook_for_query [of symbol] by (auto simp: dlsym_other)
  next
    case False
    then obtain hk where hk: "hook_for symbol = Some hk" by auto
    then show ?thesis using False by (auto simp: dlsym_hook_for)
  qed
next
  case (by_hook s symbol q0 q)
  show ?case using proc_hook_for [OF by_hook.hyps(2)] assms(3) hook_for_query [of symbol]
    by (cases "hook_for symbol") auto
qed auto

text \<open>
  C35. The launch functions cannot be reached behind the library's back, with one exception.
  Whatever pointers the linker and the driver answer, as long as the driver's address query
  itself is known under its two names only, every pointer that a library obtains for
  \<open>cuLaunchKernel\<close>, \<open>cuLaunchKernelEx\<close>, their \<open>_ptsz\<close> variants or the address query, through any
  chain of \<open>dlsym\<close> on a library handle and successful address queries, is the hook of this
  library; the exception is a \<open>_ptsz\<close> variant looked up by \<open>dlsym\<close> directly.
\<close>

theorem launch_pointers_are_hooks:
  assumes "obtains_ptr real_dlsym f answer symbol q" and "hook_for symbol = Some hk"
    and "\<forall>n s. real_dlsym (Handle n) s = Foreign f \<longrightarrow> s \<in> query_names"
    and "\<forall>s. snd (answer s) = Foreign f \<longrightarrow> s \<in> query_names"
  shows "q = hk \<or> symbol \<in> ptsz_names \<and> (\<exists>n. q = real_dlsym (Handle n) symbol)"
  using assms(1)
proof (cases rule: obtains_ptr.cases)
  case (by_dlsym n)
  then show ?thesis using dlsym_hook_for [OF assms(2), of real_dlsym n] dlsym_other [of symbol real_dlsym n] by blast
next
  case (by_hook s q0)
  then show ?thesis using proc_hook_for [of f answer symbol q0 q] assms(2) by simp
next
  case (by_driver s)
  then show ?thesis using driver_query_not_obtained [OF by_driver(1) assms(3,4)] by simp
qed

theorem launch_pointers_are_hooks_witness:
  "let answer = \<lambda>s. (CUDA_SUCCESS, Foreign s); f = ''cuGetProcAddress_v2'' in
   obtains_ptr (\<lambda>_. Foreign) f answer ''cuLaunchKernelEx'' (Hook ''cuLaunchKernelEx'') \<and>
   \<not> obtains_ptr (\<lambda>_. Foreign) f answer ''cuLaunchKernelEx'' (Foreign ''cuLaunchKernelEx'')"
proof -
  let ?a = "\<lambda>s. (CUDA_SUCCESS, Foreign s)" and ?f = "''cuGetProcAddress_v2''"
  have "obtains_ptr (\<lambda>_. Foreign) ?f ?a ''cuGetProcAddress'' (Hook ?f)"
    using by_dlsym [of "\<lambda>_. Foreign" ?f ?a "''cuGetProcAddress''" 3] by (simp add: dlsym_def)
  then have "obtains_ptr (\<lambda>_. Foreign) ?f ?a ''cuLaunchKernelEx'' (Hook ''cuLaunchKernelEx'')"
    by (rule obtains_ptr.by_hook [of _ _ _ "''cuGetProcAddress''" _ Null]) (simp add: cuGetProcAddress_v2_def ptsz_variant_iff)
  moreover have "\<not> obtains_ptr (\<lambda>_. Foreign) ?f ?a ''cuLaunchKernelEx'' (Foreign ''cuLaunchKernelEx'')"
    using launch_pointers_are_hooks [of "\<lambda>_. Foreign" ?f ?a "''cuLaunchKernelEx''" "Foreign ''cuLaunchKernelEx''" "Hook ''cuLaunchKernelEx''"]
    by (auto simp: hook_for_def query_names_def ptsz_names_def)
  ultimately show ?thesis by simp
qed

text \<open>
  The per-thread stream variants are intercepted on one path only: the address query
  replaces \<open>cuLaunchKernel_ptsz\<close>, but \<open>dlsym\<close> compares the whole name and hands out the
  driver's own function, so a library that looks the variant up by \<open>dlsym\<close> is not gated.
\<close>

theorem ptsz_bypasses_dlsym_hook:
  "dlsym True real_dlsym (Handle n) ''cuLaunchKernel_ptsz'' = real_dlsym (Handle n) ''cuLaunchKernel_ptsz'' \<and>
   cuGetProcAddress_v2 (Foreign f) (\<lambda>s. (CUDA_SUCCESS, Foreign s)) ''cuLaunchKernel_ptsz'' (Some Null) =
     (CUDA_SUCCESS, Some (Hook ''cuLaunchKernel''))"
  by (simp add: dlsym_def cuGetProcAddress_v2_def ptsz_variant_def starts_with_def)

section \<open>The memory hooks respect the quota\<close>

definition hooked_alloc :: "nat \<Rightarrow> nat \<Rightarrow> launch_state \<Rightarrow> launch_state" where
  "hooked_alloc ptr n s = snd (cuMemAlloc_v2 \<lparr>next_has = \<lambda>_. True, kernel_name = None, ret = CUDA_SUCCESS, out_ptr = ptr\<rparr> n s)"

definition hooked_free :: "nat \<Rightarrow> launch_state \<Rightarrow> launch_state" where
  "hooked_free ptr s = snd (cuMemFree_v2 \<lparr>next_has = \<lambda>_. True, kernel_name = None, ret = CUDA_SUCCESS, out_ptr = 0\<rparr> ptr s)"

lemma resolve_has [simp]: "next_has d symbol \<Longrightarrow> has_real (resolve d symbol h) symbol"
  by (simp add: resolve_def)

lemma track_initialized [simp]:
  "initialized (fst (vmem_track_alloc p n v)) = initialized (fst v)"
  "initialized (fst (vmem_track_free p v)) = initialized (fst v)"
  by (auto simp: vmem_track_alloc_def vmem_track_free_def Let_def split: prod.splits option.splits)

lemma hooked_alloc_eq: "initialized (fst v) \<Longrightarrow> \<exists>h'. hooked_alloc ptr n (h, v) = (h', vm.guarded_add ptr n v)"
  by (cases v) (auto simp: hooked_alloc_def cuMemAlloc_v2_def alloc_hook_def vm.guarded_add_def Let_def)

lemma hooked_free_eq: "initialized (fst v) \<Longrightarrow> \<exists>h'. hooked_free ptr (h, v) = (h', vmem_track_free ptr v)"
  by (cases v) (auto simp: hooked_free_def cuMemFree_v2_def free_hook_def Let_def)

lemma hooked_step:
  assumes "initialized (fst v)"
  shows "\<exists>h'. mem_step hooked_alloc hooked_free e (h, v) = (h', mem_step vm.guarded_add vmem_track_free e v)"
    and "initialized (fst (mem_step vm.guarded_add vmem_track_free e v))"
  using assms hooked_alloc_eq [OF assms] hooked_free_eq [OF assms] by (cases e; simp add: vm.guarded_add_def)+

lemma hooked_run:
  "initialized (fst v) \<Longrightarrow>
   \<exists>h'. mem_run hooked_alloc hooked_free evs (h, v) = (h', mem_run vm.guarded_add vmem_track_free evs v)"
proof (induction evs arbitrary: h v)
  case (Cons e evs)
  obtain h' where "mem_step hooked_alloc hooked_free e (h, v) = (h', mem_step vm.guarded_add vmem_track_free e v)"
    using hooked_step(1) [OF Cons.prems] by blast
  then show ?case using Cons.IH [OF hooked_step(2) [OF Cons.prems], of h'] by simp
qed simp

text \<open>The state a sequence of hook calls starts from, and what it may contain.\<close>

definition vmem_in_quota :: "vmem \<Rightarrow> bool" where
  "vmem_in_quota v \<longleftrightarrow> vmem_wf v \<and> vmem_used v = live_total (vmem_live v) \<and> (\<forall>p n. vmem_live v p = Some n \<longrightarrow> 0 < n) \<and>
     in_i64 (vmem_used v) \<and> vmem_used v \<le> quota_bytes v"

fun hooked_event_ok :: "launch_state \<Rightarrow> nat mem_event \<Rightarrow> bool" where
  "hooked_event_ok (h, v) (Alloc p n) = (vmem_ok v p n \<and> in_i64 (vmem_used v + int n))"
| "hooked_event_ok (h, v) (Free p) = nonnull p"

lemma hooked_event_ok_fits: "hooked_event_ok (h, v) e = vm.fits v e"
  by (cases v; cases e) simp_all

lemma hooked_run_ok:
  "initialized (fst v) \<Longrightarrow> mem_run_ok hooked_event_ok hooked_alloc hooked_free evs (h, v) \<Longrightarrow>
   mem_run_ok vm.fits vm.guarded_add vmem_track_free evs v"
proof (induction evs arbitrary: h v)
  case (Cons e evs)
  obtain h' where "mem_step hooked_alloc hooked_free e (h, v) = (h', mem_step vm.guarded_add vmem_track_free e v)"
    using hooked_step(1) [OF Cons.prems(1)] by blast
  then show ?case
    using Cons.IH [OF hooked_step(2) [OF Cons.prems(1)], of h'] Cons.prems(2) by (simp add: hooked_event_ok_fits)
qed simp

text \<open>
  C13. The memory hooks enforce the quota: in any sequence of hooked allocations and frees that
  the driver accepts, with pointers that are fresh and room in the table, the usage counter
  stays between zero and the tenant's quota.
\<close>

theorem hooks_respect_quota:
  assumes "initialized (fst v)" and "vmem_in_quota v"
    and "mem_run_ok hooked_event_ok hooked_alloc hooked_free evs (h, v)"
    and "mem_run hooked_alloc hooked_free evs (h, v) = (h', v')"
  shows "0 \<le> vmem_used v' \<and> vmem_used v' \<le> quota_bytes v"
proof -
  have "vm.in_quota v" using assms(2) unfolding vmem_in_quota_def vm.in_quota_def .
  moreover have "mem_run_ok vm.fits vm.guarded_add vmem_track_free evs v" using hooked_run_ok [OF assms(1,3)] .
  moreover have "v' = mem_run vm.guarded_add vmem_track_free evs v" using hooked_run [OF assms(1), of evs h] assms(4) by auto
  ultimately show ?thesis using vm.guarded_run_bounded by metis
qed

definition no_hooks :: hooks where "no_hooks = \<lparr>resolved = [], calls = []\<rparr>"

theorem hooks_respect_quota_witness:
  "vmem_used (snd (mem_run hooked_alloc hooked_free [Alloc 16 1000000, Alloc 32 500000, Free 16] (no_hooks, sample_vmem))) \<le> 1048576"
proof -
  let ?evs = "[Alloc 16 1000000, Alloc 32 500000, Free 16]"
  obtain h' v' where r: "mem_run hooked_alloc hooked_free ?evs (no_hooks, sample_vmem) = (h', v')" by (meson surj_pair)
  have q: "quota_bytes sample_vmem = 1048576"
    by (simp add: quota_bytes_def sample_vmem_def sample_defs KrakenRuntime.defs wrap64_def)
  have "initialized (fst sample_vmem)" and "vmem_in_quota sample_vmem"
    by (simp_all add: vmem_in_quota_def q vmem_defs table_wf_def)
       (simp_all add: sample_vmem_def sample_defs KrakenRuntime.defs in_i64_def)
  moreover have "mem_run_ok hooked_event_ok hooked_alloc hooked_free ?evs (no_hooks, sample_vmem)"
    by (simp add: hooked_alloc_def hooked_free_def cuMemAlloc_v2_def cuMemFree_v2_def alloc_hook_def free_hook_def resolve_def
        sample_vmem_def sample_defs vmem_track_alloc_def vmem_track_free_def table_record_def MAX_ALLOC_ENTRIES_def
        KrakenRuntime.defs Let_def vmem_check_alloc_def quota_bytes_def vmem_defs table_room_def table_live_def
        nonnull_def wrap64_def in_i64_def no_hooks_def pass_def CUDA_SUCCESS_def)
  ultimately show ?thesis using hooks_respect_quota [OF _ _ _ r] r q by simp
qed

section \<open>A process that dies inside a killer\<close>

text \<open>
  The destructor clears \<open>active\<close> but not the gate state: when a process ends while it is
  marked as killer, a peer that is already waiting for it tests only the gate state and
  waits for ever, as long as nobody else rewrites that slot.
\<close>

theorem fini_inside_killer_blocks_peer:
  assumes "g_shm g" and "initialized g" and "tenant_idx g < length (tenants m)"
    and "gate_state (tenants m ! tenant_idx g) = GATE_KILLER_ACTIVE A"
    and "\<forall>e \<in> set es. \<forall>m'. gate_state (tenants m' ! tenant_idx g) = GATE_KILLER_ACTIVE A \<longrightarrow>
           gate_state (tenants (snd e m') ! tenant_idx g) = GATE_KILLER_ACTIVE A"
  shows "\<not> is_active (snd (kraken_fini (g, m))) (tenant_idx g) \<and>
    poll (call_body A fs Inside) (map disturb es) (now, goto (PeerSpin (tenant_idx g)) l, peer, snd (kraken_fini (g, m))) = None"
  using assms peer_spin_stuck [of "snd (kraken_fini (g, m))" "tenant_idx g" A es fs now l peer]
  by (simp add: kraken_fini_def)

theorem fini_inside_killer_blocks_peer_witness:
  "poll (call_body sample_abi Map.empty Inside) (map disturb (replicate 9 (undisturbed (killer_start g_kraken_zero))))
     (killer_start g_kraken_zero, goto (PeerSpin 0) idle, sample_runtime 1,
      snd (kraken_fini (sample_runtime 0, sample_shm (sample_tenant 2 5) (sample_tenant 0 5)))) = None"
  using fini_inside_killer_blocks_peer [of "sample_runtime 0" "sample_shm (sample_tenant 2 5) (sample_tenant 0 5)" sample_abi
      "replicate 9 (undisturbed (killer_start g_kraken_zero))" Map.empty "killer_start g_kraken_zero" idle "sample_runtime 1"]
  by (simp add: undisturbed_def sample_defs)

section \<open>A killer launch from end to end\<close>

definition stats_of :: "nat \<Rightarrow> KrakenSharedState \<Rightarrow> int \<times> int" where
  "stats_of i m = (total_exec_us (tenants m ! i), killer_count (tenants m ! i))"

definition keeps_stats :: "nat \<Rightarrow> (KrakenSharedState \<Rightarrow> KrakenSharedState) \<Rightarrow> bool" where
  "keeps_stats my f \<longleftrightarrow> (\<forall>m. length (tenants (f m)) = length (tenants m) \<and> stats_of my (f m) = stats_of my m)"

definition entering_stats :: "nat \<Rightarrow> int \<Rightarrow> int \<times> int \<Rightarrow> 'a gate_conf \<Rightarrow> bool" where
  "entering_stats my k s0 = (\<lambda>(now, l, g, m). g_shm g \<and> tenant_idx g = my \<and> kernel_idx g = k \<and> my < length (tenants m) \<and>
     stats_of my m = s0 \<and> pc l \<notin> {Outside, ExitClock, Deduct, CountKiller, Release})"

lemma reload_kernel_idx [simp]: "kernel_idx (reload_killer_policy_if_needed fs m g) = kernel_idx g"
  by (auto simp: reload_killer_policy_if_needed_def load_killer_policy_def Let_def split: option.splits prod.splits)

lemma trigger_step_stats:
  "trigger_step A fs p (g, m) = (p', g', m') \<Longrightarrow> my < length (tenants m) \<Longrightarrow> stats_of my m' = stats_of my m \<and> kernel_idx g' = kernel_idx g \<and>
     (p' = p \<or> p' \<notin> {Outside, ExitClock, Deduct, CountKiller, Release})"
  by (cases p) (auto split: if_splits simp: store_round_id_def stats_of_def elim!: after_trigger.elims)

lemma entering_stats_step:
  assumes "entering_stats my k s0 (now, l, g, m)"
  shows "entering_stats my k s0 (now, gate_step A fs now (l, g, m))"
proof -
  obtain l' g' m' where s: "gate_step A fs now (l, g, m) = (l', g', m')" by (cases "gate_step A fs now (l, g, m)")
  have "stats_of my m' = stats_of my m \<and> kernel_idx g' = kernel_idx g \<and> pc l' \<notin> {Outside, ExitClock, Deduct, CountKiller, Release}"
  proof (cases "pc l")
  qed (use s assms in \<open>auto simp: gate_step.simps entering_stats_def timeslice_set_waiting_def timeslice_add_wait_def
         stats_of_def store_round_id_def split: if_splits elim!: after_trigger.elims\<close>)
  with assms s gate_step_frame [OF s] show ?thesis by (simp add: entering_stats_def)
qed

lemma enter_keeps_stats:
  fixes g :: "'a KrakenRuntime_scheme"
  assumes "gate_killer_enter A fs es now (g, m) = Some (now', g', m')" and "g_shm g" and "tenant_idx g < length (tenants m)"
    and "\<forall>e \<in> set es. keeps_stats (tenant_idx g) (snd e)"
  shows "g_shm g' \<and> tenant_idx g' = tenant_idx g \<and> kernel_idx g' = kernel_idx g \<and> tenant_idx g < length (tenants m') \<and>
     stats_of (tenant_idx g) m' = stats_of (tenant_idx g) m"
proof -
  let ?I = "entering_stats (tenant_idx g) (kernel_idx g) (stats_of (tenant_idx g) m) :: 'a gate_conf \<Rightarrow> bool"
  let ?s = "(now, \<lparr>pc = ProfMode, wait_s = now, elapsed_us = 0\<rparr>, g, m)"
  obtain l' rest where p: "poll (call_body A fs Inside) (map disturb es) ?s = Some ((now', l', g', m'), rest)"
    using assms(1,2) by (auto simp: gate_killer_enter_def gate_call_def)
  have "\<exists>t. ?I t \<and> call_body A fs Inside t = Inr (now', l', g', m')"
  proof (rule poll_result [OF p, where I = ?I])
    show "?I ?s" using assms(2,3) by (simp add: entering_stats_def)
  next
    fix s s' :: "'a gate_conf" and e :: "'a gate_conf \<Rightarrow> 'a gate_conf"
    assume i: "?I s" and b: "call_body A fs Inside s = Inl s'" and "e \<in> set (map disturb es)"
    then obtain e' where e: "e = disturb e'" "keeps_stats (tenant_idx g) (snd e')" using assms(4) by auto
    have "?I s'" using i b by (cases s) (auto simp: call_body_def split: if_splits intro: entering_stats_step)
    then show "?I (e s')" using e by (cases s') (auto simp: entering_stats_def disturb_def keeps_stats_def)
  qed
  then show ?thesis by (auto simp: call_body_def entering_stats_def split: if_splits)
qed

lemma killer_start_after_mark:
  assumes "gate_killer_enter A fs es now (g, m) = Some (now', g', m')" and "g_shm g"
  shows "\<exists>us c f e rest m0. es = us @ (c, f) # e # rest \<and> now' = fst e \<and> killer_start g' = c \<and>
    m' = snd e (f (upd_tenant (tenant_idx g) (\<lambda>t. t\<lparr>gate_state := GATE_KILLER_ACTIVE A\<rparr>) m0))"
proof -
  obtain l' rest where "poll (call_body A fs Inside) (map disturb es) (now, \<lparr>pc = ProfMode, wait_s = now, elapsed_us = 0\<rparr>, g, m) =
      Some ((now', l', g', m'), rest)"
    using assms by (auto simp: gate_killer_enter_def gate_call_def)
  from enter_stamps_after_mark [OF this] show ?thesis by (simp add: approaching_def)
qed

lemma resolve_calls [simp]: "calls (resolve d symbol h) = calls h" "calls (pass c h) = calls h @ [c]"
  "resolved (pass c h) = resolved h"
  by (simp_all add: resolve_def pass_def)

text \<open>
  C6. A gated launch from end to end: when \<open>cuLaunchKernel\<close> of a killer returns, the driver has
  been called exactly once to launch and once to wait for the stream, in this order, the
  tenant's gate is open again, one killer is counted, and the time charged to the tenant is
  the time from \<open>c\<close> to the completion of the kernel, where \<open>c\<close> is the clock at the first access
  after the store that marks the tenant as the active killer: of the interferences of the
  entry, \<open>us\<close> come up to that store, \<open>(c, f)\<close> lies between it and the reading of the clock, \<open>e\<close>
  between the reading and the return, and \<open>rest\<close> is not used. The other processes may do
  anything in between except write this tenant's statistics and, during the exit, its slot.
\<close>

theorem killer_launch_end_to_end:
  assumes "cuLaunchKernel A fs d env now (h, p, m) = Some (r, now', h', p', m')"
    and "initialized p" and "g_shm p" and "is_killer p (kernel_name d)" and "tenant_idx p < length (tenants m)"
    and "\<forall>symbol. next_has d symbol" and "4 \<le> length (env_exit env)"
    and "\<forall>e \<in> set (env_enter env). keeps_stats (tenant_idx p) (snd e)" and "keeps_stats (tenant_idx p) (snd (env_running env))"
    and "\<forall>e \<in> set (env_exit env). keeps_slot (tenant_idx p) (snd e)"
  shows "r = ret d \<and> calls h' = calls h @ [Launch ''cuLaunchKernel'', Sync] \<and> kernel_idx p' = wrap32 (kernel_idx p + 1) \<and>
    gate_state (tenants m' ! tenant_idx p) = GATE_RUNNING A \<and>
    killer_count (tenants m' ! tenant_idx p) = killer_count (tenants m ! tenant_idx p) + 1 \<and>
    (\<exists>us c f e rest m0 p1. env_enter env = us @ (c, f) # e # rest \<and>
       gate_killer_enter A fs (env_enter env) now (p, m) =
         Some (fst e, p1, snd e (f (upd_tenant (tenant_idx p) (\<lambda>t. t\<lparr>gate_state := GATE_KILLER_ACTIVE A\<rparr>) m0))) \<and>
       killer_start p' = c \<and>
       total_exec_us (tenants m' ! tenant_idx p) =
         wrap64 (total_exec_us (tenants m ! tenant_idx p) + timespec_diff_us c (fst (env_running env))))"
proof -
  let ?my = "tenant_idx p" and ?now2 = "fst (env_running env)"
  obtain now1 p1 m1 where en: "gate_killer_enter A fs (env_enter env) now (p, m) = Some (now1, p1, m1)"
    using assms(1-4,6) by (auto simp: cuLaunchKernel_def launch_hook_def Let_def split: option.splits)
  note k = enter_keeps_stats [OF en assms(3,5,8)]
  let ?m2 = "snd (env_running env) m1"
  have m2: "?my < length (tenants ?m2)" "stats_of ?my ?m2 = stats_of ?my m" using k assms(9) by (auto simp: keeps_stats_def)
  obtain now3 m3 where ex: "gate_killer_exit A fs (env_exit env) ?now2 (p1, ?m2) = Some (now3, p1, m3)"
    and slot: "tenants m3 ! ?my = (let t = tenants ?m2 ! ?my; e = timespec_diff_us (killer_start p1) ?now2 in
        t\<lparr>time_remain_us := wrap64 (time_remain_us t - e), total_exec_us := wrap64 (total_exec_us t + e),
          killer_count := killer_count t + 1, gate_state := GATE_RUNNING A\<rparr>)"
    using exit_charges_and_releases_lemma [of p1 "env_exit env" A fs ?now2 ?m2] k assms(7,10) m2 by auto
  have r: "r = ret d" "p' = next_kernel p1" "m' = m3" "calls h' = calls h @ [Launch ''cuLaunchKernel'', Sync]"
    using assms(1-4,6) en ex by (auto simp: cuLaunchKernel_def launch_hook_def Let_def)
  obtain us c f e rest m0 where st: "env_enter env = us @ (c, f) # e # rest" "now1 = fst e" "killer_start p1 = c"
    "m1 = snd e (f (upd_tenant ?my (\<lambda>t. t\<lparr>gate_state := GATE_KILLER_ACTIVE A\<rparr>) m0))"
    using killer_start_after_mark [OF en assms(3)] by blast
  have "total_exec_us (tenants m' ! ?my) = wrap64 (total_exec_us (tenants m ! ?my) + timespec_diff_us c ?now2)"
    using slot m2 r st(3) by (simp add: Let_def stats_of_def)
  moreover have "killer_start p' = c" using r st(3) by (simp add: next_kernel_def)
  moreover have "gate_state (tenants m' ! ?my) = GATE_RUNNING A" "killer_count (tenants m' ! ?my) = killer_count (tenants m ! ?my) + 1"
    "kernel_idx p' = wrap32 (kernel_idx p + 1)" using slot m2 k r by (simp_all add: Let_def stats_of_def next_kernel_def)
  ultimately show ?thesis using r(1,4) en st(1,2,4) by blast
qed

definition quiet_env :: "nat \<Rightarrow> timespec \<Rightarrow> timespec \<Rightarrow> launch_env" where
  "quiet_env k t1 t2 = \<lparr>env_enter = replicate k (undisturbed t1), env_running = undisturbed t2, env_exit = replicate 4 (undisturbed t2)\<rparr>"

definition gemm_driver :: driver where
  "gemm_driver = \<lparr>next_has = \<lambda>_. True, kernel_name = Some ''sgemm_128'', ret = 0, out_ptr = 0\<rparr>"

definition gemm_process :: process where
  "gemm_process = KrakenRuntime.extend (sample_runtime 0)
     \<lparr>alloc_table = []\<rparr>\<lparr>policy := install_patterns 0 [''gemm''] zero_policy\<rparr>"

theorem killer_launch_end_to_end_witness:
  "\<exists>r now' h' p' m'. cuLaunchKernel sample_abi Map.empty gemm_driver
      (quiet_env 10 \<lparr>tv_sec = 5, tv_nsec = 0\<rparr> \<lparr>tv_sec = 5, tv_nsec = 250000\<rparr>) \<lparr>tv_sec = 5, tv_nsec = 0\<rparr>
      (no_hooks, gemm_process, sample_shm (sample_tenant 0 5000) (sample_tenant 0 5000)) = Some (r, now', h', p', m') \<and>
     calls h' = [Launch ''cuLaunchKernel'', Sync] \<and> gate_state (tenants m' ! 0) = 0 \<and> killer_count (tenants m' ! 0) = 1 \<and>
     total_exec_us (tenants m' ! 0) = 250"
proof -
  let ?t1 = "\<lparr>tv_sec = 5, tv_nsec = 0\<rparr>" and ?t2 = "\<lparr>tv_sec = 5, tv_nsec = 250000\<rparr>"
  let ?m = "sample_shm (sample_tenant 0 5000) (sample_tenant 0 5000)"
  let ?r = "cuLaunchKernel sample_abi Map.empty gemm_driver (quiet_env 10 ?t1 ?t2) ?t1 (no_hooks, gemm_process, ?m)"
  have p: "initialized gemm_process" "g_shm gemm_process" "tenant_idx gemm_process = 0"
    by (simp_all add: gemm_process_def KrakenRuntime.defs sample_runtime_def g_kraken_zero_def)
  have kill: "is_killer gemm_process (kernel_name gemm_driver)"
    by (simp add: is_killer_def is_killer_by_name_def gemm_process_def gemm_driver_def KrakenRuntime.defs strncpy_buf_def
        zero_policy_def MAX_KILLER_KERNELS_def MAX_KERNEL_NAME_LEN_def)
  have "gate_killer_enter sample_abi Map.empty (replicate 10 (undisturbed ?t1)) ?t1 (gemm_process, ?m) \<noteq> None"
    by code_simp
  then obtain t p1 m1 where en: "gate_killer_enter sample_abi Map.empty (replicate 10 (undisturbed ?t1)) ?t1 (gemm_process, ?m) = Some (t, p1, m1)"
    by auto
  have "g_shm p1" using enter_keeps_stats [OF en] p by (simp add: keeps_stats_def undisturbed_def sample_shm_def)
  then have "\<exists>x. gate_killer_exit sample_abi Map.empty (replicate 4 (undisturbed ?t2)) ?t2 (p1, m1) = Some x"
    using exit_charges_and_releases_lemma [of p1 "replicate 4 (undisturbed ?t2)"] by fastforce
  then have "?r \<noteq> None" using p kill en
    by (auto simp: cuLaunchKernel_def launch_hook_def Let_def quiet_env_def undisturbed_def split: prod.splits)
  then obtain r now' h' p' m' where r: "?r = Some (r, now', h', p', m')" by auto
  have e: "env_enter (quiet_env 10 ?t1 ?t2) = replicate 10 (undisturbed ?t1)" "env_running (quiet_env 10 ?t1 ?t2) = undisturbed ?t2"
    "env_exit (quiet_env 10 ?t1 ?t2) = replicate 4 (undisturbed ?t2)" by (simp_all add: quiet_env_def)
  have k: "calls h' = calls no_hooks @ [Launch ''cuLaunchKernel'', Sync] \<and> gate_state (tenants m' ! 0) = GATE_RUNNING sample_abi \<and>
      killer_count (tenants m' ! 0) = killer_count (tenants ?m ! 0) + 1"
    and "\<exists>us c f e rest m0 p1. replicate 10 (undisturbed ?t1) = us @ (c, f) # e # rest \<and>
      gate_killer_enter sample_abi Map.empty (replicate 10 (undisturbed ?t1)) ?t1 (gemm_process, ?m) =
        Some (fst e, p1, snd e (f (upd_tenant 0 (\<lambda>t. t\<lparr>gate_state := GATE_KILLER_ACTIVE sample_abi\<rparr>) m0))) \<and> killer_start p' = c \<and>
      total_exec_us (tenants m' ! 0) = wrap64 (total_exec_us (tenants ?m ! 0) + timespec_diff_us c (fst (undisturbed ?t2)))"
    using killer_launch_end_to_end [OF r p(1,2) kill, unfolded e p(3)]
    by (simp_all add: keeps_stats_def keeps_slot_def undisturbed_def gemm_driver_def sample_shm_def)
  then obtain us c f e rest where "replicate 10 (undisturbed ?t1) = us @ (c, f) # e # rest"
    and x: "total_exec_us (tenants m' ! 0) = wrap64 (timespec_diff_us c ?t2)"
    by (auto simp: sample_shm_def sample_tenant_def undisturbed_def)
  then have "(c, f) \<in> set (replicate 10 (undisturbed ?t1))" by simp
  then have "c = ?t1" by (simp add: undisturbed_def)
  then have "total_exec_us (tenants m' ! 0) = 250" using x by (simp add: timespec_diff_us_def wrap64_def c_div_def)
  then show ?thesis using k r by (simp add: no_hooks_def sample_abi_def sample_shm_def sample_tenant_def)
qed

end
