(* ===== verification/BlessPrio.thy ===== *)
theory BlessPrio
  imports Prelude
begin

text \<open>
  \<open>libbless.cpp\<close>, the priority queue gate (\<open>priority_queue_gate\<close>, \<open>priority_queue_done\<close>). The
  global atomics of the namespace \<open>bless\<close> are the fields of a chain of records, one group per
  subsystem and one theory per group; the operations are polymorphic in the groups that
  follow. This theory starts the chain with the switches that every gate reads and the
  queue counters.
\<close>

section \<open>State\<close>

datatype Priority = URGENT | NORMAL | BACKGROUND

record ctl_state =
  boost_mode :: bool
  pause_mode :: bool
  any_alloc :: bool
  current_priority :: Priority

text \<open>The counters \<open>queue_len\<close>, one per priority.\<close>

record prio_state = ctl_state +
  queue_len :: "Priority \<Rightarrow> int"
  urgent_pending :: bool
  preempt_requested :: bool

definition queue_add :: "Priority \<Rightarrow> int \<Rightarrow> 'a prio_state_scheme \<Rightarrow> 'a prio_state_scheme" where
  "queue_add p d s = s\<lparr>queue_len := (queue_len s)(p := wrap64 (queue_len s p + d))\<rparr>"

section \<open>The gate\<close>

text \<open>
  The wait counter of the loops: after \<open>limit\<close> yields the thread sleeps once and starts
  counting again.
\<close>

definition backoff :: "nat \<Rightarrow> nat \<Rightarrow> nat" where
  "backoff limit waited = (if waited < limit then Suc waited else 0)"

text \<open>
  First loop, for a caller that is not urgent: one iteration leaves the queue, sleeps, and
  (after the interference) joins it again. The polled state is the counter \<open>waited\<close>, whether
  the caller has left the queue, and the globals.
\<close>

type_synonym 'a prio_conf = "nat \<times> bool \<times> 'a prio_state_scheme"

definition yield_body :: "Priority \<Rightarrow> 'a prio_conf \<Rightarrow> 'a prio_conf + 'a prio_state_scheme" where
  "yield_body my = (\<lambda>(waited, away, s).
     let s1 = (if away then queue_add my 1 s else s) in
     if urgent_pending s1 then Inl (backoff 100 waited, True, queue_add my (- 1) s1) else Inr s1)"

text \<open>Second loop, for background callers, with the timeout test as it is written.\<close>

definition higher_queued :: "'a prio_state_scheme \<Rightarrow> bool" where
  "higher_queued s \<longleftrightarrow> queue_len s URGENT > 0 \<or> queue_len s NORMAL > queue_len s BACKGROUND"

definition background_body :: "'a prio_conf \<Rightarrow> 'a prio_conf + 'a prio_state_scheme" where
  "background_body = (\<lambda>(waited, away, s).
     if higher_queued s
     then let waited' = backoff 50 waited in
          if waited' > 100 then Inr s else Inl (waited', away, s)
     else Inr s)"

definition on_globals :: "('s \<Rightarrow> 's) \<Rightarrow> nat \<times> bool \<times> 's \<Rightarrow> nat \<times> bool \<times> 's" where
  "on_globals f = (\<lambda>(waited, away, s). (waited, away, f s))"

text \<open>
  The gate against the interferences of the other threads and the control server: \<open>None\<close> when
  the caller still waits after the last of them.
\<close>

definition yield_loop :: "Priority \<Rightarrow> ('a prio_state_scheme \<Rightarrow> 'a prio_state_scheme) list \<Rightarrow> 'a prio_state_scheme \<Rightarrow>
    ('a prio_state_scheme \<times> ('a prio_conf \<Rightarrow> 'a prio_conf) list) option" where
  "yield_loop my es s =
     (if my \<noteq> URGENT then poll (yield_body my) (map on_globals es) (0, False, s) else Some (s, map on_globals es))"

definition priority_queue_gate :: "('a prio_state_scheme \<Rightarrow> 'a prio_state_scheme) list \<Rightarrow> 'a prio_state_scheme \<Rightarrow>
    ('a prio_state_scheme \<times> ('a prio_conf \<Rightarrow> 'a prio_conf) list) option" where
  "priority_queue_gate es s =
     (let my = current_priority s; s1 = queue_add my 1 s in
      case yield_loop my es s1 of None \<Rightarrow> None
      | Some (s2, rest) \<Rightarrow>
          if my = BACKGROUND then poll background_body rest (0, False, s2) else Some (s2, rest))"

definition priority_queue_done :: "'a prio_state_scheme \<Rightarrow> 'a prio_state_scheme" where
  "priority_queue_done s =
     (let my = current_priority s; prev = queue_len s my; s1 = queue_add my (- 1) s in
      if prev \<le> 0 then s1\<lparr>queue_len := (queue_len s1)(my := 0)\<rparr> else s1)"

section \<open>The threads of the process\<close>

text \<open>
  The gate and the completion of one thread, cut at the points where it waits: \<open>POut\<close> outside,
  \<open>PYield\<close> in the first loop with its priority, its counter and whether it has left the queue,
  \<open>PBack\<close> in the second loop, \<open>PIn\<close> between the gate and \<open>priority_queue_done\<close>.
\<close>

datatype prio_pc = POut | PYield Priority nat bool | PBack nat | PIn Priority

fun prio_step :: "prio_pc \<times> 'a prio_state_scheme \<Rightarrow> prio_pc \<times> 'a prio_state_scheme" where
  "prio_step (POut, s) = (let my = current_priority s in (if my = URGENT then PIn my else PYield my 0 False, queue_add my 1 s))"
| "prio_step (PYield my w a, s) = (case yield_body my (w, a, s) of
      Inl (w', a', s') \<Rightarrow> (PYield my w' a', s')
    | Inr s' \<Rightarrow> (if my = BACKGROUND then PBack 0 else PIn my, s'))"
| "prio_step (PBack w, s) = (case background_body (w, False, s) of
      Inl (w', a', s') \<Rightarrow> (PBack w', s')
    | Inr s' \<Rightarrow> (PIn BACKGROUND, s'))"
| "prio_step (PIn my, s) = (POut, priority_queue_done s)"

text \<open>The control server: any command but a change of the priority.\<close>

definition keeps_queues :: "('a prio_state_scheme \<Rightarrow> 'a prio_state_scheme) \<Rightarrow> bool" where
  "keeps_queues f \<longleftrightarrow> (\<forall>s. queue_len (f s) = queue_len s \<and> current_priority (f s) = current_priority s)"

inductive queue_step :: "prio_pc list \<times> 'a prio_state_scheme \<Rightarrow> prio_pc list \<times> 'a prio_state_scheme \<Rightarrow> bool" where
  thread: "i < length ts \<Longrightarrow> prio_step (ts ! i, s) = (p, s') \<Longrightarrow> queue_step (ts, s) (ts[i := p], s')"
| control: "keeps_queues f \<Longrightarrow> queue_step (ts, s) (ts, f s)"

inductive_cases queue_stepE: "queue_step (ts, s) u"

section \<open>Facts\<close>

lemma queue_add_simps [simp]:
  "urgent_pending (queue_add p d s) = urgent_pending s"
  "preempt_requested (queue_add p d s) = preempt_requested s"
  "current_priority (queue_add p d s) = current_priority s"
  "queue_len (queue_add p d s) q = (if q = p then wrap64 (queue_len s p + d) else queue_len s q)"
  by (simp_all add: queue_add_def)

lemma backoff_le: "backoff n w \<le> n"
  by (simp add: backoff_def)

lemma wrap64_eq_self: "in_i64 x \<Longrightarrow> wrap64 x = x"
  by (rule wrap64_id)

section \<open>Properties\<close>

text \<open>
  Preemption: a caller of normal priority leaves the gate only in a state without a
  pending urgent request.
\<close>

theorem gate_yields_to_urgent:
  assumes "priority_queue_gate es s = Some (s', rest)" and "current_priority s = NORMAL"
  shows "\<not> urgent_pending s'"
proof -
  have "poll (yield_body NORMAL) (map on_globals es) (0, False, queue_add NORMAL 1 s) = Some (s', rest)"
    using assms by (auto simp: priority_queue_gate_def yield_loop_def split: option.splits prod.splits)
  from poll_result [OF this, of "\<lambda>_. True"] show ?thesis
    by (auto simp: yield_body_def Let_def split: if_splits)
qed

text \<open>The queue a thread is counted in.\<close>

fun counted :: "Priority \<Rightarrow> prio_pc \<Rightarrow> bool" where
  "counted p POut = False"
| "counted p (PYield my w away) = (p = my \<and> \<not> away)"
| "counted p (PBack w) = (p = BACKGROUND)"
| "counted p (PIn my) = (p = my)"

fun has_priority :: "Priority \<Rightarrow> prio_pc \<Rightarrow> bool" where
  "has_priority c POut = True"
| "has_priority c (PYield my w away) = (my = c)"
| "has_priority c (PBack w) = (c = BACKGROUND)"
| "has_priority c (PIn my) = (my = c)"

definition queued :: "Priority \<Rightarrow> prio_pc list \<Rightarrow> int" where
  "queued p ts = (\<Sum>x\<leftarrow>ts. of_bool (counted p x))"

lemma queued_filter: "queued p ts = int (length (filter (counted p) ts))"
  by (induction ts) (auto simp: queued_def)

lemma queued_update:
  "i < length ts \<Longrightarrow> queued p (ts[i := x]) = queued p ts - of_bool (counted p (ts ! i)) + of_bool (counted p x)"
  by (simp add: queued_def sum_list_update_int)

lemma queued_bounds: "0 \<le> queued p ts \<and> queued p ts \<le> int (length ts)"
  by (simp add: queued_filter)

lemma queued_pos: "i < length ts \<Longrightarrow> counted p (ts ! i) \<Longrightarrow> 0 < queued p ts"
  using queued_update [of i ts p POut] queued_bounds [of p "ts[i := POut]"] by simp

lemma queued_room: "i < length ts \<Longrightarrow> \<not> counted p (ts ! i) \<Longrightarrow> queued p ts < int (length ts)"
  using queued_update [of i ts p "PIn p"] queued_bounds [of p "ts[i := PIn p]"] by simp

definition queue_inv :: "Priority \<Rightarrow> prio_pc list \<times> 'a prio_state_scheme \<Rightarrow> bool" where
  "queue_inv c = (\<lambda>(ts, s). int (length ts) \<le> 9223372036854775807 \<and> current_priority s = c \<and>
     (\<forall>x \<in> set ts. has_priority c x) \<and> (\<forall>p. queue_len s p = queued p ts))"

text \<open>One step of a thread moves its own counter by what it is counted for, and no other.\<close>

lemma prio_step_counts:
  fixes s :: "'a prio_state_scheme"
  assumes "prio_step (x, s) = (y, s')" and "has_priority (current_priority s) x"
    and "0 \<le> queue_len s (current_priority s)" and "queue_len s (current_priority s) \<le> 9223372036854775807"
    and "\<not> counted (current_priority s) x \<Longrightarrow> queue_len s (current_priority s) < 9223372036854775807"
    and "counted (current_priority s) x \<Longrightarrow> 0 < queue_len s (current_priority s)"
  shows "current_priority s' = current_priority s \<and> has_priority (current_priority s) y \<and>
    (\<forall>p. queue_len s' p = queue_len s p - of_bool (counted p x) + of_bool (counted p y))"
proof -
  let ?q = "queue_len s (current_priority s)"
  have up: "wrap64 (?q + 1) = ?q + 1" if "\<not> counted (current_priority s) x"
    using assms(3) assms(5) [OF that] by (intro wrap64_id) (simp add: in_i64_def)
  have down: "wrap64 (?q + - 1) = ?q - 1"
    using assms(3,4) wrap64_id [of "?q + - 1"] by (simp add: in_i64_def)
  have rejoin: "wrap64 (wrap64 (?q + 1) + - 1) = ?q"
    unfolding wrap64_add_left using assms(3,4) by (simp add: wrap64_id in_i64_def)
  show ?thesis
  proof (cases x)
    case POut
    then show ?thesis using assms(1) up by (auto simp: Let_def split: if_splits)
  next
    case (PYield my w a)
    then show ?thesis using assms(1,2) up down rejoin by (auto simp: yield_body_def Let_def split: if_splits)
  next
    case (PBack w)
    then show ?thesis using assms(1,2) by (auto simp: background_body_def Let_def split: if_splits)
  next
    case (PIn my)
    then show ?thesis using assms(1,2,6) down by (auto simp: priority_queue_done_def Let_def)
  qed
qed

lemma queue_inv_step:
  assumes "queue_inv c u" and "queue_step u v"
  shows "queue_inv c v"
  using assms(2)
proof cases
  case (thread i ts s y s')
  have I: "int (length ts) \<le> 9223372036854775807" "current_priority s = c" "\<forall>x \<in> set ts. has_priority c x" "\<forall>p. queue_len s p = queued p ts"
    using assms(1) by (simp_all add: queue_inv_def thread(1))
  have room: "queued c ts < 9223372036854775807" if "\<not> counted c (ts ! i)" using queued_room [OF thread(3) that] I(1) by linarith
  have top: "queued c ts \<le> 9223372036854775807" using queued_bounds [of c ts] I(1) by linarith
  have st: "current_priority s' = c \<and> has_priority c y \<and> (\<forall>p. queue_len s' p = queue_len s p - of_bool (counted p (ts ! i)) + of_bool (counted p y))"
    using prio_step_counts [OF thread(4)] I(2-4) thread(3) queued_bounds [of c ts] room top queued_pos [OF thread(3), of c] by simp
  then show ?thesis using I queued_update [OF thread(3)] unfolding thread(2)
    by (auto simp: queue_inv_def dest!: set_update_subset_insert [THEN subsetD])
next
  case (control f ts s)
  then show ?thesis using assms(1) by (simp add: queue_inv_def keeps_queues_def)
qed

interpretation queue: inductive_invariant queue_step "queue_inv c" for c
  by unfold_locales (rule queue_inv_step)

text \<open>
  C37. The queue counters count: as long as nobody changes the priority of the process, in every
  interleaving of any number of launching threads each counter is the number of threads of
  its priority that have entered the gate and not completed their kernel, less those that are
  sleeping in favour of an urgent request. So every thread that completes leaves the counters
  as if it had never come.
\<close>

theorem queue_counts_threads:
  assumes "\<forall>x \<in> set ts. x = POut" and "\<forall>p. queue_len s p = 0" and "int (length ts) \<le> 9223372036854775807"
    and "reach queue_step (ts, s) (ts', s')"
  shows "queue_len s' p = int (length (filter (counted p) ts'))"
proof -
  have "queued p ts = 0" for p using assms(1) by (auto simp: queued_filter filter_empty_conv)
  then have "queue_inv (current_priority s) (ts, s)" using assms(1-3) by (auto simp: queue_inv_def)
  from queue.reach_inv [OF assms(4) this] show ?thesis by (simp add: queue_inv_def queued_filter)
qed

text \<open>The calls of one thread are runs of this machine.\<close>

lemma poll_is_run:
  fixes s :: "'a prio_state_scheme"
  assumes "\<And>w a s w' a' s'. body (w, a, s) = Inl (w', a', s') \<Longrightarrow> queue_step ([mk w a], s) ([mk w' a'], s' :: 'a prio_state_scheme)"
    and "\<And>w a s s'. body (w, a, s) = Inr s' \<Longrightarrow> queue_step ([mk w a], s) ([fin], s')"
    and "\<forall>d \<in> set ds. \<exists>e. d = on_globals e \<and> keeps_queues e" and "poll body ds (w, a, s) = Some (s', rest)"
  shows "reach queue_step ([mk w a], s) ([fin], s')"
  using assms(3,4)
proof (induction ds arbitrary: w a s)
  case Nil
  then show ?case by (cases "body (w, a, s)") (auto simp: poll_exit poll_Nil intro: reach_one assms(2))
next
  case (Cons d ds)
  obtain e where e: "d = on_globals e" "keeps_queues e" using Cons.prems(1) by auto
  show ?case
  proof (cases "body (w, a, s)")
    case (Inl t)
    obtain w' a' t' where t: "t = (w', a', t')" by (cases t)
    have "poll body ds (w', a', e t') = Some (s', rest)" using Cons.prems(2) Inl t e(1) by (simp add: poll_Cons on_globals_def)
    then have "reach queue_step ([mk w' a'], e t') ([fin], s')" using Cons.IH Cons.prems(1) by auto
    moreover have "queue_step ([mk w a], s) ([mk w' a'], t')" using assms(1) Inl t by blast
    moreover have "queue_step ([mk w' a'], t') ([mk w' a'], e t')" by (rule control [OF e(2)])
    ultimately show ?thesis by (blast intro: reach_Cons)
  qed (use Cons.prems(2) in \<open>auto simp: poll_exit intro: reach_one assms(2)\<close>)
qed

lemma solo_step: "prio_step (x, s) = (y, s') \<Longrightarrow> queue_step ([x], s) ([y], s')"
  using thread [of 0 "[x]" s y s'] by simp

lemma gate_is_run:
  assumes "priority_queue_gate es s = Some (s', rest)" and "\<forall>e \<in> set es. keeps_queues e"
  shows "reach queue_step ([POut], s) ([PIn (current_priority s)], s')"
proof -
  let ?my = "current_priority s" and ?s1 = "queue_add (current_priority s) 1 s"
  have ds: "\<forall>d \<in> set (map on_globals es). \<exists>e. d = on_globals e \<and> keeps_queues e" using assms(2) by auto
  have start: "queue_step ([POut], s) ([if ?my = URGENT then PIn ?my else PYield ?my 0 False], ?s1)"
    by (rule solo_step) (simp add: Let_def)
  show ?thesis
  proof (cases "?my = URGENT")
    case True
    then show ?thesis using assms(1) start by (auto simp: priority_queue_gate_def yield_loop_def Let_def intro: reach_one)
  next
    case False
    then obtain s2 ds2 where y: "poll (yield_body ?my) (map on_globals es) (0, False, ?s1) = Some (s2, ds2)"
      and b: "if ?my = BACKGROUND then poll background_body ds2 (0, False, s2) = Some (s', rest) else s' = s2"
      using assms(1) by (auto simp: priority_queue_gate_def yield_loop_def Let_def split: option.splits if_splits)
    have "reach queue_step ([PYield ?my 0 False], ?s1) ([if ?my = BACKGROUND then PBack 0 else PIn ?my], s2)"
      by (rule poll_is_run [OF _ _ ds y]) (auto intro!: solo_step)
    moreover have "reach queue_step ([PBack 0], s2) ([PIn BACKGROUND], s')" if "?my = BACKGROUND"
    proof (rule poll_is_run [where mk = "\<lambda>w a. PBack w"])
      show "\<forall>d \<in> set ds2. \<exists>e. d = on_globals e \<and> keeps_queues e" using ds poll_rest [OF y] by blast
      show "poll background_body ds2 (0, False, s2) = Some (s', rest)" using b that by simp
    qed (auto intro!: solo_step simp: background_body_def Let_def split: if_splits)
    ultimately show ?thesis using start False b by (auto intro: reach_Cons reach_trans split: if_splits)
  qed
qed

lemma background_waits:
  fixes s :: "'a prio_state_scheme"
  assumes "current_priority s = BACKGROUND" and "\<not> urgent_pending s" and "higher_queued (queue_add BACKGROUND 1 s)"
    and "\<forall>e \<in> set es. \<forall>t. higher_queued t \<longrightarrow> higher_queued (e t)"
  shows "priority_queue_gate es s = None"
proof -
  let ?s1 = "queue_add BACKGROUND 1 s"
  have "poll background_body (map on_globals es) (0, False, ?s1) = None"
  proof (rule poll_stuck [where I = "\<lambda>(w, a, t). higher_queued t"])
    fix c :: "'a prio_conf" assume "case c of (w, a, t) \<Rightarrow> higher_queued t"
    then obtain w a t where c: "c = (w, a, t)" "higher_queued t" by (cases c) auto
    have "backoff 50 w \<le> 50" by (rule backoff_le)
    then have "background_body c = Inl (backoff 50 w, a, t)" using c by (simp add: background_body_def Let_def)
    then show "\<exists>c'. background_body c = Inl c' \<and> (\<forall>e \<in> set (map on_globals es). case e c' of (w, a, t) \<Rightarrow> higher_queued t)"
      using assms(4) c by (auto simp: on_globals_def)
  qed (use assms(3) in simp)
  moreover have "poll (yield_body BACKGROUND) (map on_globals es) (0, False, ?s1) = Some (?s1, map on_globals es)"
    using assms(2) by (intro poll_exit) (simp add: yield_body_def)
  ultimately show ?thesis using assms(1) by (simp add: priority_queue_gate_def yield_loop_def)
qed

text \<open>
  The ten millisecond timeout of background callers does not exist: \<open>waited\<close> is reset at 50,
  so the test \<open>waited > 100\<close> never holds, and a background caller waits for as long as the
  counters show a queued kernel of a higher priority.
\<close>

theorem background_timeout_never_fires:
  fixes s :: "'a prio_state_scheme"
  assumes "current_priority s = BACKGROUND" and "\<not> urgent_pending s" and "higher_queued (queue_add BACKGROUND 1 s)"
    and "\<forall>e \<in> set es. \<forall>t. higher_queued t \<longrightarrow> higher_queued (e t)"
  shows "priority_queue_gate es s = None"
  by (rule background_waits [OF assms])

text \<open>
  A change of the priority between the gate and the completion of a kernel corrupts the
  counters: the counter of the old priority keeps the finished kernel for ever. Once this has
  happened twice to a tenant that is moved from normal to background, it waits for its own
  ghosts: its next kernel never passes the gate, even with nobody else in the queues.
\<close>

theorem priority_change_leaks_queue_entry:
  fixes s :: "'a prio_state_scheme"
  assumes "current_priority s = NORMAL" and "\<not> urgent_pending s"
    and "0 \<le> queue_len s NORMAL" and "queue_len s NORMAL < 9223372036854775807" and "queue_len s BACKGROUND = 0"
    and "priority_queue_gate [] s = Some (s1, rest)"
  shows "let s2 = priority_queue_done (s1\<lparr>current_priority := BACKGROUND\<rparr>) in
    queue_len s2 NORMAL = queue_len s NORMAL + 1 \<and> queue_len s2 BACKGROUND = 0 \<and>
    (1 \<le> queue_len s NORMAL \<longrightarrow> (\<forall>n. priority_queue_gate (replicate n (\<lambda>t. t)) s2 = None))"
proof -
  have n: "in_i64 (queue_len s NORMAL + 1)" using assms(3,4) by (simp add: in_i64_def)
  have s1: "s1 = queue_add NORMAL 1 s"
    using assms(1,2,6) by (simp add: priority_queue_gate_def yield_loop_def poll_exit yield_body_def)
  define s2 where "s2 = priority_queue_done (s1\<lparr>current_priority := BACKGROUND\<rparr>)"
  have q: "queue_len s2 NORMAL = queue_len s NORMAL + 1" "queue_len s2 BACKGROUND = 0"
    "current_priority s2 = BACKGROUND" "\<not> urgent_pending s2"
    using assms(2,5) by (auto simp: s2_def s1 priority_queue_done_def Let_def queue_add_def wrap64_id [OF n])
  have "priority_queue_gate (replicate k (\<lambda>t. t)) s2 = None" if "1 \<le> queue_len s NORMAL" for k
  proof (rule background_waits)
    have "wrap64 1 = 1" by (simp add: wrap64_def)
    then show "higher_queued (queue_add BACKGROUND 1 s2)" using q that by (simp add: higher_queued_def)
  qed (use q in auto)
  with q show ?thesis by (simp add: s2_def [symmetric] Let_def)
qed

section \<open>Instances\<close>

definition sample_prio :: "Priority \<Rightarrow> (Priority \<Rightarrow> int) \<Rightarrow> prio_state" where
  "sample_prio p q = \<lparr>boost_mode = False, pause_mode = False, any_alloc = False, current_priority = p, queue_len = q,
     urgent_pending = False, preempt_requested = False\<rparr>"

lemma gate_normal_free:
  "current_priority s = NORMAL \<Longrightarrow> \<not> urgent_pending s \<Longrightarrow> priority_queue_gate [] s = Some (queue_add NORMAL 1 s, [])"
  by (simp add: priority_queue_gate_def yield_loop_def poll_exit yield_body_def)

theorem gate_yields_to_urgent_witness:
  "\<not> urgent_pending (queue_add NORMAL 1 (sample_prio NORMAL (\<lambda>_. 0)))"
  by (rule gate_yields_to_urgent [OF gate_normal_free]) (simp_all add: sample_prio_def)

theorem queue_counts_threads_witness:
  "queue_len (snd (prio_step (POut, queue_add NORMAL 1 (sample_prio NORMAL (\<lambda>_. 0))))) NORMAL = 2"
proof -
  let ?s = "sample_prio NORMAL (\<lambda>_. 0)"
  have 1: "queue_step ([POut, POut], ?s) ([PYield NORMAL 0 False, POut], queue_add NORMAL 1 ?s)"
    using thread [of 0 "[POut, POut]" ?s] by (simp add: sample_prio_def Let_def)
  have 2: "queue_step ([PYield NORMAL 0 False, POut], queue_add NORMAL 1 ?s)
      ([PYield NORMAL 0 False, PYield NORMAL 0 False], snd (prio_step (POut, queue_add NORMAL 1 ?s)))"
    using thread [of 1 "[PYield NORMAL 0 False, POut]" "queue_add NORMAL 1 ?s"] by (simp add: sample_prio_def Let_def)
  have "reach queue_step ([POut, POut], ?s) ([PYield NORMAL 0 False, PYield NORMAL 0 False], snd (prio_step (POut, queue_add NORMAL 1 ?s)))"
    using 1 2 by (blast intro: reach_Cons reach_one)
  from queue_counts_threads [OF _ _ _ this, of NORMAL] show ?thesis by (simp add: sample_prio_def)
qed

theorem background_timeout_never_fires_witness:
  "priority_queue_gate (replicate 1000 (\<lambda>t. t)) (sample_prio BACKGROUND (\<lambda>p. if p = URGENT then 1 else 0)) = None"
  using background_timeout_never_fires [of "sample_prio BACKGROUND (\<lambda>p. if p = URGENT then 1 else 0)" "replicate 1000 (\<lambda>t. t)"]
  by (simp add: sample_prio_def higher_queued_def)

theorem priority_change_leaks_queue_entry_witness:
  "priority_queue_gate [] (priority_queue_done ((queue_add NORMAL 1 (sample_prio NORMAL (\<lambda>p. if p = NORMAL then 1 else 0)))
     \<lparr>current_priority := BACKGROUND\<rparr>)) = None"
proof -
  let ?s = "sample_prio NORMAL (\<lambda>p. if p = NORMAL then 1 else 0)"
  have "priority_queue_gate [] ?s = Some (queue_add NORMAL 1 ?s, [])" by (rule gate_normal_free) (simp_all add: sample_prio_def)
  from priority_change_leaks_queue_entry [OF _ _ _ _ _ this]
  have "\<forall>n. priority_queue_gate (replicate n (\<lambda>t. t)) (priority_queue_done ((queue_add NORMAL 1 ?s)\<lparr>current_priority := BACKGROUND\<rparr>)) = None"
    by (simp add: sample_prio_def Let_def)
  from this [rule_format, of 0] show ?thesis by simp
qed

end
