(* ===== verification/BlessCredit.thy ===== *)
theory BlessCredit
  imports BlessPrio
begin

text \<open>
  \<open>libbless.cpp\<close>, the gate on the number of kernels (\<open>kernel_credit_gate\<close>): threads take
  chunks of up to 16 credits from the shared counter \<open>credit_remain\<close> by compare-and-swap and
  spend them from a thread local burst. \<open>kgate_step\<close> is one atomic access of one thread, the
  interleaving of several threads is \<open>kcredit_step\<close>.
\<close>

section \<open>State\<close>

record credit_state = prio_state +
  credit_mode :: int
  credit_remain :: int

definition BURST :: int where "BURST = 16"

text \<open>
  Program points of a call: the test of \<open>boost_mode\<close>, the test for unlimited credit, the burst,
  the load of the loop, and the compare-and-swap with the value that was loaded. \<open>passed\<close>
  counts the calls that have returned because a credit was spent; \<open>free_passes\<close> those that
  returned through the boost or the unlimited mode.
\<close>

datatype kgate_pc = KIdle | KBoost | KUnlimited | KBurst | KLoad | KCas int

record kthread =
  kpc :: kgate_pc
  tl_burst :: int
  kwaited :: nat
  passed :: nat
  free_passes :: nat

section \<open>Steps\<close>

text \<open>\<open>weak_fail\<close>: the weak compare-and-swap may fail without reason.\<close>

fun kgate_step :: "bool \<Rightarrow> kthread \<times> 'a credit_state_scheme \<Rightarrow> kthread \<times> 'a credit_state_scheme" where
  "kgate_step weak_fail (t, s) = (case kpc t of
      KIdle \<Rightarrow> (t\<lparr>kpc := KBoost, kwaited := 0\<rparr>, s)
    | KBoost \<Rightarrow> (if boost_mode s then (t\<lparr>kpc := KIdle, free_passes := free_passes t + 1\<rparr>, s) else (t\<lparr>kpc := KUnlimited\<rparr>, s))
    | KUnlimited \<Rightarrow> (if credit_remain s < 0 then (t\<lparr>kpc := KIdle, free_passes := free_passes t + 1\<rparr>, s) else (t\<lparr>kpc := KBurst\<rparr>, s))
    | KBurst \<Rightarrow> (if tl_burst t > 0 then (t\<lparr>kpc := KIdle, tl_burst := tl_burst t - 1, passed := passed t + 1\<rparr>, s)
                 else (t\<lparr>kpc := KLoad\<rparr>, s))
    | KLoad \<Rightarrow>
        let cur = credit_remain s in
        if cur < 0 then (t\<lparr>kpc := KIdle, free_passes := free_passes t + 1\<rparr>, s)
        else if cur > 0 then (t\<lparr>kpc := KCas cur\<rparr>, s)
        else (t\<lparr>kwaited := backoff 50 (kwaited t)\<rparr>, s)
    | KCas cur \<Rightarrow>
        let chunk = (if cur \<ge> BURST then BURST else cur) in
        if credit_remain s = cur \<and> \<not> weak_fail
        then (t\<lparr>kpc := KIdle, tl_burst := chunk - 1, passed := passed t + 1\<rparr>, s\<lparr>credit_remain := cur - chunk\<rparr>)
        else (t\<lparr>kpc := KLoad\<rparr>, s))"

declare kgate_step.simps [simp del]

section \<open>Interleaving\<close>

text \<open>Any number of threads of the process, each launching kernels for ever.\<close>

inductive kcredit_step :: "kthread list \<times> 'a credit_state_scheme \<Rightarrow> kthread list \<times> 'a credit_state_scheme \<Rightarrow> bool" where
  kstep: "i < length ts \<Longrightarrow> kgate_step weak_fail (ts ! i, s) = (t', s') \<Longrightarrow> kcredit_step (ts, s) (ts[i := t'], s')"

inductive_cases kcredit_stepE: "kcredit_step (ts, s) u"

definition spent :: "kthread list \<Rightarrow> int" where
  "spent ts = sum_list (map (\<lambda>t. int (passed t)) ts)"

definition cached :: "kthread list \<Rightarrow> int" where
  "cached ts = sum_list (map tl_burst ts)"

definition thread_ok :: "kthread \<Rightarrow> bool" where
  "thread_ok t \<longleftrightarrow> 0 \<le> tl_burst t \<and> (\<forall>cur. kpc t = KCas cur \<longrightarrow> 0 < cur \<and> tl_burst t = 0) \<and> (kpc t = KLoad \<longrightarrow> tl_burst t = 0)"

definition credit_inv :: "int \<Rightarrow> kthread list \<times> 'a credit_state_scheme \<Rightarrow> bool" where
  "credit_inv c = (\<lambda>(ts, s). \<not> boost_mode s \<and> 0 \<le> credit_remain s \<and> list_all thread_ok ts \<and>
     list_all (\<lambda>t. free_passes t = 0) ts \<and> spent ts + cached ts + credit_remain s = c)"

lemma spent_update: "i < length ts \<Longrightarrow> spent (ts[i := t]) = spent ts - int (passed (ts ! i)) + int (passed t)"
  unfolding spent_def by (rule sum_list_update_int)

lemma cached_update: "i < length ts \<Longrightarrow> cached (ts[i := t]) = cached ts - tl_burst (ts ! i) + tl_burst t"
  unfolding cached_def by (rule sum_list_update_int)

lemma kgate_step_account:
  assumes "kgate_step weak (t, s) = (t', s')" and "thread_ok t" and "\<not> boost_mode s" and "0 \<le> credit_remain s"
  shows "thread_ok t' \<and> free_passes t' = free_passes t \<and> boost_mode s' = boost_mode s \<and> 0 \<le> credit_remain s' \<and>
    int (passed t') + tl_burst t' + credit_remain s' = int (passed t) + tl_burst t + credit_remain s"
  using assms by (cases "kpc t") (auto simp: kgate_step.simps thread_ok_def Let_def BURST_def split: if_splits)

lemma list_all_update: "list_all P xs \<Longrightarrow> P y \<Longrightarrow> list_all P (xs[i := y])"
  by (induction xs arbitrary: i) (auto split: nat.split)

lemma credit_inv_step: "credit_inv c u \<Longrightarrow> kcredit_step u v \<Longrightarrow> credit_inv c v"
proof (cases u)
  case (Pair ts s)
  assume inv: "credit_inv c u" and st: "kcredit_step u v"
  show ?thesis
  proof (rule kcredit_stepE [OF st [unfolded Pair]])
    fix i weak t' s' assume v: "v = (ts[i := t'], s')" and i: "i < length ts" and k: "kgate_step weak (ts ! i, s) = (t', s')"
    have ok: "thread_ok (ts ! i)" "free_passes (ts ! i) = 0" using inv i by (auto simp: Pair credit_inv_def list_all_length)
    have "\<not> boost_mode s" "0 \<le> credit_remain s" using inv by (simp_all add: Pair credit_inv_def)
    note a = kgate_step_account [OF k ok(1) this]
    show ?thesis using inv a ok i v by (simp add: Pair credit_inv_def list_all_update spent_update cached_update)
  qed
qed

interpretation kcredit: inductive_invariant kcredit_step "credit_inv c" for c
  by unfold_locales (rule credit_inv_step)

section \<open>Properties\<close>

definition fresh_thread :: "kthread \<Rightarrow> bool" where
  "fresh_thread t \<longleftrightarrow> kpc t = KIdle \<and> tl_burst t = 0 \<and> passed t = 0 \<and> free_passes t = 0"

lemma fresh_threads: "list_all fresh_thread ts \<Longrightarrow>
    spent ts = 0 \<and> cached ts = 0 \<and> list_all thread_ok ts \<and> list_all (\<lambda>t. free_passes t = 0) ts"
  by (induction ts) (auto simp: spent_def cached_def fresh_thread_def thread_ok_def)

text \<open>
  C7. Kernel credits are conserved: in every interleaving of any number of threads, with every
  compare-and-swap that fails for a race or without reason, the kernels let through, the
  credits cached by the threads and the credits left in the counter add up to the credits
  granted. The counter never becomes negative, which would mean unlimited credit, so no more
  kernels than credits ever pass.
\<close>

theorem kernel_credits_conserved:
  assumes "list_all fresh_thread ts" and "\<not> boost_mode s" and "0 \<le> credit_remain s"
    and "reach kcredit_step (ts, s) (ts', s')"
  shows "spent ts' + cached ts' + credit_remain s' = credit_remain s \<and> 0 \<le> credit_remain s' \<and> 0 \<le> cached ts' \<and>
    spent ts' \<le> credit_remain s \<and> list_all (\<lambda>t. free_passes t = 0) ts'"
proof -
  have "credit_inv (credit_remain s) (ts, s)" using fresh_threads [OF assms(1)] assms(2,3) by (simp add: credit_inv_def)
  from kcredit.reach_inv [OF assms(4) this] have inv: "credit_inv (credit_remain s) (ts', s')" .
  then have "\<forall>t \<in> set ts'. 0 \<le> tl_burst t" by (simp add: credit_inv_def list_all_iff thread_ok_def)
  then have "0 \<le> cached ts'" unfolding cached_def by (intro sum_list_map_nonneg) auto
  with inv show ?thesis by (simp add: credit_inv_def)
qed

definition sample_credit :: "int \<Rightarrow> credit_state" where
  "sample_credit c = \<lparr>boost_mode = False, pause_mode = False, any_alloc = False, current_priority = NORMAL,
     queue_len = (\<lambda>_. 0), urgent_pending = False, preempt_requested = False, credit_mode = 0, credit_remain = c\<rparr>"

definition new_thread :: kthread where
  "new_thread = \<lparr>kpc = KIdle, tl_burst = 0, kwaited = 0, passed = 0, free_passes = 0\<rparr>"

fun run_thread :: "nat \<Rightarrow> kthread \<times> 'a credit_state_scheme \<Rightarrow> kthread \<times> 'a credit_state_scheme" where
  "run_thread 0 u = u"
| "run_thread (Suc n) u = run_thread n (kgate_step False u)"

lemma run_thread_reach: "reach kcredit_step ([t], s) ((\<lambda>(t', s'). ([t'], s')) (run_thread n (t, s)))"
proof (induction n arbitrary: t s)
  case (Suc n)
  obtain t' s' where k: "kgate_step False (t, s) = (t', s')" by (cases "kgate_step False (t, s)")
  have "kcredit_step ([t], s) ([t'], s')" using kstep [of 0 "[t]" False s t' s'] k by simp
  then show ?case using Suc.IH [of t' s'] k by (auto intro: reach_Cons)
qed (simp add: reach_refl)

theorem kernel_credits_conserved_witness:
  "spent [fst (run_thread 60 (new_thread, sample_credit 5))] \<le> 5"
proof -
  obtain t' s' where r: "run_thread 60 (new_thread, sample_credit 5) = (t', s')" by (cases "run_thread 60 (new_thread, sample_credit 5)")
  have "reach kcredit_step ([new_thread], sample_credit 5) ([t'], s')"
    using run_thread_reach [of new_thread "sample_credit 5" 60] r by simp
  then have "spent [t'] \<le> credit_remain (sample_credit 5)"
    using kernel_credits_conserved [of "[new_thread]" "sample_credit 5" "[t']" s']
    by (simp add: fresh_thread_def new_thread_def sample_credit_def)
  then show ?thesis by (simp add: r) (simp add: sample_credit_def)
qed

text \<open>The bound is attained: one thread alone spends every credit and then waits at the load.\<close>

lemma all_credits_spent: "spent [fst (run_thread 60 (new_thread, sample_credit 5))] = 5 \<and>
    kpc (fst (run_thread 60 (new_thread, sample_credit 5))) = KLoad"
  by code_simp

end
