(* ===== verification/BlessTime.thy ===== *)
theory BlessTime
  imports BlessCredit
begin

text \<open>
  \<open>libbless.cpp\<close>, the time credit: the batch clock of a thread (\<open>time_batch_start\<close>,
  \<open>time_batch_end_and_charge\<close>), the gate (\<open>time_credit_gate\<close>) with borrowing for urgent
  tenants and free riding on idle peers, the gate statistics and the sampling helpers. Every
  reading of the clock \<open>now_us()\<close> is an explicit argument.
\<close>

section \<open>State\<close>

record time_state = credit_state +
  time_credit_us :: int
  time_unlimited :: bool
  time_slice_us :: int
  avg_kernel_time_us :: int
  total_time_us :: int
  urgent_limit_us :: int
  urgent_borrow_events :: int
  urgent_borrow_us :: int
  urgent_denied :: int
  sample_counter :: int
  sample_start_us :: int
  sample_kernel_count :: int
  gate_metrics_on :: bool
  gate_block_count :: int
  gate_block_total_us :: int
  gate_block_max_us :: int
  wc_on :: bool
  peer_idle :: bool
  peer_idle_at_us :: int
  wc_pass_count :: int
  wc_extra_us :: int

text \<open>The thread local variables.\<close>

record tls =
  tl_batch_start_us :: int
  tl_batch_kernel_count :: int
  tl_wc_riding :: bool

definition tls_zero :: tls where
  "tls_zero = \<lparr>tl_batch_start_us = 0, tl_batch_kernel_count = 0, tl_wc_riding = False\<rparr>"

section \<open>Batches\<close>

definition time_batch_start :: "int \<Rightarrow> tls \<Rightarrow> tls" where
  "time_batch_start now l =
     (let l1 = (if tl_batch_kernel_count l = 0 then l\<lparr>tl_batch_start_us := now\<rparr> else l)
      in l1\<lparr>tl_batch_kernel_count := wrap32 (tl_batch_kernel_count l1 + 1)\<rparr>)"

definition ema4 :: "int \<Rightarrow> int \<Rightarrow> int" where
  "ema4 old_avg avg = (let new_avg = c_div (wrap64 (old_avg * 3 + avg)) 4 in if new_avg < 1 then 1 else new_avg)"

definition close_batch :: "tls \<Rightarrow> tls" where
  "close_batch l = l\<lparr>tl_batch_kernel_count := 0, tl_batch_start_us := 0\<rparr>"

definition time_batch_end_and_charge :: "int \<Rightarrow> tls \<times> 'a time_state_scheme \<Rightarrow> tls \<times> 'a time_state_scheme" where
  "time_batch_end_and_charge now = (\<lambda>(l, s).
     if tl_batch_kernel_count l = 0 then (l, s)
     else let elapsed = wrap64 (now - tl_batch_start_us l) in
       if tl_wc_riding l
       then (close_batch (l\<lparr>tl_wc_riding := False\<rparr>), s\<lparr>wc_extra_us := wrap64 (wc_extra_us s + elapsed)\<rparr>)
       else let s1 = s\<lparr>total_time_us := wrap64 (total_time_us s + elapsed)\<rparr>;
                s2 = (if tl_batch_kernel_count l > 0
                      then s1\<lparr>avg_kernel_time_us := ema4 (avg_kernel_time_us s1) (c_div elapsed (tl_batch_kernel_count l))\<rparr>
                      else s1);
                s3 = (if \<not> time_unlimited s2 then s2\<lparr>time_credit_us := wrap64 (time_credit_us s2 - elapsed)\<rparr> else s2)
            in (close_batch l, s3))"

section \<open>The gate\<close>

definition bless_gate_block_record :: "int \<Rightarrow> int \<Rightarrow> 'a time_state_scheme \<Rightarrow> 'a time_state_scheme" where
  "bless_gate_block_record now t0 s =
     (let d = wrap64 (now - t0) in
      s\<lparr>gate_block_count := wrap64 (gate_block_count s + 1), gate_block_total_us := wrap64 (gate_block_total_us s + d),
        gate_block_max_us := (if d > gate_block_max_us s then d else gate_block_max_us s)\<rparr>)"

definition leave_gate :: "bool \<Rightarrow> int \<Rightarrow> int \<Rightarrow> 'a time_state_scheme \<Rightarrow> 'a time_state_scheme" where
  "leave_gate gm now t0 s = (if gm then bless_gate_block_record now t0 s else s)"

definition peer_is_idle :: "int \<Rightarrow> 'a time_state_scheme \<Rightarrow> bool" where
  "peer_is_idle now s \<longleftrightarrow> wc_on s \<and> peer_idle s \<and> wrap64 (now - peer_idle_at_us s) < 20000"

text \<open>
  The wait loop. The polled state holds the clock, the credit that the thread has read (\<open>None\<close>
  when it has just woken up and has to look again), the wait counter, the thread locals and
  the globals.
\<close>

type_synonym 'a tgate_conf = "int \<times> int option \<times> nat \<times> tls \<times> 'a time_state_scheme"

definition tgate_wait :: "int \<Rightarrow> bool \<Rightarrow> int \<Rightarrow> 'a tgate_conf \<Rightarrow> 'a tgate_conf + tls \<times> 'a time_state_scheme" where
  "tgate_wait wake_at gm t0 = (\<lambda>(now, cr, waited, l, s).
     if cr = None \<and> time_unlimited s then Inr (l, leave_gate gm now t0 s)
     else let credit = (case cr of Some c \<Rightarrow> c | None \<Rightarrow> time_credit_us s) in
       if credit > wake_at then Inr (l, leave_gate gm now t0 s)
       else if peer_is_idle now s
       then Inr (l\<lparr>tl_wc_riding := True\<rparr>, leave_gate gm now t0 (s\<lparr>wc_pass_count := wrap64 (wc_pass_count s + 1)\<rparr>))
       else Inl (now, None, backoff 50 waited, l, s))"

definition tick :: "int \<times> ('s \<Rightarrow> 's) \<Rightarrow> int \<times> 'c \<times> 'w \<times> 'l \<times> 's \<Rightarrow> int \<times> 'c \<times> 'w \<times> 'l \<times> 's" where
  "tick e = (\<lambda>(now, cr, waited, l, s). (fst e, cr, waited, l, snd e s))"

definition urgent_borrow :: "'a time_state_scheme \<Rightarrow> 'a time_state_scheme" where
  "urgent_borrow s = s\<lparr>urgent_borrow_events := wrap64 (urgent_borrow_events s + 1),
     urgent_borrow_us := wrap64 (urgent_borrow_us s + - time_credit_us s)\<rparr>"

text \<open>
  The gate up to its wait loop: \<open>Inr\<close> when the thread passes at once or by borrowing, \<open>Inl\<close> with
  the level to wait for, whether the wait is measured, and the polled state when it has to wait.
\<close>

definition tgate_enter :: "int \<Rightarrow> tls \<times> 'a time_state_scheme \<Rightarrow> (int \<times> bool \<times> 'a tgate_conf) + tls \<times> 'a time_state_scheme" where
  "tgate_enter now = (\<lambda>(l, s).
     if boost_mode s \<or> time_unlimited s \<or> time_credit_us s > 0 then Inr (l, s)
     else let credit = time_credit_us s; urgent = (current_priority s = URGENT); lim = urgent_limit_us s in
       if urgent \<and> credit > - lim then Inr (l, urgent_borrow s)
       else let s1 = (if urgent then s\<lparr>urgent_denied := wrap64 (urgent_denied s + 1)\<rparr> else s);
                (l2, s2) = time_batch_end_and_charge now (l, s1);
                wake_at = (if urgent then - lim else 0)
            in Inl (wake_at, gate_metrics_on s2, now, Some credit, 0, l2, s2))"

definition time_credit_gate :: "(int \<times> ('a time_state_scheme \<Rightarrow> 'a time_state_scheme)) list \<Rightarrow> int \<Rightarrow>
    tls \<times> 'a time_state_scheme \<Rightarrow> (tls \<times> 'a time_state_scheme) option" where
  "time_credit_gate es now u = (case tgate_enter now u of
      Inr v \<Rightarrow> Some v
    | Inl (wake_at, gm, c) \<Rightarrow> map_option fst (poll (tgate_wait wake_at gm now) (map tick es) c))"

section \<open>Sampling helpers\<close>

definition sample_kernel_start :: "int \<Rightarrow> 'a time_state_scheme \<Rightarrow> 'a time_state_scheme" where
  "sample_kernel_start now s =
     (let s1 = s\<lparr>sample_counter := wrap32 (sample_counter s + 1)\<rparr>;
          s2 = (if sample_counter s = 0 then s1\<lparr>sample_start_us := now\<rparr> else s1)
      in s2\<lparr>sample_kernel_count := wrap32 (sample_kernel_count s2 + 1)\<rparr>)"

definition do_sample_measurement :: "int \<Rightarrow> 'a time_state_scheme \<Rightarrow> 'a time_state_scheme" where
  "do_sample_measurement now s =
     (if sample_kernel_count s = 0 then s
      else let elapsed = wrap64 (now - sample_start_us s);
               s1 = (if sample_kernel_count s > 0 \<and> elapsed > 0
                     then let s' = s\<lparr>avg_kernel_time_us := ema4 (avg_kernel_time_us s) (c_div elapsed (sample_kernel_count s))\<rparr>;
                              s'' = (if time_credit_us s' \<ge> 0 then s'\<lparr>time_credit_us := wrap64 (time_credit_us s' - elapsed)\<rparr> else s')
                          in s''\<lparr>total_time_us := wrap64 (total_time_us s'' + elapsed)\<rparr>
                     else s)
           in s1\<lparr>sample_counter := 0, sample_kernel_count := 0, sample_start_us := now\<rparr>)"

section \<open>Charging\<close>

lemma wrap64_sum_cancel: "wrap64 (wrap64 (c - d) + wrap64 (t + d)) = wrap64 (c + t)"
proof -
  have "wrap64 (wrap64 (t + d) + (c - d)) = wrap64 (t + d + (c - d))" by (rule wrap64_add_left)
  moreover have "wrap64 (wrap64 (c - d) + wrap64 (t + d)) = wrap64 (c - d + wrap64 (t + d))" by (rule wrap64_add_left)
  ultimately show ?thesis by (simp add: algebra_simps)
qed

lemma charge_fields:
  assumes "time_batch_end_and_charge now (l, s) = (l', s')"
  shows "boost_mode s' = boost_mode s \<and> time_unlimited s' = time_unlimited s \<and> current_priority s' = current_priority s \<and>
    urgent_limit_us s' = urgent_limit_us s \<and> wc_on s' = wc_on s \<and> tl_batch_kernel_count l' = 0 \<and>
    (tl_wc_riding l \<and> tl_batch_kernel_count l \<noteq> 0 \<longrightarrow> time_credit_us s' = time_credit_us s \<and> total_time_us s' = total_time_us s)"
  using assms by (auto simp: time_batch_end_and_charge_def close_batch_def Let_def split: if_splits)

lemma batch_open:
  assumes "tl_batch_kernel_count l = 0" and "int (length ts) < 2147483647"
  shows "tl_batch_start_us (fold time_batch_start (t0 # ts) l) = t0 \<and>
    tl_batch_kernel_count (fold time_batch_start (t0 # ts) l) = int (length ts) + 1 \<and>
    tl_wc_riding (fold time_batch_start (t0 # ts) l) = tl_wc_riding l"
  using assms(2)
proof (induction ts rule: rev_induct)
  case Nil
  then show ?case using assms(1) by (simp add: time_batch_start_def wrap32_def)
next
  case (snoc t ts)
  have "wrap32 (int (length ts) + 1 + 1) = int (length ts) + 1 + 1" using snoc.prems by (simp add: wrap32_def)
  then show ?case using snoc by (simp add: time_batch_start_def)
qed

lemma charge_exact:
  assumes "time_batch_end_and_charge now (l, s) = (l', s')" and "tl_batch_kernel_count l \<noteq> 0"
  shows "wc_extra_us s' = (if tl_wc_riding l then wrap64 (wc_extra_us s + wrap64 (now - tl_batch_start_us l)) else wc_extra_us s)"
    and "total_time_us s' = (if tl_wc_riding l then total_time_us s else wrap64 (total_time_us s + wrap64 (now - tl_batch_start_us l)))"
    and "time_credit_us s' = (if tl_wc_riding l \<or> time_unlimited s then time_credit_us s
      else wrap64 (time_credit_us s - wrap64 (now - tl_batch_start_us l)))"
    and "\<not> tl_wc_riding l'" and "tl_batch_kernel_count l' = 0"
  using assms by (auto simp: time_batch_end_and_charge_def close_batch_def Let_def split: if_splits)

text \<open>
  C36. A batch is booked once, to one account: when a thread without an open batch launches a
  series of kernels and then synchronises, the time from its first launch to the synchronisation
  is what the batch costs. A batch that rode on an idle peer adds it to \<open>wc_extra_us\<close> alone and
  leaves the total and the credit. Every other batch adds it to the total alone, and takes it off
  the credit unless the tenant is unlimited, also when this leaves a debt. The batch is closed
  and the ride is over: a second synchronisation books nothing.
\<close>

theorem batch_time_booked_once:
  assumes "tl_batch_kernel_count l = 0" and "int (length ts) < 2147483647"
    and "time_batch_end_and_charge now (fold time_batch_start (t0 # ts) l, s) = (l', s')"
  shows "wc_extra_us s' = (if tl_wc_riding l then wrap64 (wc_extra_us s + wrap64 (now - t0)) else wc_extra_us s) \<and>
    total_time_us s' = (if tl_wc_riding l then total_time_us s else wrap64 (total_time_us s + wrap64 (now - t0))) \<and>
    time_credit_us s' = (if tl_wc_riding l \<or> time_unlimited s then time_credit_us s else wrap64 (time_credit_us s - wrap64 (now - t0))) \<and>
    \<not> tl_wc_riding l' \<and> (\<forall>later. time_batch_end_and_charge later (l', s') = (l', s'))"
proof -
  note b = batch_open [OF assms(1,2), of t0]
  then have n: "tl_batch_kernel_count (fold time_batch_start (t0 # ts) l) \<noteq> 0" by linarith
  note c = charge_exact [OF assms(3) n]
  from c(5) have "\<forall>later. time_batch_end_and_charge later (l', s') = (l', s')" by (simp add: time_batch_end_and_charge_def)
  with c show ?thesis unfolding b [THEN conjunct1] b [THEN conjunct2, THEN conjunct2] by (simp only: simp_thms)
qed

section \<open>Admission\<close>

lemma leave_gate_fields [simp]:
  "time_unlimited (leave_gate gm now t0 s) = time_unlimited s" "time_credit_us (leave_gate gm now t0 s) = time_credit_us s"
  "wc_on (leave_gate gm now t0 s) = wc_on s" "peer_idle (leave_gate gm now t0 s) = peer_idle s"
  "boost_mode (leave_gate gm now t0 s) = boost_mode s" "current_priority (leave_gate gm now t0 s) = current_priority s"
  "urgent_limit_us (leave_gate gm now t0 s) = urgent_limit_us s"
  by (simp_all add: leave_gate_def bless_gate_block_record_def Let_def)

lemma time_credit_gate_cases:
  "time_credit_gate es now (l, s) =
     (if boost_mode s \<or> time_unlimited s \<or> time_credit_us s > 0 then Some (l, s)
      else if current_priority s = URGENT \<and> time_credit_us s > - urgent_limit_us s then Some (l, urgent_borrow s)
      else let s1 = (if current_priority s = URGENT then s\<lparr>urgent_denied := wrap64 (urgent_denied s + 1)\<rparr> else s);
               (l2, s2) = time_batch_end_and_charge now (l, s1)
           in map_option fst (poll (tgate_wait (if current_priority s = URGENT then - urgent_limit_us s else 0) (gate_metrics_on s2) now)
                (map tick es) (now, Some (time_credit_us s), 0, l2, s2)))"
  unfolding time_credit_gate_def tgate_enter_def Let_def by (simp split: prod.splits)

definition wake_level :: "'a time_state_scheme \<Rightarrow> int" where
  "wake_level s = (if current_priority s = URGENT then - urgent_limit_us s else 0)"

text \<open>The three ways in: at once, by borrowing, or through the wait loop.\<close>

lemma gate_cases:
  assumes "time_credit_gate es now (l, s) = Some (l', s')"
  obtains (pass) "boost_mode s \<or> time_unlimited s \<or> time_credit_us s > 0" "l' = l" "s' = s"
  | (borrow) "current_priority s = URGENT" "time_credit_us s > - urgent_limit_us s" "l' = l" "s' = urgent_borrow s"
  | (wait) s1 l2 s2 rest where "\<not> boost_mode s" "\<not> time_unlimited s" "time_credit_us s \<le> 0" "time_credit_us s \<le> wake_level s"
      "s1 = s \<or> s1 = s\<lparr>urgent_denied := wrap64 (urgent_denied s + 1)\<rparr>" "time_batch_end_and_charge now (l, s1) = (l2, s2)"
      "poll (tgate_wait (wake_level s) (gate_metrics_on s2) now) (map tick es) (now, Some (time_credit_us s), 0, l2, s2) = Some ((l', s'), rest)"
proof -
  let ?s1 = "if current_priority s = URGENT then s\<lparr>urgent_denied := wrap64 (urgent_denied s + 1)\<rparr> else s"
  obtain l2 s2 where c: "time_batch_end_and_charge now (l, ?s1) = (l2, s2)" by (meson surj_pair)
  consider (p) "boost_mode s \<or> time_unlimited s \<or> time_credit_us s > 0"
    | (b) "\<not> (boost_mode s \<or> time_unlimited s \<or> time_credit_us s > 0)" "current_priority s = URGENT \<and> time_credit_us s > - urgent_limit_us s"
    | (w) "\<not> (boost_mode s \<or> time_unlimited s \<or> time_credit_us s > 0)" "\<not> (current_priority s = URGENT \<and> time_credit_us s > - urgent_limit_us s)"
    by blast
  then show ?thesis
  proof cases
    case p
    then have "l' = l \<and> s' = s" using assms by (simp add: time_credit_gate_cases)
    with p show ?thesis by (intro pass) simp_all
  next
    case b
    then have "l' = l \<and> s' = urgent_borrow s" using assms by (simp add: time_credit_gate_cases)
    with b show ?thesis by (intro borrow) simp_all
  next
    case w
    have "time_credit_gate es now (l, s) = map_option fst (poll (tgate_wait (wake_level s) (gate_metrics_on s2) now) (map tick es)
          (now, Some (time_credit_us s), 0, l2, s2))"
      using w c unfolding time_credit_gate_cases wake_level_def Let_def by (simp only: prod.case if_False)
    then have "map_option fst (poll (tgate_wait (wake_level s) (gate_metrics_on s2) now) (map tick es)
          (now, Some (time_credit_us s), 0, l2, s2)) = Some (l', s')" using assms by (simp only:)
    then obtain x where x: "poll (tgate_wait (wake_level s) (gate_metrics_on s2) now) (map tick es)
          (now, Some (time_credit_us s), 0, l2, s2) = Some x" "fst x = (l', s')" by (auto simp only: map_option_eq_Some)
    have r: "poll (tgate_wait (wake_level s) (gate_metrics_on s2) now) (map tick es)
          (now, Some (time_credit_us s), 0, l2, s2) = Some ((l', s'), snd x)" using x by (metis prod.collapse)
    have le: "time_credit_us s \<le> 0" "time_credit_us s \<le> wake_level s" using w by (auto simp: wake_level_def)
    have s1: "?s1 = s \<or> ?s1 = s\<lparr>urgent_denied := wrap64 (urgent_denied s + 1)\<rparr>" by simp
    show ?thesis by (rule wait [OF _ _ le s1 c r]) (use w in simp_all)
  qed
qed

definition waiting_credit :: "int \<Rightarrow> 'a tgate_conf \<Rightarrow> bool" where
  "waiting_credit wake = (\<lambda>(now, cr, waited, l, s). \<forall>c. cr = Some c \<longrightarrow> c \<le> wake)"

lemma tgate_exit:
  assumes "waiting_credit wake t" and "tgate_wait wake gm t0 t = Inr (l', s')"
  shows "time_unlimited s' \<or> time_credit_us s' > wake \<or> tl_wc_riding l' \<and> wc_on s' \<and> peer_idle s'"
  using assms by (cases t) (auto simp: waiting_credit_def tgate_wait_def peer_is_idle_def Let_def split: if_splits option.splits)

lemma poll_tgate_result:
  fixes s2 :: "'a time_state_scheme"
  assumes "poll (tgate_wait wake gm t0) (map tick es) (now, Some c, w, l2, s2) = Some ((l', s'), rest)"
    and "c \<le> wake" and "I l2 s2" and "\<And>l s e. I l s \<Longrightarrow> e \<in> set es \<Longrightarrow> I l (snd e s)"
  shows "\<exists>t l s. tgate_wait wake gm t0 t = Inr (l', s') \<and> waiting_credit wake t \<and> snd (snd (snd t)) = (l, s) \<and> I l s"
proof -
  let ?J = "\<lambda>t :: 'a tgate_conf. waiting_credit wake t \<and> (case snd (snd (snd t)) of (l, s) \<Rightarrow> I l s)"
  have "\<exists>t. ?J t \<and> tgate_wait wake gm t0 t = Inr (l', s')"
  proof (rule poll_result [OF assms(1), where I = ?J])
    show "?J (now, Some c, w, l2, s2)" using assms(2,3) by (simp add: waiting_credit_def)
  next
    fix t t' :: "'a tgate_conf" and d :: "'a tgate_conf \<Rightarrow> 'a tgate_conf"
    assume J: "?J t" and b: "tgate_wait wake gm t0 t = Inl t'" and d: "d \<in> set (map tick es)"
    obtain e where e: "d = tick e" "e \<in> set es" using d by auto
    have "snd (snd (snd t')) = snd (snd (snd t)) \<and> fst (snd t') = None"
      using b by (cases t) (auto simp: tgate_wait_def Let_def split: if_splits)
    then show "?J (d t')" using J e assms(4) [OF _ e(2)] by (cases t') (auto simp: tick_def waiting_credit_def)
  qed
  then show ?thesis by (auto split: prod.splits) blast
qed

text \<open>
  C9. What the time gate lets through: when \<open>time_credit_gate\<close> returns, the tenant was boosted,
  or in the state it returns in it is unlimited, has credit left, is urgent and within its
  borrowing limit, or rides on a peer that is reported idle. Everything else keeps waiting,
  whatever the control server and the other threads do meanwhile.
\<close>

theorem time_gate_admission:
  assumes "time_credit_gate es now (l, s) = Some (l', s')"
  shows "boost_mode s \<or> time_unlimited s' \<or> time_credit_us s' > 0 \<or>
    current_priority s = URGENT \<and> time_credit_us s' > - urgent_limit_us s \<or>
    tl_wc_riding l' \<and> wc_on s' \<and> peer_idle s'"
  using assms
proof (cases rule: gate_cases)
  case (wait s1 l2 s2 rest)
  from poll_tgate_result [OF wait(7,4), of "\<lambda>l s. True"] obtain t
    where "tgate_wait (wake_level s) (gate_metrics_on s2) now t = Inr (l', s')" and "waiting_credit (wake_level s) t" by auto
  from tgate_exit [OF this(2,1)] show ?thesis by (auto simp: wake_level_def split: if_splits)
qed (auto simp: urgent_borrow_def)

section \<open>Bounded debt\<close>

text \<open>A refill: it raises the credit and touches nothing else that the gate reads.\<close>

definition refill :: "('a time_state_scheme \<Rightarrow> 'a time_state_scheme) \<Rightarrow> bool" where
  "refill f \<longleftrightarrow> (\<forall>s. time_credit_us s \<le> time_credit_us (f s) \<and> in_i64 (time_credit_us (f s)) \<and> boost_mode (f s) = boost_mode s \<and>
     time_unlimited (f s) = time_unlimited s \<and> current_priority (f s) = current_priority s \<and>
     urgent_limit_us (f s) = urgent_limit_us s \<and> wc_on (f s) = wc_on s)"

definition batch_within :: "int \<Rightarrow> int \<Rightarrow> tls \<Rightarrow> bool" where
  "batch_within D now l \<longleftrightarrow> (tl_batch_kernel_count l \<noteq> 0 \<longrightarrow> 0 \<le> now - tl_batch_start_us l \<and> now - tl_batch_start_us l \<le> D)"

text \<open>
  The threads of a tenant in time mode, interleaved. The credit is shared, the batch belongs to
  the thread. A thread is outside the gate, in its wait loop with the level, the measurement flag,
  the entry time, the credit it has read and the wait counter, or between the gate and
  \<open>time_batch_start\<close>; between the steps of one thread the others and the feeder act. \<open>D\<close> bounds
  the length of a batch.
\<close>

datatype tgate_pc = AtHost | InGate int bool int "int option" nat | PastGate

inductive bill_step :: "int \<Rightarrow> (tgate_pc \<times> tls) list \<times> 'a time_state_scheme \<Rightarrow> (tgate_pc \<times> tls) list \<times> 'a time_state_scheme \<Rightarrow> bool" for D where
  bill_pass: "i < length ts \<Longrightarrow> ts ! i = (AtHost, l) \<Longrightarrow> tgate_enter now (l, s) = Inr (l', s') \<Longrightarrow>
     bill_step D (ts, s) (ts[i := (PastGate, l')], s')"
| bill_block: "i < length ts \<Longrightarrow> ts ! i = (AtHost, l) \<Longrightarrow> batch_within D now l \<Longrightarrow>
     tgate_enter now (l, s) = Inl (wake, gm, t, cr, w, l', s') \<Longrightarrow> bill_step D (ts, s) (ts[i := (InGate wake gm now cr w, l')], s')"
| bill_poll: "i < length ts \<Longrightarrow> ts ! i = (InGate wake gm t0 cr w, l) \<Longrightarrow> tgate_wait wake gm t0 (now, cr, w, l, s) = Inl (t, cr', w', l', s') \<Longrightarrow>
     bill_step D (ts, s) (ts[i := (InGate wake gm t0 cr' w', l')], s')"
| bill_wake: "i < length ts \<Longrightarrow> ts ! i = (InGate wake gm t0 cr w, l) \<Longrightarrow> tgate_wait wake gm t0 (now, cr, w, l, s) = Inr (l', s') \<Longrightarrow>
     bill_step D (ts, s) (ts[i := (PastGate, l')], s')"
| bill_start: "i < length ts \<Longrightarrow> ts ! i = (PastGate, l) \<Longrightarrow> bill_step D (ts, s) (ts[i := (AtHost, time_batch_start now l)], s)"
| bill_sync: "i < length ts \<Longrightarrow> ts ! i = (AtHost, l) \<Longrightarrow> batch_within D now l \<Longrightarrow> time_batch_end_and_charge now (l, s) = (l', s') \<Longrightarrow>
     bill_step D (ts, s) (ts[i := (AtHost, l')], s')"
| bill_refill: "refill f \<Longrightarrow> bill_step D (ts, s) (ts, f s)"

text \<open>A thread that has passed the gate or has an open batch is still to be charged.\<close>

fun owing :: "tgate_pc \<times> tls \<Rightarrow> bool" where
  "owing (p, l) = (p = PastGate \<or> tl_batch_kernel_count l \<noteq> 0)"

definition owed :: "(tgate_pc \<times> tls) list \<Rightarrow> int" where
  "owed ts = (\<Sum>x\<leftarrow>ts. of_bool (owing x))"

fun bill_thread :: "int \<Rightarrow> tgate_pc \<times> tls \<Rightarrow> bool" where
  "bill_thread level (InGate wake gm t0 cr w, l) =
     (\<not> tl_wc_riding l \<and> wake = level \<and> tl_batch_kernel_count l = 0 \<and> (\<forall>c. cr = Some c \<longrightarrow> c \<le> level))"
| "bill_thread level (p, l) = (\<not> tl_wc_riding l)"

text \<open>A limited tenant without boost and free riding, with the level at which its threads stop.\<close>

definition limited_at :: "int \<Rightarrow> 'a time_state_scheme \<Rightarrow> bool" where
  "limited_at level s \<longleftrightarrow> \<not> boost_mode s \<and> \<not> time_unlimited s \<and> \<not> wc_on s \<and> wake_level s = level \<and> in_i64 (time_credit_us s)"

definition bill_inv :: "int \<Rightarrow> int \<Rightarrow> (tgate_pc \<times> tls) list \<times> 'a time_state_scheme \<Rightarrow> bool" where
  "bill_inv D level = (\<lambda>(ts, s). 0 \<le> D \<and> D * int (length ts) \<le> 2 ^ 60 \<and> - (2 ^ 60) \<le> level \<and> level \<le> 0 \<and> limited_at level s \<and>
     (\<forall>x \<in> set ts. bill_thread level x) \<and> level - D * (int (length ts) - owed ts) < time_credit_us s)"

lemma owed_update: "i < length ts \<Longrightarrow> owed (ts[i := x]) = owed ts - of_bool (owing (ts ! i)) + of_bool (owing x)"
  by (simp add: owed_def sum_list_update_int)

lemma owed_bounds: "0 \<le> owed ts \<and> owed ts \<le> int (length ts)"
  by (induction ts) (auto simp: owed_def)

lemma bill_lower: "bill_inv D level (ts, s) \<Longrightarrow> level - D * int (length ts) < time_credit_us s"
  using owed_bounds [of ts] by (simp add: bill_inv_def right_diff_distrib) (smt (verit) mult_nonneg_nonneg)

lemma bill_update:
  assumes "bill_inv D level (ts, s)" and "i < length ts" and "limited_at level s'" and "bill_thread level x"
    and "level < time_credit_us s' \<or> time_credit_us s - D * (of_bool (owing (ts ! i)) - of_bool (owing x)) \<le> time_credit_us s'"
  shows "bill_inv D level (ts[i := x], s')"
proof -
  have D: "0 \<le> D" and b: "level - D * (int (length ts) - owed ts) < time_credit_us s" using assms(1) by (simp_all add: bill_inv_def)
  note o = owed_update [OF assms(2), of x]
  have "level - D * (int (length ts) - owed (ts[i := x])) < time_credit_us s'"
    using assms(5)
  proof
    assume "level < time_credit_us s'"
    moreover have "0 \<le> D * (int (length ts) - owed (ts[i := x]))" using D owed_bounds [of "ts[i := x]"] by (intro mult_nonneg_nonneg) simp_all
    ultimately show ?thesis by linarith
  next
    assume "time_credit_us s - D * (of_bool (owing (ts ! i)) - of_bool (owing x)) \<le> time_credit_us s'"
    moreover have "D * (int (length ts) - owed (ts[i := x])) = D * (int (length ts) - owed ts) + D * (of_bool (owing (ts ! i)) - of_bool (owing x))"
      unfolding o by (simp only: distrib_left [symmetric]) simp
    ultimately show ?thesis using b by linarith
  qed
  then show ?thesis using assms(1,3,4) set_update_subset_insert [of ts i x] by (auto simp: bill_inv_def)
qed

lemma charge_credit:
  assumes "time_batch_end_and_charge now (l, s) = (l', s')" and "\<not> tl_wc_riding l" and "\<not> time_unlimited s"
  shows "time_credit_us s' = (if tl_batch_kernel_count l = 0 then time_credit_us s
      else wrap64 (time_credit_us s - wrap64 (now - tl_batch_start_us l)))" and "\<not> tl_wc_riding l'"
  using assms by (auto simp: time_batch_end_and_charge_def close_batch_def Let_def split: if_splits)

lemma charge_bound:
  assumes "time_batch_end_and_charge now (l, s) = (l', s')" and "\<not> tl_wc_riding l" and "limited_at level s" and "batch_within D now l"
    and "D \<le> 2 ^ 60" and "- (2 ^ 61) < time_credit_us s"
  shows "limited_at level s' \<and> \<not> tl_wc_riding l' \<and> tl_batch_kernel_count l' = 0 \<and>
    time_credit_us s - D * of_bool (tl_batch_kernel_count l \<noteq> 0) \<le> time_credit_us s'"
proof -
  have u: "\<not> time_unlimited s" using assms(3) by (simp add: limited_at_def)
  note f = charge_fields [OF assms(1)] and c = charge_credit [OF assms(1,2) u]
  let ?d = "now - tl_batch_start_us l"
  have "in_i64 (time_credit_us s') \<and> time_credit_us s - D * of_bool (tl_batch_kernel_count l \<noteq> 0) \<le> time_credit_us s'"
  proof (cases "tl_batch_kernel_count l = 0")
    case True
    then show ?thesis using c assms(3) by (simp add: limited_at_def)
  next
    case False
    then have d: "0 \<le> ?d" "?d \<le> D" using assms(4) by (auto simp: batch_within_def)
    have i: "in_i64 (time_credit_us s)" using assms(3) by (simp add: limited_at_def)
    have "in_i64 ?d" and "in_i64 (time_credit_us s - ?d)" using d i assms(5,6) by (auto simp: in_i64_def)
    then show ?thesis using c False d by (simp add: wrap64_id)
  qed
  moreover have "wake_level s' = wake_level s" using f by (simp add: wake_level_def)
  ultimately show ?thesis using assms(3) f c(2) by (simp add: limited_at_def)
qed

lemma bill_size: "bill_inv D level (ts, s) \<Longrightarrow> i < length ts \<Longrightarrow> D \<le> 2 ^ 60 \<and> - (2 ^ 61) < time_credit_us s"
proof -
  assume b: "bill_inv D level (ts, s)" and "i < length ts"
  then have "D * 1 \<le> D * int (length ts)" by (intro mult_left_mono) (auto simp: bill_inv_def)
  then show ?thesis using b bill_lower [OF b] by (auto simp: bill_inv_def)
qed

lemma enter_pass:
  assumes "tgate_enter now (l, s) = Inr (l', s')" and "limited_at level s" and "level \<le> 0"
  shows "l' = l \<and> limited_at level s' \<and> level < time_credit_us s'"
  using assms by (auto simp: tgate_enter_def limited_at_def wake_level_def urgent_borrow_def Let_def split: if_splits prod.splits)

lemma enter_block:
  assumes "tgate_enter now (l, s) = Inl (wake, gm, t, cr, w, l', s')" and "limited_at level s"
  shows "wake = level \<and> cr = Some (time_credit_us s) \<and> time_credit_us s \<le> level \<and>
    (\<exists>s1. limited_at level s1 \<and> time_credit_us s1 = time_credit_us s \<and> time_batch_end_and_charge now (l, s1) = (l', s'))"
proof -
  let ?s1 = "if current_priority s = URGENT then s\<lparr>urgent_denied := wrap64 (urgent_denied s + 1)\<rparr> else s"
  have "limited_at level ?s1" "time_credit_us ?s1 = time_credit_us s" using assms(2) by (auto simp: limited_at_def wake_level_def)
  moreover have "wake = level \<and> cr = Some (time_credit_us s) \<and> time_credit_us s \<le> level \<and> time_batch_end_and_charge now (l, ?s1) = (l', s')"
    using assms by (auto simp: tgate_enter_def limited_at_def wake_level_def Let_def split: if_splits prod.splits)
  ultimately show ?thesis by blast
qed

lemma leave_limited: "limited_at level s \<Longrightarrow> limited_at level (leave_gate gm now t0 s)"
  by (auto simp: limited_at_def wake_level_def)

lemma bill_inv_step:
  assumes "bill_inv D level u" and "bill_step D u v"
  shows "bill_inv D level v"
  using assms(2)
proof cases
  case (bill_pass i ts l now s l' s')
  note b = assms(1) [unfolded bill_pass(1)] and e = enter_pass [OF bill_pass(5)]
  show ?thesis unfolding bill_pass(2)
    by (rule bill_update [OF b bill_pass(3)])
       (use b e bill_pass(3,4) nth_mem [OF bill_pass(3)] in \<open>auto simp: bill_inv_def\<close>)
next
  case (bill_block i ts l now s wake gm t cr w l' s')
  note b = assms(1) [unfolded bill_block(1)]
  have lm: "limited_at level s" "\<not> tl_wc_riding l" using b nth_mem [OF bill_block(3)] bill_block(4) by (auto simp: bill_inv_def)
  from enter_block [OF bill_block(6) lm(1)] obtain s1 where e: "wake = level" "cr = Some (time_credit_us s)" "time_credit_us s \<le> level"
    "limited_at level s1" "time_credit_us s1 = time_credit_us s" "time_batch_end_and_charge now (l, s1) = (l', s')" by auto
  note c = charge_bound [OF e(6) lm(2) e(4) bill_block(5)]
  show ?thesis unfolding bill_block(2)
    by (rule bill_update [OF b bill_block(3)]) (use c e bill_size [OF b bill_block(3)] bill_block(4) in auto)
next
  case (bill_poll i ts wake gm t0 cr w l now s t cr' w' l' s')
  note b = assms(1) [unfolded bill_poll(1)]
  have "bill_thread level (InGate wake gm t0 cr w, l)" using b nth_mem [OF bill_poll(3)] bill_poll(4) by (auto simp: bill_inv_def)
  moreover have "s' = s \<and> l' = l \<and> cr' = None" using bill_poll(5) by (auto simp: tgate_wait_def Let_def split: if_splits)
  ultimately show ?thesis unfolding bill_poll(2)
    by (intro bill_update [OF b bill_poll(3)]) (use b bill_poll(4) in \<open>auto simp: bill_inv_def\<close>)
next
  case (bill_wake i ts wake gm t0 cr w l now s l' s')
  note b = assms(1) [unfolded bill_wake(1)]
  have t: "bill_thread level (InGate wake gm t0 cr w, l)" using b nth_mem [OF bill_wake(3)] bill_wake(4) by (auto simp: bill_inv_def)
  have lm: "limited_at level s" using b by (simp add: bill_inv_def)
  then have "l' = l \<and> s' = leave_gate gm now t0 s \<and> level < time_credit_us s"
    using bill_wake(5) t by (auto simp: tgate_wait_def limited_at_def peer_is_idle_def Let_def split: if_splits option.splits)
  with t leave_limited [OF lm] show ?thesis unfolding bill_wake(2)
    by (intro bill_update [OF b bill_wake(3)]) auto
next
  case (bill_start i ts l s now)
  note b = assms(1) [unfolded bill_start(1)]
  have "0 \<le> D" "limited_at level s" "\<not> tl_wc_riding l" using b nth_mem [OF bill_start(3)] bill_start(4) by (auto simp: bill_inv_def)
  then show ?thesis unfolding bill_start(2)
    by (intro bill_update [OF b bill_start(3)]) (auto simp: bill_start(4) time_batch_start_def Let_def)
next
  case (bill_sync i ts l now s l' s')
  note b = assms(1) [unfolded bill_sync(1)]
  have lm: "limited_at level s" "\<not> tl_wc_riding l" using b nth_mem [OF bill_sync(3)] bill_sync(4) by (auto simp: bill_inv_def)
  note c = charge_bound [OF bill_sync(6) lm(2,1) bill_sync(5)]
  show ?thesis unfolding bill_sync(2)
    by (rule bill_update [OF b bill_sync(3)]) (use c bill_size [OF b bill_sync(3)] bill_sync(4) in auto)
next
  case (bill_refill f ts s)
  then have f: "time_credit_us s \<le> time_credit_us (f s)" "in_i64 (time_credit_us (f s))" "wake_level (f s) = wake_level s"
    "boost_mode (f s) = boost_mode s" "time_unlimited (f s) = time_unlimited s" "wc_on (f s) = wc_on s"
    by (simp_all add: refill_def wake_level_def)
  then have "limited_at level s \<Longrightarrow> limited_at level (f s)" by (simp add: limited_at_def)
  then show ?thesis using f(1) assms(1) unfolding bill_refill(1,2) bill_inv_def by auto
qed

interpretation bill: inductive_invariant "bill_step D" "bill_inv D level" for D level
  by unfold_locales (rule bill_inv_step)

text \<open>
  C8. Debt is bounded: a tenant in time mode that is not unlimited, not boosted and has free riding
  switched off, with \<open>N\<close> launching threads whose batches last at most \<open>D\<close> microseconds each, is
  never \<open>N\<close> batches or more below the level at which the gate stops it: zero for normal tenants,
  the borrowing limit for urgent ones. This holds in every interleaving of launches,
  synchronisations and refills; borrowing cannot be repeated without end.
\<close>

theorem time_debt_bounded:
  assumes "0 \<le> D" and "D * int (length ts) \<le> 2 ^ 60" and "0 \<le> urgent_limit_us s" and "urgent_limit_us s \<le> 2 ^ 60"
    and "\<not> boost_mode s" and "\<not> time_unlimited s" and "\<not> wc_on s" and "wake_level s < time_credit_us s" and "in_i64 (time_credit_us s)"
    and "\<forall>x \<in> set ts. x = (AtHost, tls_zero)" and "reach (bill_step D) (ts, s) (ts', s')"
  shows "wake_level s - D * int (length ts) < time_credit_us s'"
proof -
  have "owed ts = 0" using assms(10) by (induction ts) (auto simp: owed_def tls_zero_def)
  moreover have "0 \<le> D * int (length ts)" using assms(1) by simp
  ultimately have b: "wake_level s - D * (int (length ts) - owed ts) < time_credit_us s" using assms(8) by simp
  have "\<forall>x \<in> set ts. bill_thread (wake_level s) x" using assms(10) by (auto simp: tls_zero_def)
  moreover have "- (2 ^ 60) \<le> wake_level s" "wake_level s \<le> 0" using assms(3,4) by (auto simp: wake_level_def)
  ultimately have i: "bill_inv D (wake_level s) (ts, s)"
    using assms(1,2,5-7,9) b unfolding bill_inv_def prod.case limited_at_def by blast
  have "length ts' = length ts" using assms(11)
    by (induction "(ts, s)" "(ts', s')" arbitrary: ts' s' rule: reach.induct) (auto elim!: bill_step.cases)
  with bill_lower [OF bill.reach_inv [OF assms(11) i]] show ?thesis by simp
qed

section \<open>Flaws of the wait loop and of free riding\<close>

text \<open>
  A free ride covers kernels that were paid for: once a batch has been marked as riding, the
  kernels that are launched into the same batch after the credit has come back pass the gate
  as paid kernels, but closing the batch books all of it to the free account and charges
  nothing.
\<close>

theorem riding_batch_is_not_charged:
  assumes "tl_wc_riding l" and "tl_batch_kernel_count l \<noteq> 0" and "tl_batch_kernel_count (time_batch_start now l) \<noteq> 0"
    and "time_credit_us s > 0"
  shows "time_credit_gate es now (l, s) = Some (l, s) \<and>
    (\<forall>now' l' s'. time_batch_end_and_charge now' (time_batch_start now l, s) = (l', s') \<longrightarrow>
       time_credit_us s' = time_credit_us s \<and> total_time_us s' = total_time_us s)"
proof -
  have "time_credit_gate es now (l, s) = Some (l, s)" using assms(4) by (simp add: time_credit_gate_def tgate_enter_def)
  moreover have "tl_wc_riding (time_batch_start now l)" using assms(1) by (simp add: time_batch_start_def Let_def)
  ultimately show ?thesis using charge_exact(2,3) [OF _ assms(3)] by metis
qed

text \<open>What keeps a caller in the wait loop.\<close>

definition no_time_left :: "'a time_state_scheme \<Rightarrow> bool" where
  "no_time_left s \<longleftrightarrow> time_credit_us s \<le> 0 \<and> \<not> time_unlimited s \<and> \<not> wc_on s"

lemma wait_without_credit:
  fixes s :: "'a time_state_scheme"
  assumes "c \<le> 0" and "no_time_left s" and "\<forall>e \<in> set es. \<forall>t. no_time_left t \<longrightarrow> no_time_left (snd e t)"
  shows "poll (tgate_wait 0 gm now) (map tick es) (now, Some c, 0, l, s) = None"
proof -
  let ?I = "\<lambda>(now :: int, cr, w :: nat, l :: tls, t :: 'a time_state_scheme). (\<forall>c. cr = Some c \<longrightarrow> c \<le> 0) \<and> no_time_left t"
  show ?thesis
  proof (rule poll_stuck [where I = ?I])
    show "?I (now, Some c, 0, l, s)" using assms(1,2) by simp
  next
    fix x :: "'a tgate_conf" assume x: "?I x"
    obtain n cr w l t where e: "x = (n, cr, w, l, t)" by (cases x)
    have "tgate_wait 0 gm now x = Inl (n, None, backoff 50 w, l, t)"
      using x by (cases cr) (auto simp: e no_time_left_def tgate_wait_def peer_is_idle_def Let_def)
    then show "\<exists>x'. tgate_wait 0 gm now x = Inl x' \<and> (\<forall>d \<in> set (map tick es). ?I (d x'))"
      using x assms(3) by (auto simp: e tick_def)
  qed
qed

lemma gate_without_credit:
  fixes s :: "'a time_state_scheme"
  assumes "no_time_left s" and "\<not> boost_mode s" and "current_priority s \<noteq> URGENT" and "tl_batch_kernel_count l = 0"
    and "\<forall>e \<in> set es. \<forall>t. no_time_left t \<longrightarrow> no_time_left (snd e t)"
  shows "time_credit_gate es now (l, s) = None"
proof -
  have "time_batch_end_and_charge now (l, s) = (l, s)" using assms(4) by (simp add: time_batch_end_and_charge_def)
  moreover have "\<not> time_unlimited s" "\<not> time_credit_us s > 0" using assms(1) by (simp_all add: no_time_left_def)
  ultimately show ?thesis
    using assms(2,3) wait_without_credit [OF _ assms(1,5), of "time_credit_us s"] by (simp add: time_credit_gate_cases Let_def)
qed

text \<open>
  Boost does not wake a waiting thread: \<open>boost_mode\<close> is read on entry only, so a thread that
  is already waiting for credit stays there after \<open>boost_on\<close>, until credit, the unlimited
  mode or an idle peer releases it.
\<close>

theorem boost_does_not_wake:
  fixes s :: "'a time_state_scheme"
  assumes "time_credit_us s \<le> 0" and "\<not> time_unlimited s" and "\<not> wc_on s" and "\<not> boost_mode s" and "current_priority s \<noteq> URGENT"
    and "\<forall>e \<in> set es. \<forall>t. time_credit_us t \<le> 0 \<and> \<not> time_unlimited t \<and> \<not> wc_on t \<longrightarrow>
           time_credit_us (snd e t) \<le> 0 \<and> \<not> time_unlimited (snd e t) \<and> \<not> wc_on (snd e t)"
    and "0 \<le> now - tl_batch_start_us l" and "now - tl_batch_start_us l \<le> 2 ^ 60" and "- (2 ^ 60) \<le> time_credit_us s"
  shows "time_credit_gate es now (l, s) = None"
proof -
  obtain l2 s2 where c: "time_batch_end_and_charge now (l, s) = (l2, s2)" by (meson surj_pair)
  have d: "in_i64 (now - tl_batch_start_us l)" "in_i64 (time_credit_us s - (now - tl_batch_start_us l))"
    using assms(1,7,8,9) by (auto simp: in_i64_def)
  have s2: "time_credit_us s2 \<le> 0" "\<not> time_unlimited s2" "\<not> wc_on s2"
    using c assms(1-3,7) d by (auto simp: time_batch_end_and_charge_def Let_def wrap64_id split: if_splits)
  have "poll (tgate_wait 0 (gate_metrics_on s2) now) (map tick es) (now, Some (time_credit_us s), 0, l2, s2) = None"
    using wait_without_credit [of "time_credit_us s" s2 es] assms(1,6) s2 unfolding no_time_left_def by blast
  then show ?thesis using assms(1,2,4,5) c by (simp add: time_credit_gate_cases Let_def)
qed

section \<open>Instances\<close>

definition sample_time :: "Priority \<Rightarrow> int \<Rightarrow> time_state" where
  "sample_time p c = \<lparr>boost_mode = False, pause_mode = False, any_alloc = False, current_priority = p, queue_len = (\<lambda>_. 0),
     urgent_pending = False, preempt_requested = False, credit_mode = 1, credit_remain = -1, time_credit_us = c,
     time_unlimited = False, time_slice_us = 1000, avg_kernel_time_us = 10, total_time_us = 0, urgent_limit_us = 10000,
     urgent_borrow_events = 0, urgent_borrow_us = 0, urgent_denied = 0, sample_counter = 0, sample_start_us = 0,
     sample_kernel_count = 0, gate_metrics_on = False, gate_block_count = 0, gate_block_total_us = 0, gate_block_max_us = 0,
     wc_on = False, peer_idle = False, peer_idle_at_us = 0, wc_pass_count = 0, wc_extra_us = 0\<rparr>"

theorem batch_time_booked_once_witness:
  "time_credit_us (snd (time_batch_end_and_charge 700 (fold time_batch_start [200, 300] tls_zero, sample_time NORMAL 100))) = - 400"
proof -
  let ?s = "sample_time NORMAL 100"
  obtain l' s' where c: "time_batch_end_and_charge 700 (fold time_batch_start (200 # [300]) tls_zero, ?s) = (l', s')" by (meson surj_pair)
  have "time_credit_us s' = wrap64 (time_credit_us ?s - wrap64 (700 - 200))"
    using batch_time_booked_once [OF _ _ c] by (simp add: tls_zero_def sample_time_def)
  then show ?thesis using c by (simp add: sample_time_def wrap64_def)
qed

theorem time_gate_admission_witness:
  "time_credit_us (urgent_borrow (sample_time URGENT (- 500))) > - 10000"
proof -
  let ?s = "sample_time URGENT (- 500)"
  have "time_credit_gate [] 0 (tls_zero, ?s) = Some (tls_zero, urgent_borrow ?s)"
    by (simp add: time_credit_gate_cases sample_time_def)
  from time_gate_admission [OF this] show ?thesis
    by (simp add: sample_time_def urgent_borrow_def tls_zero_def)
qed

text \<open>Two threads that both pass with one microsecond of credit left: the bound is reached.\<close>

theorem time_debt_bounded_witness:
  "- 6000 < time_credit_us (snd (time_batch_end_and_charge 3000 (time_batch_start 0 tls_zero,
     snd (time_batch_end_and_charge 3000 (time_batch_start 0 tls_zero, sample_time NORMAL 1)))))"
proof -
  let ?s = "sample_time NORMAL 1" and ?l = "time_batch_start 0 tls_zero" and ?z = "(AtHost, tls_zero)"
  obtain l1 s1 where c1: "time_batch_end_and_charge 3000 (?l, ?s) = (l1, s1)" by (meson surj_pair)
  obtain l2 s2 where c2: "time_batch_end_and_charge 3000 (?l, s1) = (l2, s2)" by (meson surj_pair)
  have g: "tgate_enter 0 (tls_zero, ?s) = Inr (tls_zero, ?s)" by (simp add: tgate_enter_def sample_time_def)
  have w: "batch_within 3000 3000 ?l" by (simp add: batch_within_def time_batch_start_def tls_zero_def)
  have 1: "bill_step 3000 ([?z, ?z], ?s) ([(PastGate, tls_zero), ?z], ?s)" using bill_pass [OF _ _ g, of 0 "[?z, ?z]"] by simp
  have 2: "bill_step 3000 ([(PastGate, tls_zero), ?z], ?s) ([(PastGate, tls_zero), (PastGate, tls_zero)], ?s)"
    using bill_pass [OF _ _ g, of 1 "[(PastGate, tls_zero), ?z]"] by simp
  have 3: "bill_step 3000 ([(PastGate, tls_zero), (PastGate, tls_zero)], ?s) ([(AtHost, ?l), (PastGate, tls_zero)], ?s)"
    using bill_start [where i = 0 and ts = "[(PastGate, tls_zero), (PastGate, tls_zero)]" and l = tls_zero and now = 0] by simp
  have 4: "bill_step 3000 ([(AtHost, ?l), (PastGate, tls_zero)], ?s) ([(AtHost, ?l), (AtHost, ?l)], ?s)"
    using bill_start [where i = 1 and ts = "[(AtHost, ?l), (PastGate, tls_zero)]" and l = tls_zero and now = 0] by simp
  have 5: "bill_step 3000 ([(AtHost, ?l), (AtHost, ?l)], ?s) ([(AtHost, l1), (AtHost, ?l)], s1)"
    using bill_sync [OF _ _ w c1, of 0 "[(AtHost, ?l), (AtHost, ?l)]"] by simp
  have 6: "bill_step 3000 ([(AtHost, l1), (AtHost, ?l)], s1) ([(AtHost, l1), (AtHost, l2)], s2)"
    using bill_sync [OF _ _ w c2, of 1 "[(AtHost, l1), (AtHost, ?l)]"] by simp
  have "reach (bill_step 3000) ([?z, ?z], ?s) ([(AtHost, l1), (AtHost, l2)], s2)"
    using 1 2 3 4 5 6 by (meson reach_Cons reach_one)
  from time_debt_bounded [OF _ _ _ _ _ _ _ _ _ _ this] show ?thesis
    by (simp add: c1 c2) (simp add: sample_time_def wake_level_def in_i64_def)
qed

theorem riding_batch_is_not_charged_witness:
  "time_credit_us (snd (time_batch_end_and_charge 9000 (time_batch_start 100
     \<lparr>tl_batch_start_us = 50, tl_batch_kernel_count = 1, tl_wc_riding = True\<rparr>, sample_time NORMAL 100))) = 100"
proof -
  let ?l = "\<lparr>tl_batch_start_us = 50, tl_batch_kernel_count = 1, tl_wc_riding = True\<rparr>"
  obtain l' s' where c: "time_batch_end_and_charge 9000 (time_batch_start 100 ?l, sample_time NORMAL 100) = (l', s')" by (meson surj_pair)
  have "time_credit_us s' = time_credit_us (sample_time NORMAL 100)"
    using riding_batch_is_not_charged [of ?l 100 "sample_time NORMAL 100" "[]"] c
    by (simp add: time_batch_start_def wrap32_def sample_time_def Let_def)
  then show ?thesis by (simp add: c) (simp add: sample_time_def)
qed

theorem boost_does_not_wake_witness:
  "time_credit_gate (replicate 20 (5, \<lambda>t. t\<lparr>boost_mode := True\<rparr>)) 5 (tls_zero, sample_time NORMAL 0) = None"
  using boost_does_not_wake [of "sample_time NORMAL 0" "replicate 20 (5, \<lambda>t. t\<lparr>boost_mode := True\<rparr>)" 5 tls_zero]
  by (simp add: sample_time_def tls_zero_def)

end
