(* ===== verification/BlessMem.thy ===== *)
theory BlessMem
  imports BlessTime Ledger
begin

text \<open>
  \<open>libbless.cpp\<close>, memory tracking (\<open>track_alloc\<close>, \<open>track_free\<close>, \<open>check_quota\<close>): a hash map of live
  pointers beside atomic counters. The map and the quota test are a second implementation of
  the ledger contract. \<open>mem_reset\<close> is the handler of the control command of that name.
\<close>

section \<open>Model\<close>

record mem_state = time_state +
  mem_alloc_count :: int
  mem_free_count :: int
  mem_current_bytes :: int
  mem_peak_bytes :: int
  mem_total_alloc_bytes :: int
  mem_quota_bytes :: int
  mem_tracking_enabled :: bool
  alloc_size_map :: "nat \<Rightarrow> nat option"

definition track_alloc :: "nat \<Rightarrow> nat \<Rightarrow> 'a mem_state_scheme \<Rightarrow> 'a mem_state_scheme" where
  "track_alloc ptr sz s =
     (if \<not> mem_tracking_enabled s then s
      else let s1 = s\<lparr>alloc_size_map := (alloc_size_map s)(ptr \<mapsto> sz)\<rparr>;
               s2 = s1\<lparr>mem_alloc_count := wrap64 (mem_alloc_count s1 + 1),
                       mem_total_alloc_bytes := wrap64 (mem_total_alloc_bytes s1 + int sz),
                       mem_current_bytes := wrap64 (mem_current_bytes s1 + int sz)\<rparr>;
               current = mem_current_bytes s2
           in if current > mem_peak_bytes s2 then s2\<lparr>mem_peak_bytes := current\<rparr> else s2)"

definition track_free :: "nat \<Rightarrow> 'a mem_state_scheme \<Rightarrow> 'a mem_state_scheme" where
  "track_free ptr s =
     (if \<not> mem_tracking_enabled s \<or> ptr = 0 then s
      else let sz = (case alloc_size_map s ptr of Some n \<Rightarrow> n | None \<Rightarrow> 0);
               s1 = s\<lparr>alloc_size_map := (alloc_size_map s)(ptr := None)\<rparr>
           in if sz > 0
              then s1\<lparr>mem_free_count := wrap64 (mem_free_count s1 + 1),
                      mem_current_bytes := wrap64 (mem_current_bytes s1 - int sz)\<rparr>
              else s1)"

definition check_quota :: "nat \<Rightarrow> 'a mem_state_scheme \<Rightarrow> bool" where
  "check_quota sz s =
     (if mem_quota_bytes s < 0 then True
      else wrap64 (mem_current_bytes s + wrap64 (int sz)) \<le> mem_quota_bytes s)"

definition mem_reset :: "'a mem_state_scheme \<Rightarrow> 'a mem_state_scheme" where
  "mem_reset s = s\<lparr>mem_alloc_count := 0, mem_free_count := 0, mem_current_bytes := 0, mem_peak_bytes := 0,
     mem_total_alloc_bytes := 0, alloc_size_map := Map.empty\<rparr>"

section \<open>The hash map as a ledger\<close>

definition mem_wf :: "'a mem_state_scheme \<Rightarrow> bool" where
  "mem_wf s \<longleftrightarrow> mem_tracking_enabled s \<and> finite (dom (alloc_size_map s)) \<and> (\<forall>p n. alloc_size_map s p = Some n \<longrightarrow> 0 < n)"

definition mem_live :: "'a mem_state_scheme \<Rightarrow> nat \<Rightarrow> int option" where
  "mem_live s p = map_option (\<lambda>n. wrap64 (int n)) (alloc_size_map s p)"

definition mem_ok :: "'a mem_state_scheme \<Rightarrow> nat \<Rightarrow> nat \<Rightarrow> bool" where
  "mem_ok s p n \<longleftrightarrow> p \<noteq> 0 \<and> alloc_size_map s p = None \<and> 0 < n"

definition mem_limit :: "'a mem_state_scheme \<Rightarrow> int" where
  "mem_limit s = (if mem_quota_bytes s < 0 then INT64_MAX else mem_quota_bytes s)"

lemmas mem_defs = mem_wf_def mem_live_def mem_ok_def mem_limit_def

lemma track_alloc_fields [simp]:
  assumes "mem_tracking_enabled s"
  shows "alloc_size_map (track_alloc p n s) = (alloc_size_map s)(p \<mapsto> n)"
    and "mem_current_bytes (track_alloc p n s) = wrap64 (mem_current_bytes s + int n)"
    and "mem_alloc_count (track_alloc p n s) = wrap64 (mem_alloc_count s + 1)"
    and "mem_free_count (track_alloc p n s) = mem_free_count s"
    and "mem_peak_bytes (track_alloc p n s) = max (mem_peak_bytes s) (wrap64 (mem_current_bytes s + int n))"
    and "mem_tracking_enabled (track_alloc p n s)"
  using assms by (simp_all add: track_alloc_def Let_def)

lemma track_quota [simp]:
  "mem_quota_bytes (track_alloc p n s) = mem_quota_bytes s" "mem_quota_bytes (track_free p s) = mem_quota_bytes s"
  by (simp_all add: track_alloc_def track_free_def Let_def)

lemma track_free_fields [simp]:
  assumes "mem_tracking_enabled s" and "p \<noteq> 0"
  shows "alloc_size_map (track_free p s) = (alloc_size_map s)(p := None)"
    and "mem_tracking_enabled (track_free p s)" and "mem_peak_bytes (track_free p s) = mem_peak_bytes s"
    and "mem_alloc_count (track_free p s) = mem_alloc_count s"
  using assms by (simp_all add: track_free_def Let_def)

lemma track_free_Some:
  assumes "mem_tracking_enabled s" and "p \<noteq> 0" and "alloc_size_map s p = Some n" and "0 < n"
  shows "mem_current_bytes (track_free p s) = wrap64 (mem_current_bytes s - int n)"
    and "mem_free_count (track_free p s) = wrap64 (mem_free_count s + 1)"
  using assms by (simp_all add: track_free_def Let_def)

lemma track_free_None:
  assumes "alloc_size_map s p = None"
  shows "mem_current_bytes (track_free p s) = mem_current_bytes s" and "mem_free_count (track_free p s) = mem_free_count s"
  using assms by (simp_all add: track_free_def Let_def)

lemma dom_mem_live: "dom (mem_live s) = dom (alloc_size_map s)"
  by (auto simp: mem_live_def dom_def)

lemma wrap64_diff_right: "wrap64 (a - wrap64 b) = wrap64 (a - b)"
proof -
  have "wrap64 (wrap64 (a - wrap64 b) + wrap64 b) = wrap64 (wrap64 (a - b) + wrap64 b)"
    by (metis wrap64_add_left diff_add_cancel add.commute)
  then have "wrap64 (wrap64 (wrap64 (a - wrap64 b) + wrap64 b) - wrap64 b) = wrap64 (wrap64 (wrap64 (a - b) + wrap64 b) - wrap64 b)"
    by simp
  then show ?thesis by (simp only: wrap64_diff_left add_diff_cancel_right') (simp add: wrap64_id)
qed

lemma check_quota_sound:
  "0 \<le> mem_current_bytes s \<Longrightarrow> in_i64 (mem_current_bytes s + int n) \<Longrightarrow> check_quota n s \<Longrightarrow>
   mem_current_bytes s + int n \<le> mem_limit s"
  by (auto simp: check_quota_def mem_limit_def wrap64_id in_i64_def split: if_splits)

interpretation bm: quota_ledger mem_wf mem_ok nonnull mem_live mem_current_bytes track_alloc track_free mem_limit check_quota
proof (unfold_locales, goal_cases)
  case (1 s)
  then show ?case by (simp add: dom_mem_live mem_wf_def)
next
  case (3 s p n)
  then show ?case by (auto simp: mem_wf_def mem_ok_def)
next
  case (4 s p n)
  then show ?case by (auto simp: mem_wf_def mem_live_def fun_eq_iff)
next
  case (6 s p)
  then show ?case by (auto simp: mem_wf_def nonnull_def split: if_splits)
next
  case (7 s p)
  then show ?case by (auto simp: mem_wf_def nonnull_def mem_live_def fun_eq_iff)
next
  case (8 s p)
  then show ?case
    by (cases "alloc_size_map s p")
       (auto simp: mem_wf_def nonnull_def mem_live_def track_free_Some track_free_None wrap64_diff_right)
next
  case (9 s n)
  then show ?case by (simp add: check_quota_sound)
qed (auto simp: mem_wf_def mem_ok_def mem_live_def nonnull_def mem_limit_def)

section \<open>Properties\<close>

fun mem_event_ok :: "'a mem_state_scheme \<Rightarrow> nat mem_event \<Rightarrow> bool" where
  "mem_event_ok s (Alloc p n) = mem_ok s p n"
| "mem_event_ok s (Free p) = nonnull p"

lemma mem_event_ok_eq: "mem_event_ok = bm.ev_ok"
proof (intro ext)
  show "mem_event_ok s e = bm.ev_ok s e" for s :: "'a mem_state_scheme" and e by (cases e) simp_all
qed

definition mem_consistent :: "'a mem_state_scheme \<Rightarrow> bool" where
  "mem_consistent s \<longleftrightarrow> mem_wf s \<and> mem_current_bytes s = wrap64 (live_total (mem_live s)) \<and>
     wrap64 (mem_alloc_count s - mem_free_count s) = wrap64 (int (card (dom (alloc_size_map s))))"

lemma wrap64_shift: "wrap64 (a - f) = wrap64 c \<Longrightarrow> wrap64 (wrap64 (a + 1) - f) = wrap64 (c + 1)"
  "wrap64 (a - f) = wrap64 c \<Longrightarrow> wrap64 (a - wrap64 (f + 1)) = wrap64 (c - 1)"
proof -
  assume h: "wrap64 (a - f) = wrap64 c"
  have "wrap64 (a - f + 1) = wrap64 (c + 1)" by (metis h wrap64_add_left)
  then show "wrap64 (wrap64 (a + 1) - f) = wrap64 (c + 1)" by (simp add: algebra_simps)
  have "wrap64 (a - f - 1) = wrap64 (c - 1)" by (metis h wrap64_diff_left)
  then show "wrap64 (a - wrap64 (f + 1)) = wrap64 (c - 1)" by (simp add: wrap64_diff_right algebra_simps)
qed

lemma mem_consistent_alloc:
  assumes "mem_consistent s" and "mem_ok s p n"
  shows "mem_consistent (track_alloc p n s)"
proof -
  have w: "mem_wf s" "mem_tracking_enabled s" "finite (dom (alloc_size_map s))" using assms(1) by (auto simp: mem_consistent_def mem_wf_def)
  have "bm.accounted (track_alloc p n s)"
    using bm.accounted_step [of s "Alloc p n"] assms by (simp add: bm.accounted_def mem_consistent_def)
  moreover have "p \<notin> dom (alloc_size_map s)" using assms(2) by (simp add: mem_ok_def domIff)
  then have "card (dom (alloc_size_map (track_alloc p n s))) = card (dom (alloc_size_map s)) + 1" using w by simp
  moreover have "wrap64 (wrap64 (mem_alloc_count s + 1) - mem_free_count s) = wrap64 (int (card (dom (alloc_size_map s))) + 1)"
    using assms(1) by (intro wrap64_shift) (simp add: mem_consistent_def)
  ultimately show ?thesis using w by (auto simp: mem_consistent_def bm.accounted_def add.commute)
qed

lemma mem_consistent_free:
  assumes "mem_consistent s" and "nonnull p"
  shows "mem_consistent (track_free p s)"
proof -
  have w: "mem_wf s" "mem_tracking_enabled s" "finite (dom (alloc_size_map s))" "p \<noteq> 0" using assms(1,2) by (auto simp: mem_consistent_def mem_wf_def nonnull_def)
  have acc: "bm.accounted (track_free p s)"
    using bm.accounted_step [of s "Free p"] assms(1,2) by (simp add: bm.accounted_def mem_consistent_def)
  have cnt: "wrap64 (mem_alloc_count (track_free p s) - mem_free_count (track_free p s)) =
      wrap64 (int (card (dom (alloc_size_map (track_free p s)))))"
  proof (cases "alloc_size_map s p")
    case None
    then show ?thesis using assms(1) w by (simp add: mem_consistent_def track_free_None fun_upd_idem)
  next
    case (Some n)
    then have n: "0 < n" using w(1) by (auto simp: mem_wf_def)
    have p: "p \<in> dom (alloc_size_map s)" using Some by auto
    then have "0 < card (dom (alloc_size_map s))" using w(3) by (auto simp: card_gt_0_iff)
    then have "int (card (dom (alloc_size_map s) - {p})) = int (card (dom (alloc_size_map s))) - 1"
      using p by (subst card_Diff_singleton) auto
    moreover have "wrap64 (mem_alloc_count s - wrap64 (mem_free_count s + 1)) = wrap64 (int (card (dom (alloc_size_map s))) - 1)"
      using assms(1) by (intro wrap64_shift) (simp add: mem_consistent_def)
    ultimately show ?thesis using w Some n by (simp add: track_free_Some)
  qed
  show ?thesis using acc cnt assms w by (auto simp: mem_consistent_def bm.accounted_def)
qed

lemma mem_consistent_run:
  "mem_consistent s \<Longrightarrow> mem_run_ok mem_event_ok track_alloc track_free evs s \<Longrightarrow> mem_consistent (mem_run track_alloc track_free evs s)"
proof (induction evs arbitrary: s)
  case (Cons e evs)
  then have "mem_consistent (mem_step track_alloc track_free e s)"
    by (cases e) (auto intro: mem_consistent_alloc mem_consistent_free)
  with Cons show ?case by simp
qed simp

text \<open>
  C38. The memory statistics stay consistent: after any sequence of tracked allocations and
  frees (frees of unknown pointers included) the current usage is the sum of the sizes in
  the map, and the difference of the allocation and free counters is the number of live
  pointers (both modulo 64 bits).
\<close>

theorem mem_stats_consistent:
  assumes "mem_wf s" and "alloc_size_map s = Map.empty" and "mem_current_bytes s = 0" and "mem_alloc_count s = mem_free_count s"
    and "mem_run_ok mem_event_ok track_alloc track_free evs s" and "s' = mem_run track_alloc track_free evs s"
  shows "mem_current_bytes s' = wrap64 (live_total (mem_live s')) \<and>
    wrap64 (mem_alloc_count s' - mem_free_count s') = wrap64 (int (card (dom (alloc_size_map s'))))"
proof -
  have "mem_live s = (\<lambda>_. None)" using assms(2) by (simp add: mem_live_def fun_eq_iff)
  then have "mem_consistent s" using assms(1-4) by (simp add: mem_consistent_def)
  from mem_consistent_run [OF this assms(5)] show ?thesis using assms(6) by (simp add: mem_consistent_def)
qed

text \<open>
  The quota test and the booking of an allocation are two steps: two threads that both pass
  the test before either has booked its allocation together exceed the quota.
\<close>

theorem quota_check_races:
  assumes "mem_tracking_enabled s" and "0 \<le> mem_current_bytes s" and "0 < n"
    and "mem_current_bytes s + int n \<le> mem_quota_bytes s" and "mem_quota_bytes s < mem_current_bytes s + 2 * int n"
    and "mem_current_bytes s + 2 * int n \<le> INT64_MAX"
  shows "check_quota n s \<and> mem_quota_bytes s < mem_current_bytes (track_alloc q n (track_alloc p n s))"
proof -
  have i: "in_i64 (mem_current_bytes s + int n)" "in_i64 (mem_current_bytes s + int n + int n)" "in_i64 (int n)"
    using assms by (auto simp: in_i64_def)
  then show ?thesis using assms by (simp add: check_quota_def wrap64_id)
qed

text \<open>
  \<open>mem_reset\<close> forgets memory that is still allocated: afterwards the quota test admits a
  full quota again although the old allocations live on, and freeing them is not noticed.
\<close>

theorem mem_reset_forgets_live_memory:
  assumes "mem_tracking_enabled s" and "0 \<le> mem_quota_bytes s" and "int n \<le> mem_quota_bytes s" and "mem_quota_bytes s \<le> INT64_MAX"
  shows "check_quota n (mem_reset s) \<and> mem_current_bytes (track_free p (mem_reset s)) = 0"
proof -
  have "in_i64 (int n)" using assms by (simp add: in_i64_def)
  then show ?thesis using assms by (simp add: check_quota_def mem_reset_def wrap64_id track_free_None)
qed

section \<open>Instances\<close>

definition sample_mem :: mem_state where
  "sample_mem = time_state.extend (sample_time NORMAL 0) \<lparr>mem_alloc_count = 0, mem_free_count = 0, mem_current_bytes = 0,
     mem_peak_bytes = 0, mem_total_alloc_bytes = 0, mem_quota_bytes = 1000, mem_tracking_enabled = True, alloc_size_map = Map.empty\<rparr>"

lemma sample_mem_fields [simp]:
  "mem_alloc_count sample_mem = 0" "mem_free_count sample_mem = 0" "mem_current_bytes sample_mem = 0"
  "mem_quota_bytes sample_mem = 1000" "mem_tracking_enabled sample_mem" "alloc_size_map sample_mem = Map.empty"
  by (simp_all add: sample_mem_def time_state.defs)

theorem mem_stats_consistent_witness:
  "mem_current_bytes (mem_run track_alloc track_free [Alloc 16 700, Free 8, Alloc 32 200, Free 16] sample_mem) = 200"
proof -
  let ?evs = "[Alloc 16 700, Free 8, Alloc 32 200, Free 16]"
  let ?s' = "mem_run track_alloc track_free ?evs sample_mem"
  have "mem_current_bytes ?s' = wrap64 (live_total (mem_live ?s'))"
    using mem_stats_consistent [of sample_mem ?evs ?s'] by (simp add: mem_wf_def mem_ok_def nonnull_def)
  also have "mem_live ?s' = [32 \<mapsto> 200]"
    by (auto simp: mem_live_def fun_eq_iff wrap64_def)
  also have "live_total ([32 \<mapsto> 200] :: nat \<rightharpoonup> int) = 200" by (simp add: live_total_def)
  finally show ?thesis by (simp add: wrap64_def)
qed

theorem quota_check_races_witness:
  "check_quota 600 sample_mem \<and> 1000 < mem_current_bytes (track_alloc 32 600 (track_alloc 16 600 sample_mem))"
  using quota_check_races [of sample_mem 600 32 16] by simp

theorem mem_reset_forgets_live_memory_witness:
  "check_quota 1000 (mem_reset (track_alloc 16 900 sample_mem)) \<and>
   mem_current_bytes (track_free 16 (mem_reset (track_alloc 16 900 sample_mem))) = 0"
  using mem_reset_forgets_live_memory [of "track_alloc 16 900 sample_mem" 1000 16] by simp

end
