(* ===== verification/BlessQmd.thy ===== *)
theory BlessQmd
  imports BlessMem CString
begin

unbundle bit_operations_syntax

text \<open>
  \<open>libbless.cpp\<close>, the QMD mode: the number of texture processing clusters (TPC) a tenant may
  use is turned into three 32 bit disable masks (\<open>kraken_qmd_set_allowed\<close>), which a driver
  callback writes into the launch descriptor of every kernel (\<open>kraken_qmd_callback\<close>). The
  descriptor is its list of bytes.
\<close>

section \<open>State\<close>

record qmd_state = mem_state +
  qmd_active :: bool
  qmd_mask_w0 :: "32 word"
  qmd_mask_w1 :: "32 word"
  qmd_mask_w2 :: "32 word"
  qmd_allowed_tpc :: int
  qmd_reconf_count :: int
  qmd_reconf_total_us :: int
  g_qmd_setup_done :: bool
  qmd_hooked :: bool

text \<open>
  \<open>qmd_hooked\<close> is the driver's side of \<open>subscribe\<close> and \<open>enable\<close>: whether the callback is called
  on launches.
\<close>

definition QMD_TPC_TOTAL :: nat where "QMD_TPC_TOTAL = 94"

section \<open>Masks\<close>

definition tpc_bit :: "nat \<Rightarrow> 32 word" where
  "tpc_bit t = push_bit (t mod 32) 1"

definition allow_tpc :: "nat \<Rightarrow> 32 word list \<Rightarrow> 32 word list" where
  "allow_tpc t m = m[t div 32 := (m ! (t div 32)) AND NOT (tpc_bit t)]"

definition tpc_forbidden :: "32 word list \<Rightarrow> nat \<Rightarrow> bool" where
  "tpc_forbidden m t \<longleftrightarrow> (m ! (t div 32)) AND tpc_bit t \<noteq> 0"

text \<open>The three loops; \<open>t\<close> and \<open>given\<close> are the loop variables.\<close>

function spread_loop :: "nat \<Rightarrow> nat \<Rightarrow> nat \<Rightarrow> 32 word list \<times> nat \<Rightarrow> 32 word list \<times> nat" where
  "spread_loop stride n t (m, given) =
     (if t < QMD_TPC_TOTAL \<and> given < n
      then spread_loop stride n (t + (if stride > 0 then stride else 1)) (allow_tpc t m, given + 1)
      else (m, given))"
  by pat_completeness auto
termination by (relation "measure (\<lambda>(stride, n, t, mg). QMD_TPC_TOTAL - t)") auto

function fill_loop :: "nat \<Rightarrow> nat \<Rightarrow> 32 word list \<times> nat \<Rightarrow> 32 word list \<times> nat" where
  "fill_loop n t (m, given) =
     (if t < QMD_TPC_TOTAL \<and> given < n
      then fill_loop n (t + 1) (if tpc_forbidden m t then (allow_tpc t m, given + 1) else (m, given))
      else (m, given))"
  by pat_completeness auto
termination by (relation "measure (\<lambda>(n, t, mg). QMD_TPC_TOTAL - t)") auto

function front_loop :: "nat \<Rightarrow> nat \<Rightarrow> 32 word list \<times> nat \<Rightarrow> 32 word list \<times> nat" where
  "front_loop n t (m, given) = (if t < n then front_loop n (t + 1) (allow_tpc t m, given + 1) else (m, given))"
  by pat_completeness auto
termination by (relation "measure (\<lambda>(n, t, mg). n - t)") auto

declare spread_loop.simps [simp del] fill_loop.simps [simp del] front_loop.simps [simp del]

text \<open>\<open>getenv(name) && getenv(name)[0] == '1'\<close>\<close>

definition env_flag :: "(string \<Rightarrow> string option) \<Rightarrow> string \<Rightarrow> bool" where
  "env_flag env name = (case env name of Some (c # _) \<Rightarrow> c = CHR ''1'' | _ \<Rightarrow> False)"

definition clamp_tpc :: "int \<Rightarrow> nat" where
  "clamp_tpc n_allowed =
     (let n1 = (if n_allowed < 1 then 1 else n_allowed) in nat (if n1 > int QMD_TPC_TOTAL then int QMD_TPC_TOTAL else n1))"

definition tpc_masks :: "bool \<Rightarrow> nat \<Rightarrow> 32 word list \<times> nat" where
  "tpc_masks spread n =
     (let m = [0xFFFFFFFF, 0xFFFFFFFF, 0xFFFFFFFF] in
      if spread
      then let stride = (if n > 0 then QMD_TPC_TOTAL div n else 1)
           in fill_loop n 0 (spread_loop stride n 0 (m, 0))
      else front_loop n 0 (m, 0))"

definition kraken_qmd_set_allowed :: "(string \<Rightarrow> string option) \<Rightarrow> int \<Rightarrow> 'a qmd_state_scheme \<Rightarrow> 'a qmd_state_scheme" where
  "kraken_qmd_set_allowed env n_allowed s =
     (let (m, given) = tpc_masks (env_flag env ''BLESS_QMD_SPREAD'') (clamp_tpc n_allowed)
      in s\<lparr>qmd_mask_w0 := m ! 0, qmd_mask_w1 := m ! 1, qmd_mask_w2 := m ! 2, qmd_allowed_tpc := int given\<rparr>)"

definition kraken_qmd_pct_to_tpc :: "int \<Rightarrow> int" where
  "kraken_qmd_pct_to_tpc pct =
     (let p1 = (if pct < 1 then 1 else pct); p2 = (if p1 > 100 then 100 else p1)
      in c_div (int QMD_TPC_TOTAL * p2 + 99) 100)"

section \<open>The launch callback\<close>

definition le_bytes :: "32 word \<Rightarrow> 8 word list" where
  "le_bytes w = map (\<lambda>j. ucast (drop_bit (8 * j) w)) [0..<4]"

definition store32 :: "nat \<Rightarrow> 32 word \<Rightarrow> 8 word list \<Rightarrow> 8 word list" where
  "store32 off w d = take off d @ le_bytes w @ drop (off + 4) d"

text \<open>
  \<open>in_size\<close> is the first word of the callback parameters; the descriptor is the fifth pointer
  (\<open>None\<close> for null).
\<close>

definition kraken_qmd_callback :: "'a qmd_state_scheme \<Rightarrow> nat \<Rightarrow> 8 word list option \<Rightarrow> 8 word list option" where
  "kraken_qmd_callback s in_size tmd =
     (if \<not> qmd_active s \<or> in_size < 5 * 8 then tmd
      else case tmd of None \<Rightarrow> None
      | Some d \<Rightarrow>
          if drop_bit 4 (d ! 58) < 0x5 then Some d
          else let d1 = store32 280 (qmd_mask_w0 s) d; d2 = store32 284 (qmd_mask_w1 s) d1;
                   d3 = store32 288 (qmd_mask_w2 s) d2; d4 = store32 292 0 d3
               in Some (d4[19 := (d4 ! 19) OR 0x80]))"

section \<open>Subscription\<close>

text \<open>
  The undocumented driver table: whether \<open>cuGetExportTable\<close> delivers it, and what its entries
  \<open>subscribe\<close> and \<open>enable\<close> return.
\<close>

record qmd_driver =
  export_table :: bool
  subscribe_rc :: int
  enable_rc :: int

definition kraken_qmd_setup :: "qmd_driver \<Rightarrow> 'a qmd_state_scheme \<Rightarrow> bool \<times> 'a qmd_state_scheme" where
  "kraken_qmd_setup q s =
     (if g_qmd_setup_done s then (True, s)
      else let s1 = s\<lparr>g_qmd_setup_done := True\<rparr> in
        if \<not> export_table q then (False, s1)
        else if subscribe_rc q \<noteq> 0 \<or> enable_rc q \<noteq> 0 then (False, s1)
        else (True, s1\<lparr>qmd_hooked := True\<rparr>))"

section \<open>Facts about masks\<close>

lemma tpc_bit_bit: "b < 32 \<Longrightarrow> bit (tpc_bit t) b \<longleftrightarrow> b = t mod 32"
  by (auto simp: tpc_bit_def bit_simps)

lemma tpc_forbidden_bit: "tpc_forbidden m t \<longleftrightarrow> bit (m ! (t div 32)) (t mod 32)"
proof -
  have "t mod 32 < 32" by simp
  then have "bit (m ! (t div 32) AND tpc_bit t) n \<longleftrightarrow> n = t mod 32 \<and> bit (m ! (t div 32)) n" for n
    using tpc_bit_bit [of n t] by (cases "n < 32") (auto simp: bit_simps dest: bit_imp_le_length)
  then show ?thesis unfolding tpc_forbidden_def bit_eq_iff [of _ "0 :: 32 word"] by simp
qed

lemma length_allow [simp]: "length (allow_tpc t m) = length m"
  by (simp add: allow_tpc_def)

lemma allow_forbidden:
  assumes "length m = 3" and "t < 96" and "u < 96"
  shows "tpc_forbidden (allow_tpc t m) u \<longleftrightarrow> u \<noteq> t \<and> tpc_forbidden m u"
proof (cases "u div 32 = t div 32")
  case True
  have u: "u div 32 < length m" using assms by simp
  have "u = t \<longleftrightarrow> u mod 32 = t mod 32" using True by (metis div_mult_mod_eq)
  moreover have "u mod 32 < 32" by simp
  ultimately show ?thesis using True u
    by (simp add: tpc_forbidden_bit allow_tpc_def bit_simps tpc_bit_bit) (metis True)
next
  case False
  then have "u \<noteq> t" by auto
  then show ?thesis using False by (simp add: tpc_forbidden_bit allow_tpc_def)
qed

definition allowed :: "32 word list \<Rightarrow> nat set" where
  "allowed m = {t. t < 96 \<and> \<not> tpc_forbidden m t}"

lemma allowed_allow: "length m = 3 \<Longrightarrow> t < 96 \<Longrightarrow> allowed (allow_tpc t m) = insert t (allowed m)"
  using allow_forbidden by (auto simp: allowed_def)

lemma length_fold_allow [simp]: "length (fold allow_tpc ts m) = length m"
  by (induction ts arbitrary: m) simp_all

lemma allowed_fold: "length m = 3 \<Longrightarrow> \<forall>t \<in> set ts. t < 96 \<Longrightarrow> allowed (fold allow_tpc ts m) = set ts \<union> allowed m"
  by (induction ts arbitrary: m) (simp_all add: allowed_allow)

lemma front_loop_fold: "t \<le> n \<Longrightarrow> front_loop n t (m, g) = (fold allow_tpc [t..<n] m, g + (n - t))"
proof (induction n t "(m, g)" arbitrary: m g rule: front_loop.induct)
  case (1 n t m g)
  then show ?case by (subst front_loop.simps) (auto simp: upt_conv_Cons)
qed

lemma spread_loop_fold:
  "g \<le> n \<Longrightarrow> 0 < stride \<Longrightarrow> n * stride \<le> QMD_TPC_TOTAL \<Longrightarrow>
   spread_loop stride n (g * stride) (m, g) = (fold allow_tpc (map (\<lambda>k. k * stride) [g..<n]) m, n)"
proof (induction "n - g" arbitrary: g m)
  case 0
  then show ?case by (subst spread_loop.simps) simp
next
  case (Suc d)
  then have g: "g < n" by simp
  then have "g * stride < n * stride" using Suc.prems(2) by simp
  then have "g * stride < QMD_TPC_TOTAL" using Suc.prems(3) by (rule order.strict_trans2)
  moreover have "spread_loop stride n (Suc g * stride) (allow_tpc (g * stride) m, Suc g) =
      (fold allow_tpc (map (\<lambda>k. k * stride) [Suc g..<n]) (allow_tpc (g * stride) m), n)"
    using Suc g by (intro Suc.hyps) auto
  ultimately show ?case using g Suc.prems(2)
    by (subst spread_loop.simps) (simp add: upt_conv_Cons add.commute)
qed

lemma fill_loop_done: "fill_loop n t (m, n) = (m, n)"
  by (subst fill_loop.simps) simp

lemma clamp_range: "1 \<le> clamp_tpc n" "clamp_tpc n \<le> QMD_TPC_TOTAL"
  by (auto simp: clamp_tpc_def QMD_TPC_TOTAL_def)

text \<open>The TPCs that a placement opens, as a set.\<close>

definition placement :: "bool \<Rightarrow> nat \<Rightarrow> nat list" where
  "placement spread n = (if spread then map (\<lambda>k. k * (QMD_TPC_TOTAL div n)) [0..<n] else [0..<n])"

lemma tpc_masks_fold:
  assumes "1 \<le> n" and "n \<le> QMD_TPC_TOTAL"
  shows "tpc_masks spread n = (fold allow_tpc (placement spread n) [0xFFFFFFFF, 0xFFFFFFFF, 0xFFFFFFFF], n)"
proof (cases spread)
  case True
  have "0 < QMD_TPC_TOTAL div n" using assms by (simp add: div_greater_zero_iff)
  moreover have "n * (QMD_TPC_TOTAL div n) \<le> QMD_TPC_TOTAL" by simp
  ultimately show ?thesis using spread_loop_fold [of 0 n "QMD_TPC_TOTAL div n"] True assms
    by (simp add: tpc_masks_def placement_def fill_loop_done Let_def)
qed (use front_loop_fold [of 0 n] in \<open>simp add: tpc_masks_def placement_def Let_def\<close>)

lemma placement_distinct: "1 \<le> n \<Longrightarrow> n \<le> QMD_TPC_TOTAL \<Longrightarrow> distinct (placement spread n)"
  by (auto simp: placement_def distinct_map inj_on_def div_eq_0_iff)

lemma placement_range: "1 \<le> n \<Longrightarrow> n \<le> QMD_TPC_TOTAL \<Longrightarrow> \<forall>t \<in> set (placement spread n). t < QMD_TPC_TOTAL"
proof (cases spread)
  case True
  assume n: "1 \<le> n" "n \<le> QMD_TPC_TOTAL"
  have "k * (QMD_TPC_TOTAL div n) < QMD_TPC_TOTAL" if "k < n" for k
  proof -
    have "k * (QMD_TPC_TOTAL div n) < n * (QMD_TPC_TOTAL div n)" using that n by (simp add: div_greater_zero_iff)
    also have "\<dots> \<le> QMD_TPC_TOTAL" by simp
    finally show ?thesis .
  qed
  then show ?thesis using True by (auto simp: placement_def)
qed (auto simp: placement_def)

lemma allowed_none: "allowed [0xFFFFFFFF, 0xFFFFFFFF, 0xFFFFFFFF] = {}"
proof -
  have "(0xFFFFFFFF :: 32 word) = mask 32" by (simp add: mask_eq_exp_minus_1)
  then have b: "bit (0xFFFFFFFF :: 32 word) (t mod 32)" for t by (simp only: bit_mask_iff) simp
  have "tpc_forbidden [0xFFFFFFFF, 0xFFFFFFFF, 0xFFFFFFFF] t" if "t < 96" for t
  proof -
    have "t div 32 = 0 \<or> t div 32 = 1 \<or> t div 32 = 2" using that by linarith
    then show ?thesis using b [of t] unfolding tpc_forbidden_bit by (elim disjE) (simp_all only: nth_Cons_0 nth_Cons_Suc One_nat_def numeral_2_eq_2)
  qed
  then show ?thesis by (auto simp: allowed_def)
qed

definition qmd_masks :: "'a qmd_state_scheme \<Rightarrow> 32 word list" where
  "qmd_masks s = [qmd_mask_w0 s, qmd_mask_w1 s, qmd_mask_w2 s]"

lemma set_allowed_masks:
  "qmd_masks (kraken_qmd_set_allowed env n s) =
     fold allow_tpc (placement (env_flag env ''BLESS_QMD_SPREAD'') (clamp_tpc n)) [0xFFFFFFFF, 0xFFFFFFFF, 0xFFFFFFFF]"
  "qmd_allowed_tpc (kraken_qmd_set_allowed env n s) = int (clamp_tpc n)"
proof -
  let ?m = "fold allow_tpc (placement (env_flag env ''BLESS_QMD_SPREAD'') (clamp_tpc n)) [0xFFFFFFFF, 0xFFFFFFFF, 0xFFFFFFFF]"
  have "length ?m = Suc (Suc (Suc 0))" by simp
  then have "[?m ! 0, ?m ! 1, ?m ! 2] = ?m" by (auto simp only: length_Suc_conv length_0_conv nth_Cons_0 nth_Cons_Suc One_nat_def numeral_2_eq_2)
  then show "qmd_masks (kraken_qmd_set_allowed env n s) = ?m" "qmd_allowed_tpc (kraken_qmd_set_allowed env n s) = int (clamp_tpc n)"
    by (simp_all add: kraken_qmd_set_allowed_def qmd_masks_def tpc_masks_fold [OF clamp_range])
qed

lemma set_allowed_allowed:
  "allowed (qmd_masks (kraken_qmd_set_allowed env n s)) = set (placement (env_flag env ''BLESS_QMD_SPREAD'') (clamp_tpc n))"
proof -
  have "\<forall>t \<in> set (placement (env_flag env ''BLESS_QMD_SPREAD'') (clamp_tpc n)). t < 96"
    using placement_range [OF clamp_range, of "env_flag env ''BLESS_QMD_SPREAD''" n] by (auto simp: QMD_TPC_TOTAL_def)
  then show ?thesis by (simp add: set_allowed_masks allowed_fold allowed_none)
qed

text \<open>
  C19. The mask loops compute the specified set: whatever number of TPCs is asked for, the masks
  open exactly the requested number clamped to 1 and 94, which is also what
  \<open>qmd_allowed_tpc\<close> reports; contiguous placement opens the first ones, spread placement the
  multiples of the stride \<open>94 div n\<close>. No TPC beyond the 94 of the card is ever opened and never
  none at all. The loop that is meant to top up a spread placement has nothing to do.
\<close>

theorem qmd_masks_match_placement:
  "let s' = kraken_qmd_set_allowed env n s; k = clamp_tpc n; P = allowed (qmd_masks s') in
   P = (if env_flag env ''BLESS_QMD_SPREAD'' then (\<lambda>i. i * (94 div k)) ` {0..<k} else {0..<k}) \<and>
   int (card P) = qmd_allowed_tpc s' \<and> int (card P) = max 1 (min 94 n) \<and> P \<subseteq> {0..<94}"
proof -
  let ?b = "env_flag env ''BLESS_QMD_SPREAD''" and ?k = "clamp_tpc n"
  have c: "card (set (placement ?b ?k)) = ?k"
    using distinct_card [OF placement_distinct [OF clamp_range, of ?b n]] by (simp add: placement_def split: if_splits)
  have k: "int ?k = max 1 (min 94 n)" by (auto simp: clamp_tpc_def QMD_TPC_TOTAL_def)
  have "set (placement ?b ?k) \<subseteq> {0..<94}"
    using placement_range [OF clamp_range, of ?b n] by (auto simp: QMD_TPC_TOTAL_def)
  moreover have "set (placement ?b ?k) = (if ?b then (\<lambda>i. i * (94 div ?k)) ` {0..<?k} else {0..<?k})"
    by (simp add: placement_def QMD_TPC_TOTAL_def)
  ultimately show ?thesis using c k by (simp only: Let_def set_allowed_allowed set_allowed_masks(2))
qed

text \<open>
  C30. The percentage is rounded up, never down: the TPCs granted cover the requested share of the
  card, by less than one TPC, and a percentage out of range counts as 1 or 100.
\<close>

theorem pct_to_tpc_rounds_up:
  "let p = max 1 (min 100 pct); n = kraken_qmd_pct_to_tpc pct in
   94 * p \<le> 100 * n \<and> 100 * (n - 1) < 94 * p \<and> 1 \<le> n \<and> n \<le> 94"
proof -
  define p where "p = max 1 (min 100 pct)"
  have d: "kraken_qmd_pct_to_tpc pct = (94 * p + 99) div 100"
    by (auto simp: kraken_qmd_pct_to_tpc_def Let_def QMD_TPC_TOTAL_def c_div_nonneg p_def)
  have p: "1 \<le> p" "p \<le> 100" by (auto simp: p_def)
  obtain n r where n: "n = (94 * p + 99) div 100" and r: "94 * p + 99 = 100 * n + r" "0 \<le> r" "r < 100"
    by (metis mult_div_mod_eq pos_mod_bound pos_mod_sign zero_less_numeral)
  show ?thesis unfolding d Let_def p_def [symmetric] n [symmetric] using p r by auto
qed

section \<open>Descriptors\<close>

lemma le_bytes_nth: "length (le_bytes w) = 4" "j < 4 \<Longrightarrow> le_bytes w ! j = ucast (drop_bit (8 * j) w)"
  unfolding le_bytes_def by (simp_all only: length_map length_upt nth_map nth_upt) simp_all

lemma store32_nth:
  assumes "off + 4 \<le> length d" and "i < length d"
  shows "store32 off w d ! i = (if off \<le> i \<and> i < off + 4 then ucast (drop_bit (8 * (i - off)) w) else d ! i)"
proof -
  have m: "length (take off d) = off" using assms by simp
  consider "i < off" | "off \<le> i" "i < off + 4" "i - off < 4" | "off + 4 \<le> i" "\<not> i - off < 4" by linarith
  then show ?thesis
    by cases (use assms m in \<open>simp_all add: store32_def nth_append le_bytes_nth\<close>)
qed

lemma length_store32 [simp]: "off + 4 \<le> length d \<Longrightarrow> length (store32 off w d) = length d"
  by (simp add: store32_def le_bytes_nth)

text \<open>What the hardware reads: bit \<open>t\<close> of the disable mask at byte 280, valid bit 7 of byte 19.\<close>

definition descriptor_forbids :: "8 word list \<Rightarrow> nat \<Rightarrow> bool" where
  "descriptor_forbids d t \<longleftrightarrow> bit (d ! (280 + t div 8)) (t mod 8)"

definition is_v5 :: "8 word list \<Rightarrow> bool" where
  "is_v5 d \<longleftrightarrow> 296 \<le> length d \<and> \<not> drop_bit 4 (d ! 58) < 0x5"

lemma word_byte_bit: "b < 8 \<Longrightarrow> bit (ucast (drop_bit (8 * j) (w :: 32 word)) :: 8 word) b \<longleftrightarrow> bit w (8 * j + b)"
  by (auto simp: bit_simps dest: bit_imp_le_length)

lemma byte_of_mask:
  "t div 8 = 4 * (t div 32) + (t mod 32) div 8" "8 * ((t mod 32) div 8) + t mod 8 = t mod (32 :: nat)" "(t mod 32) div 8 < (4 :: nat)"
proof -
  have m: "t mod 32 = 8 * (t div 8 mod 4) + t mod 8" using mod_mult2_eq [of t 8 4] by simp
  then have q: "(t mod 32) div 8 = t div 8 mod 4" by simp
  have "t div 32 = t div 8 div 4" using div_mult2_eq [of t 8 4] by simp
  then show "t div 8 = 4 * (t div 32) + (t mod 32) div 8" using q by simp
  show "8 * ((t mod 32) div 8) + t mod 8 = t mod 32" "(t mod 32) div 8 < 4" using m q by simp_all
qed

definition written :: "'a qmd_state_scheme \<Rightarrow> 8 word list \<Rightarrow> 8 word list" where
  "written s d = store32 292 0 (store32 288 (qmd_mask_w2 s) (store32 284 (qmd_mask_w1 s) (store32 280 (qmd_mask_w0 s) d)))"

lemma written_nth:
  assumes "296 \<le> length d" and "i < length d"
  shows "written s d ! i = (if 292 \<le> i \<and> i < 292 + 4 then 0
    else if 288 \<le> i \<and> i < 288 + 4 then ucast (drop_bit (8 * (i - 288)) (qmd_mask_w2 s))
    else if 284 \<le> i \<and> i < 284 + 4 then ucast (drop_bit (8 * (i - 284)) (qmd_mask_w1 s))
    else if 280 \<le> i \<and> i < 280 + 4 then ucast (drop_bit (8 * (i - 280)) (qmd_mask_w0 s)) else d ! i)"
proof -
  have l: "280 + 4 \<le> length d" "284 + 4 \<le> length d" "288 + 4 \<le> length d" "292 + 4 \<le> length d" using assms(1) by simp_all
  have z: "ucast (drop_bit k (0 :: 32 word)) = (0 :: 8 word)" for k by simp
  show ?thesis unfolding written_def
    by (simp only: store32_nth length_store32 z l assms(2) if_cancel)
qed

lemma written_at:
  assumes "296 \<le> length d" and "j < 4"
  shows "written s d ! (280 + j) = ucast (drop_bit (8 * j) (qmd_mask_w0 s))"
    "written s d ! (284 + j) = ucast (drop_bit (8 * j) (qmd_mask_w1 s))"
    "written s d ! (288 + j) = ucast (drop_bit (8 * j) (qmd_mask_w2 s))"
  using assms by (simp_all add: written_nth)

lemma written_mask:
  assumes "296 \<le> length d" and "t < 96"
  shows "written s d ! (280 + t div 8) = ucast (drop_bit (8 * ((t mod 32) div 8)) (qmd_masks s ! (t div 32)))"
proof -
  define j where "j = (t mod 32) div 8"
  have i: "t div 8 = 4 * (t div 32) + j" "j < 4" unfolding j_def by (rule byte_of_mask)+
  note w = written_at [OF assms(1) i(2), of s]
  consider "t div 32 = 0" | "t div 32 = 1" | "t div 32 = 2" using assms(2) by linarith
  then show ?thesis unfolding i(1) j_def [symmetric] by cases (simp_all add: w qmd_masks_def)
qed

lemma callback_written:
  assumes "qmd_active s" and "40 \<le> in_size" and "is_v5 d"
  shows "kraken_qmd_callback s in_size (Some d) = Some ((written s d)[19 := (d ! 19) OR 0x80])"
proof -
  have l: "296 \<le> length d" and v: "\<not> drop_bit 4 (d ! 58) < 0x5" using assms(3) unfolding is_v5_def by blast+
  have "written s d ! 19 = d ! 19" using l by (subst written_nth) simp_all
  moreover have "\<not> in_size < 5 * 8" using assms(2) by simp
  ultimately show ?thesis using assms(1) v
    by (simp only: kraken_qmd_callback_def Let_def written_def [symmetric] option.case if_False simp_thms)
qed

lemma set_allowed_active [simp]: "qmd_active (kraken_qmd_set_allowed env k s) = qmd_active s"
  by (simp add: kraken_qmd_set_allowed_def split: prod.splits)

lemma callback_untouched:
  "\<not> qmd_active s \<Longrightarrow> kraken_qmd_callback s in_size tmd = tmd"
  "in_size < 5 * 8 \<Longrightarrow> kraken_qmd_callback s in_size tmd = tmd"
  "drop_bit 4 (d ! 58) < 5 \<Longrightarrow> kraken_qmd_callback s in_size (Some d) = Some d"
  "kraken_qmd_callback s in_size None = None"
  by (simp_all add: kraken_qmd_callback_def)

text \<open>
  C18. From a percentage to the hardware: after a QMD reconfiguration, the callback writes the
  descriptor of a launch exactly when the mode is active, the parameter block is large enough
  to hold the pointer to it and its version is at least five. Then bit 7 of byte 19 is set, the mask words
  forbid a TPC exactly when the placement does not contain it, the fourth mask word is zero
  and every other byte is unchanged. In every other case the descriptor is left as it is, and
  a null pointer is not followed.
\<close>

theorem qmd_descriptor_carries_masks:
  assumes "s' = kraken_qmd_set_allowed env (kraken_qmd_pct_to_tpc pct) s" and "296 \<le> length d"
  shows "\<exists>d'. kraken_qmd_callback s' in_size (Some d) = Some d' \<and> kraken_qmd_callback s' in_size None = None \<and>
    length d' = length d \<and>
    (if qmd_active s \<and> 40 \<le> in_size \<and> 5 \<le> drop_bit 4 (d ! 58)
     then d' ! 19 = d ! 19 OR 0x80 \<and>
       (\<forall>t < 96. descriptor_forbids d' t \<longleftrightarrow>
          t \<notin> set (placement (env_flag env ''BLESS_QMD_SPREAD'') (clamp_tpc (kraken_qmd_pct_to_tpc pct)))) \<and>
       (\<forall>i \<in> {292..<296}. d' ! i = 0) \<and> (\<forall>i < length d. i \<noteq> 19 \<and> (i < 280 \<or> 296 \<le> i) \<longrightarrow> d' ! i = d ! i)
     else d' = d)"
proof (cases "qmd_active s \<and> 40 \<le> in_size \<and> 5 \<le> drop_bit 4 (d ! 58)")
  case False
  then have "\<not> qmd_active s' \<or> in_size < 5 * 8 \<or> drop_bit 4 (d ! 58) < 5"
    using assms(1) by (auto simp: set_allowed_active)
  then have "kraken_qmd_callback s' in_size (Some d) = Some d" by (elim disjE) (rule callback_untouched, assumption)+
  then show ?thesis using False by (simp only: callback_untouched(4) if_False simp_thms option.inject ex_simps)
next
  case True
  then have v: "is_v5 d" and a: "qmd_active s'" using assms by (auto simp: is_v5_def set_allowed_active)
  let ?d = "(written s' d)[19 := (d ! 19) OR 0x80]"
  have lw: "length (written s' d) = length d" using assms(2) by (simp add: written_def)
  have "descriptor_forbids ?d t \<longleftrightarrow> t \<notin> allowed (qmd_masks s')" if "t < 96" for t
    using that byte_of_mask(2) [of t]
    by (simp add: descriptor_forbids_def written_mask assms(2) word_byte_bit allowed_def tpc_forbidden_bit del: ucast_drop_bit_eq)
  moreover have "\<forall>i \<in> {292..<296}. ?d ! i = 0" using assms(2) by (auto simp: written_nth)
  moreover have "kraken_qmd_callback s' in_size (Some d) = Some ?d" using callback_written [OF a _ v] True by blast
  moreover have "?d ! 19 = d ! 19 OR 0x80" "length ?d = length d" using assms(2) lw by simp_all
  moreover have "\<forall>i < length d. i \<noteq> 19 \<and> (i < 280 \<or> 296 \<le> i) \<longrightarrow> ?d ! i = d ! i" using assms(2) by (simp add: written_nth)
  ultimately show ?thesis unfolding if_P [OF True]
    by (intro exI [of _ ?d]) (simp add: assms(1) set_allowed_allowed callback_untouched(4))
qed

text \<open>
  A failed subscription is forgotten: \<open>kraken_qmd_setup\<close> marks itself done before it has
  succeeded, so every later call reports success although no callback is installed.
\<close>

theorem qmd_setup_failure_forgotten:
  assumes "\<not> g_qmd_setup_done s" and "kraken_qmd_setup q s = (False, s1)"
  shows "kraken_qmd_setup q' s1 = (True, s1) \<and> qmd_hooked s1 = qmd_hooked s"
  using assms by (auto simp: kraken_qmd_setup_def Let_def split: if_splits)

section \<open>Instances\<close>

definition sample_qmd :: qmd_state where
  "sample_qmd = mem_state.extend sample_mem \<lparr>qmd_active = True, qmd_mask_w0 = 0, qmd_mask_w1 = 0, qmd_mask_w2 = 0,
     qmd_allowed_tpc = 94, qmd_reconf_count = 0, qmd_reconf_total_us = 0, g_qmd_setup_done = False, qmd_hooked = False\<rparr>"

lemma sample_qmd_fields [simp]: "qmd_active sample_qmd" "\<not> g_qmd_setup_done sample_qmd" "\<not> qmd_hooked sample_qmd"
  by (simp_all add: sample_qmd_def mem_state.defs)

definition sample_descriptor :: "8 word list" where
  "sample_descriptor = (replicate 384 0)[58 := 0x50]"

theorem qmd_descriptor_carries_masks_witness:
  "\<exists>d'. kraken_qmd_callback (kraken_qmd_set_allowed (\<lambda>_. None) (kraken_qmd_pct_to_tpc 50) sample_qmd) 64 (Some sample_descriptor) = Some d' \<and>
     d' ! 19 = 0x80 \<and> \<not> descriptor_forbids d' 46 \<and> descriptor_forbids d' 47"
proof -
  let ?s = "kraken_qmd_set_allowed (\<lambda>_. None) (kraken_qmd_pct_to_tpc 50) sample_qmd"
  have v: "5 \<le> drop_bit 4 (sample_descriptor ! 58)" "296 \<le> length sample_descriptor" "sample_descriptor ! 19 = 0"
    by (simp_all add: sample_descriptor_def)
  have k: "clamp_tpc (kraken_qmd_pct_to_tpc 50) = 47"
    by (simp add: kraken_qmd_pct_to_tpc_def clamp_tpc_def QMD_TPC_TOTAL_def c_div_def)
  show ?thesis
    using qmd_descriptor_carries_masks [of ?s "\<lambda>_. None" 50 sample_qmd sample_descriptor 64] v
    by (auto simp: k placement_def env_flag_def)
qed

theorem qmd_setup_failure_forgotten_witness:
  "kraken_qmd_setup \<lparr>export_table = True, subscribe_rc = 1, enable_rc = 0\<rparr> (snd (kraken_qmd_setup \<lparr>export_table = False, subscribe_rc = 0, enable_rc = 0\<rparr> sample_qmd)) =
     (True, snd (kraken_qmd_setup \<lparr>export_table = False, subscribe_rc = 0, enable_rc = 0\<rparr> sample_qmd)) \<and>
   \<not> qmd_hooked (snd (kraken_qmd_setup \<lparr>export_table = False, subscribe_rc = 0, enable_rc = 0\<rparr> sample_qmd))"
proof -
  let ?q = "\<lparr>export_table = False, subscribe_rc = 0, enable_rc = 0\<rparr>"
  have "kraken_qmd_setup ?q sample_qmd = (False, snd (kraken_qmd_setup ?q sample_qmd))" by (simp add: kraken_qmd_setup_def)
  from qmd_setup_failure_forgotten [OF _ this] show ?thesis by simp
qed

end
