(* ===== verification/BlessCtx.thy ===== *)
theory BlessCtx
  imports BlessQmd
begin

text \<open>
  \<open>libbless.cpp\<close>, contexts: creation through the driver's entry points (\<open>bless_ctx_create\<close>),
  the switch to the context of the route around a call (\<open>ScopedCtxGuard\<close>), the reconfiguration
  of the limited context (\<open>reconf_limited_ctx\<close>) and the attachment of the CUDA runtime
  (\<open>attach_runtime_if_needed\<close>). Contexts are numbers, null is \<open>None\<close>. The driver keeps a
  stack of current contexts per thread, here the first component of the state pairs, and the
  list of the contexts that exist.
\<close>

section \<open>State\<close>

datatype Route = LIMITED | UNLIMITED

datatype SpaceMode = SPACE_CTX | SPACE_MPS_ENV | SPACE_QMD

type_synonym ctx = "nat option"

record ctx_state = qmd_state +
  route :: Route
  ctx_limited :: ctx
  ctx_unlimited :: ctx
  total_sms :: int
  limited_sms :: int
  limited_applied :: bool
  requested_pct :: int
  space_mode :: SpaceMode
  fallback_launches :: int
  reconf_gate :: int
  ctx_switch_count :: int
  ctx_switch_total_us :: int
  ctx_switch_avg_us :: int
  ctx_switch_max_us :: int
  rt_attached :: bool
  live_ctxs :: "nat list"

text \<open>
  The driver: the two creation entry points (\<open>None\<close> when the symbol is missing), which take the
  existing contexts and the SM affinity and return a code and what they store; whether a
  context can be pushed; the affinity of the current context.
\<close>

type_synonym ctx_create = "nat list \<Rightarrow> int option \<Rightarrow> int \<times> ctx"

record cuda_api =
  cuCtxCreate_v4 :: "ctx_create option"
  cuCtxCreate_v3 :: "ctx_create option"
  push_ok :: "ctx \<Rightarrow> bool"
  exec_affinity :: "ctx \<Rightarrow> int option"
  qmd_table :: qmd_driver

type_synonym 'a threaded = "ctx list \<times> 'a ctx_state_scheme"

section \<open>Driver calls\<close>

definition current_ctx :: "ctx list \<Rightarrow> ctx" where
  "current_ctx st = (case st of [] \<Rightarrow> None | c # _ \<Rightarrow> c)"

definition cuCtxPushCurrent :: "cuda_api \<Rightarrow> ctx \<Rightarrow> ctx list \<Rightarrow> ctx list" where
  "cuCtxPushCurrent api c st = (if push_ok api c then c # st else st)"

definition cuCtxPopCurrent :: "ctx list \<Rightarrow> ctx list" where
  "cuCtxPopCurrent st = tl st"

definition cuCtxDestroy :: "nat \<Rightarrow> 'a threaded \<Rightarrow> 'a threaded" where
  "cuCtxDestroy c = (\<lambda>(st, s). (if current_ctx st = Some c then tl st else st, s\<lparr>live_ctxs := removeAll c (live_ctxs s)\<rparr>))"

definition CUDA_ERROR_NOT_SUPPORTED :: int where "CUDA_ERROR_NOT_SUPPORTED = 801"

text \<open>
  \<open>old\<close> is the value of \<open>*pctx\<close> before the call. A context that is created becomes current for
  the calling thread.
\<close>

definition bless_ctx_create :: "cuda_api \<Rightarrow> int option \<Rightarrow> ctx \<Rightarrow> 'a threaded \<Rightarrow> int \<times> ctx \<times> 'a threaded" where
  "bless_ctx_create api aff old = (\<lambda>(st, s).
     let create = (case cuCtxCreate_v4 api of Some f \<Rightarrow> Some f | None \<Rightarrow> cuCtxCreate_v3 api) in
     case create of None \<Rightarrow> (CUDA_ERROR_NOT_SUPPORTED, old, st, s)
     | Some f \<Rightarrow>
         (case f (live_ctxs s) aff of
            (rc, None) \<Rightarrow> (rc, old, st, s)
          | (rc, Some c) \<Rightarrow> (rc, Some c, Some c # st, s\<lparr>live_ctxs := c # live_ctxs s\<rparr>)))"

section \<open>ScopedCtxGuard\<close>

definition switch_recorded :: "int \<Rightarrow> 'a ctx_state_scheme \<Rightarrow> 'a ctx_state_scheme" where
  "switch_recorded elapsed s =
     s\<lparr>ctx_switch_count := wrap64 (ctx_switch_count s + 1), ctx_switch_total_us := wrap64 (ctx_switch_total_us s + elapsed),
       ctx_switch_avg_us := c_div (wrap64 (ctx_switch_avg_us s * 7 + elapsed)) 8,
       ctx_switch_max_us := (if elapsed > ctx_switch_max_us s then elapsed else ctx_switch_max_us s)\<rparr>"

text \<open>
  Constructor and destructor. \<open>elapsed\<close> is the difference of the two clock readings around the
  push or the pop. The constructor returns \<open>pushed\<close>.
\<close>

definition guard_target :: "Route option \<Rightarrow> 'a ctx_state_scheme \<Rightarrow> ctx \<times> 'a ctx_state_scheme" where
  "guard_target override_route s =
     (let r = (case override_route of Some r \<Rightarrow> r | None \<Rightarrow> route s);
          target = (if r = UNLIMITED then ctx_unlimited s else ctx_limited s) in
      if target = None
      then (ctx_unlimited s, if space_mode s = SPACE_CTX then s\<lparr>fallback_launches := wrap64 (fallback_launches s + 1)\<rparr> else s)
      else (target, s))"

definition guard_enter :: "cuda_api \<Rightarrow> int \<Rightarrow> Route option \<Rightarrow> 'a threaded \<Rightarrow> bool \<times> 'a threaded" where
  "guard_enter api elapsed override_route = (\<lambda>(st, s).
     let (target, s1) = guard_target override_route s in
     if \<not> limited_applied s1 then (False, st, s1)
     else if current_ctx st \<noteq> target then (True, cuCtxPushCurrent api target st, switch_recorded elapsed s1)
     else (False, st, s1))"

definition guard_exit :: "int \<Rightarrow> bool \<Rightarrow> 'a threaded \<Rightarrow> 'a threaded" where
  "guard_exit elapsed pushed = (\<lambda>(st, s).
     if pushed then (cuCtxPopCurrent st, s\<lparr>ctx_switch_total_us := wrap64 (ctx_switch_total_us s + elapsed)\<rparr>) else (st, s))"

section \<open>Attaching the runtime\<close>

text \<open>
  Without the resolution of the symbols and the call \<open>cudaFree(0)\<close>, which change nothing that is
  modelled.
\<close>

definition attach_runtime_if_needed :: "cuda_api \<Rightarrow> 'a threaded \<Rightarrow> 'a threaded" where
  "attach_runtime_if_needed api = (\<lambda>(st, s).
     if rt_attached s then (st, s)
     else let st1 = cuCtxPopCurrent (cuCtxPushCurrent api (ctx_limited s) st);
              st2 = cuCtxPopCurrent (cuCtxPushCurrent api (ctx_unlimited s) st1)
          in (st2, s\<lparr>rt_attached := True\<rparr>))"

section \<open>Reconfiguration\<close>

definition env_limit_pct :: "int \<Rightarrow> (string \<Rightarrow> string option) \<Rightarrow> int" where
  "env_limit_pct bound env = (case env ''BLESS_LIMIT_PCT'' of None \<Rightarrow> 50
     | Some e \<Rightarrow> let v = atoi e in if v > 0 \<and> v \<le> bound then v else 50)"

definition reconf_qmd :: "cuda_api \<Rightarrow> (string \<Rightarrow> string option) \<Rightarrow> 'a ctx_state_scheme \<Rightarrow> 'a ctx_state_scheme" where
  "reconf_qmd api env s =
     (let pct = env_limit_pct 100 env; (ok, s1) = kraken_qmd_setup (qmd_table api) s in
      if ok then (kraken_qmd_set_allowed env (kraken_qmd_pct_to_tpc pct) s1)\<lparr>qmd_active := True\<rparr> else s1)"

text \<open>The part that closes the gate and destroys the old context, and the part that creates the new one.\<close>

definition drop_limited :: "cuda_api \<Rightarrow> 'a threaded \<Rightarrow> 'a threaded" where
  "drop_limited api = (\<lambda>(st, s). case ctx_limited s of None \<Rightarrow> (st, s)
     | Some c \<Rightarrow>
         let s1 = (if reconf_gate s = 0 then s\<lparr>reconf_gate := 1\<rparr> else s);
             st1 = cuCtxPopCurrent (cuCtxPushCurrent api (Some c) st)
         in cuCtxDestroy c (st1, s1))"

definition make_limited :: "cuda_api \<Rightarrow> int \<Rightarrow> 'a threaded \<Rightarrow> 'a threaded" where
  "make_limited api new_sms = (\<lambda>(st, s).
     let (rc, c, st1, s1) = bless_ctx_create api (Some new_sms) (ctx_limited s) (st, s);
         (st2, s2) = (if rc \<noteq> 0 \<or> c = None then (st1, s1\<lparr>ctx_limited := None, limited_applied := False\<rparr>)
                      else (cuCtxPopCurrent (cuCtxPushCurrent api c st1), s1\<lparr>ctx_limited := c, limited_applied := True\<rparr>))
     in (st2, s2\<lparr>limited_sms := new_sms, reconf_gate := 0\<rparr>))"

definition cap_sms :: "int \<Rightarrow> int \<Rightarrow> int" where
  "cap_sms m new_sms = (let n = (if new_sms < 1 then 1 else new_sms) in if n > m then m else n)"

definition reconf_limited_ctx :: "cuda_api \<Rightarrow> (string \<Rightarrow> string option) \<Rightarrow> int \<Rightarrow> 'a threaded \<Rightarrow> 'a threaded" where
  "reconf_limited_ctx api env new_sms = (\<lambda>(st, s).
     if space_mode s = SPACE_MPS_ENV
     then (st, s\<lparr>ctx_limited := None, limited_applied := False, limited_sms := new_sms, reconf_gate := 0\<rparr>)
     else let s1 = (if space_mode s = SPACE_QMD then reconf_qmd api env s else s) in
       if any_alloc s1 then (st, s1)
       else make_limited api (cap_sms (total_sms s1) new_sms) (drop_limited api (st, s1)))"

section \<open>The guard as a scope\<close>

text \<open>
  The contract of a scope: what \<open>enter\<close> changed of the frame, \<open>leave\<close> undoes, provided that the
  code in between leaves the frame alone.
\<close>

locale scoped =
  fixes enter :: "'s \<Rightarrow> bool \<times> 's" and leave :: "bool \<Rightarrow> 's \<Rightarrow> 's" and frame :: "'s \<Rightarrow> 'f" and usable :: "'s \<Rightarrow> bool"
  assumes restores: "usable s \<Longrightarrow> enter s = (p, s1) \<Longrightarrow> frame s2 = frame s1 \<Longrightarrow> frame (leave p s2) = frame s"
begin

definition within :: "('s \<Rightarrow> 'r \<times> 's) \<Rightarrow> 's \<Rightarrow> 'r \<times> 's" where
  "within body s = (let (p, s1) = enter s; (r, s2) = body s1 in (r, leave p s2))"

lemma within_balanced:
  assumes "usable s" and "\<And>u. frame (snd (body u)) = frame u"
  shows "frame (snd (within body s)) = frame s"
proof -
  obtain p s1 where e: "enter s = (p, s1)" by (meson surj_pair)
  obtain r s2 where b: "body s1 = (r, s2)" by (meson surj_pair)
  have "frame s2 = frame s1" using assms(2) [of s1] b by simp
  from restores [OF assms(1) e this] show ?thesis by (simp add: within_def e b)
qed

end

definition guard_usable :: "cuda_api \<Rightarrow> Route option \<Rightarrow> 'a threaded \<Rightarrow> bool" where
  "guard_usable api r = (\<lambda>(st, s). limited_applied s \<longrightarrow> push_ok api (fst (guard_target r s)))"

lemma guard_target_fields [simp]:
  "limited_applied (snd (guard_target r s)) = limited_applied s" "ctx_unlimited (snd (guard_target r s)) = ctx_unlimited s"
  "ctx_limited (snd (guard_target r s)) = ctx_limited s" "live_ctxs (snd (guard_target r s)) = live_ctxs s"
  "route (snd (guard_target r s)) = route s" "reconf_gate (snd (guard_target r s)) = reconf_gate s"
  by (simp_all add: guard_target_def Let_def)

lemma guard_restores:
  assumes "guard_usable api r u" and "guard_enter api e r u = (p, u1)" and "fst u2 = fst u1"
  shows "fst (guard_exit e' p u2) = fst u"
proof -
  obtain st s where u: "u = (st, s)" by (cases u)
  obtain c s1 where g: "guard_target r s = (c, s1)" by (meson surj_pair)
  then have "limited_applied s1 = limited_applied s" using guard_target_fields(1) [of r s] by simp
  then show ?thesis using assms g unfolding u
    by (cases u1; cases u2)
       (auto simp: guard_enter_def guard_exit_def guard_usable_def cuCtxPushCurrent_def cuCtxPopCurrent_def split: if_splits)
qed

interpretation guard: scoped "guard_enter api e r" "guard_exit e'" fst "guard_usable api r" for api e r e'
  by unfold_locales (rule guard_restores)

definition with_guard :: "cuda_api \<Rightarrow> int \<times> int \<Rightarrow> ('a threaded \<Rightarrow> 'r \<times> 'a threaded) \<Rightarrow> 'a threaded \<Rightarrow> 'r \<times> 'a threaded" where
  "with_guard api es body u =
     (let (pushed, u1) = guard_enter api (fst es) None u; (r, u2) = body u1 in (r, guard_exit (snd es) pushed u2))"

lemma with_guard_within: "with_guard api es = guard.within api (fst es) None (snd es)"
  by (intro ext) (simp add: with_guard_def guard.within_def)

section \<open>Validity of the contexts\<close>

text \<open>What the driver promises: creation succeeds exactly when it stores a context, which is then new.\<close>

definition creates_fresh :: "ctx_create \<Rightarrow> bool" where
  "creates_fresh f \<longleftrightarrow> (\<forall>live aff. case f live aff of (rc, None) \<Rightarrow> rc \<noteq> 0 | (rc, Some c) \<Rightarrow> rc = 0 \<and> c \<notin> set live)"

definition api_ok :: "cuda_api \<Rightarrow> bool" where
  "api_ok api \<longleftrightarrow> (\<forall>f. cuCtxCreate_v4 api = Some f \<or> cuCtxCreate_v3 api = Some f \<longrightarrow> creates_fresh f) \<and> (\<forall>c. push_ok api (Some c))"

definition ctx_inv :: "'a ctx_state_scheme \<Rightarrow> bool" where
  "ctx_inv s \<longleftrightarrow> (limited_applied s \<longleftrightarrow> ctx_limited s \<noteq> None) \<and> (\<forall>c. ctx_limited s = Some c \<longrightarrow> c \<in> set (live_ctxs s)) \<and>
     (\<forall>c. ctx_unlimited s = Some c \<longrightarrow> c \<in> set (live_ctxs s)) \<and> (ctx_limited s \<noteq> None \<longrightarrow> ctx_limited s \<noteq> ctx_unlimited s) \<and>
     reconf_gate s = 0"

lemma create_cases:
  assumes "api_ok api" and "bless_ctx_create api aff old (st, s) = (rc, c, st1, s1)"
  obtains (failed) "rc \<noteq> 0" "c = old" "st1 = st" "s1 = s"
  | (created) n where "rc = 0" "c = Some n" "n \<notin> set (live_ctxs s)" "st1 = Some n # st" "s1 = s\<lparr>live_ctxs := n # live_ctxs s\<rparr>"
proof -
  define create where "create = (case cuCtxCreate_v4 api of Some f \<Rightarrow> Some f | None \<Rightarrow> cuCtxCreate_v3 api)"
  have fresh: "creates_fresh f" if "create = Some f" for f
    using that assms(1) by (auto simp: create_def api_ok_def split: option.splits)
  show ?thesis
  proof (cases create)
    case None
    then show ?thesis using assms(2) failed by (simp add: bless_ctx_create_def create_def [symmetric] CUDA_ERROR_NOT_SUPPORTED_def)
  next
    case (Some f)
    obtain rc' c' where f: "f (live_ctxs s) aff = (rc', c')" by (meson surj_pair)
    have "case f (live_ctxs s) aff of (rc, None) \<Rightarrow> rc \<noteq> 0 | (rc, Some c) \<Rightarrow> rc = 0 \<and> c \<notin> set (live_ctxs s)"
      using fresh [OF Some] unfolding creates_fresh_def by (elim allE)
    note fr = this [unfolded f prod.case]
    have e: "(rc, c, st1, s1) = (case c' of None \<Rightarrow> (rc', old, st, s) | Some k \<Rightarrow> (rc', Some k, Some k # st, s\<lparr>live_ctxs := k # live_ctxs s\<rparr>))"
      using assms(2) Some f by (simp add: bless_ctx_create_def create_def [symmetric])
    show ?thesis
    proof (cases c')
      case None
      then show ?thesis using e fr by (intro failed) simp_all
    next
      case (Some k)
      then show ?thesis using e fr by (intro created [of k]) simp_all
    qed
  qed
qed

lemma make_limited_fields:
  assumes "api_ok api" and "make_limited api n (st, s) = (st', s')"
  obtains (fallback) "s' = s\<lparr>ctx_limited := None, limited_applied := False, limited_sms := n, reconf_gate := 0\<rparr>" "st' = st"
  | (applied) c where "c \<notin> set (live_ctxs s)" "st' = Some c # st"
      "s' = s\<lparr>live_ctxs := c # live_ctxs s, ctx_limited := Some c, limited_applied := True, limited_sms := n, reconf_gate := 0\<rparr>"
proof -
  obtain rc c st1 s1 where b: "bless_ctx_create api (Some n) (ctx_limited s) (st, s) = (rc, c, st1, s1)" by (meson prod_cases4)
  have p: "push_ok api (Some k)" for k using assms(1) by (simp add: api_ok_def)
  from assms(1) b show ?thesis
  proof (cases rule: create_cases)
    case failed
    then show ?thesis using assms(2) b fallback by (simp add: make_limited_def)
  next
    case (created k)
    then have "st' = Some k # st"
      "s' = s\<lparr>live_ctxs := k # live_ctxs s, ctx_limited := Some k, limited_applied := True, limited_sms := n, reconf_gate := 0\<rparr>"
      using assms(2) b p by (simp_all add: make_limited_def cuCtxPushCurrent_def cuCtxPopCurrent_def)
    with created(3) show ?thesis by (rule applied)
  qed
qed

lemma make_limited_inv:
  assumes "api_ok api" and "make_limited api n (st, s) = (st', s')" and "\<forall>c. ctx_unlimited s = Some c \<longrightarrow> c \<in> set (live_ctxs s)"
  shows "ctx_inv s'"
  using assms(1,2)
proof (cases rule: make_limited_fields)
  case fallback
  then show ?thesis using assms(3) by (simp add: ctx_inv_def)
next
  case (applied c)
  then show ?thesis using assms(3) by (auto simp: ctx_inv_def)
qed

lemma drop_limited_unlimited:
  assumes "drop_limited api (st, s) = (st', s')" and "ctx_inv s"
  shows "ctx_unlimited s' = ctx_unlimited s \<and> total_sms s' = total_sms s \<and> (\<forall>c. ctx_unlimited s' = Some c \<longrightarrow> c \<in> set (live_ctxs s'))"
  using assms by (auto simp: drop_limited_def cuCtxDestroy_def ctx_inv_def Let_def split: option.splits)

lemma qmd_frame [simp]:
  "ctx_inv (reconf_qmd api env s) = ctx_inv s" "any_alloc (reconf_qmd api env s) = any_alloc s" "total_sms (reconf_qmd api env s) = total_sms s"
  "ctx_unlimited (reconf_qmd api env s) = ctx_unlimited s" "ctx_limited (reconf_qmd api env s) = ctx_limited s" "limited_sms (reconf_qmd api env s) = limited_sms s"
  "limited_applied (reconf_qmd api env s) = limited_applied s"
  by (simp_all add: reconf_qmd_def kraken_qmd_setup_def kraken_qmd_set_allowed_def ctx_inv_def Let_def split: prod.splits)

lemma cap_range: "1 \<le> m \<Longrightarrow> 1 \<le> cap_sms m n \<and> cap_sms m n \<le> m"
  by (auto simp: cap_sms_def)

lemma reconf_valid_lemma:
  assumes "api_ok api" and "ctx_inv s" and "1 \<le> total_sms s" and "reconf_limited_ctx api env n (st, s) = (st', s')"
  shows "ctx_inv s' \<and>
    (space_mode s = SPACE_MPS_ENV \<longrightarrow> ctx_limited s' = None \<and> st' = st) \<and>
    (space_mode s \<noteq> SPACE_MPS_ENV \<and> any_alloc s \<longrightarrow> ctx_limited s' = ctx_limited s \<and> limited_sms s' = limited_sms s \<and> st' = st) \<and>
    (space_mode s \<noteq> SPACE_MPS_ENV \<and> \<not> any_alloc s \<longrightarrow> 1 \<le> limited_sms s' \<and> limited_sms s' \<le> total_sms s)"
proof (cases "space_mode s = SPACE_MPS_ENV")
  case True
  then show ?thesis using assms(2,4) by (auto simp: reconf_limited_ctx_def ctx_inv_def)
next
  case mode: False
  define s1 where "s1 = (if space_mode s = SPACE_QMD then reconf_qmd api env s else s)"
  have f: "ctx_inv s1" "any_alloc s1 = any_alloc s" "total_sms s1 = total_sms s" "ctx_limited s1 = ctx_limited s" "limited_sms s1 = limited_sms s"
    using assms(2) by (simp_all add: s1_def)
  show ?thesis
  proof (cases "any_alloc s")
    case True
    then show ?thesis using assms(4) mode f by (auto simp: reconf_limited_ctx_def Let_def s1_def [symmetric])
  next
    case False
    obtain st2 s2 where d: "drop_limited api (st, s1) = (st2, s2)" by (meson surj_pair)
    let ?k = "cap_sms (total_sms s) n"
    have m: "make_limited api ?k (st2, s2) = (st', s')"
      using assms(4) mode False f d by (simp add: reconf_limited_ctx_def Let_def s1_def [symmetric])
    note u = drop_limited_unlimited [OF d f(1)]
    have "ctx_inv s'" using u by (intro make_limited_inv [OF assms(1) m]) simp
    moreover have "limited_sms s' = ?k" using assms(1) m by (cases rule: make_limited_fields) simp_all
    ultimately show ?thesis using mode False cap_range [OF assms(3), of n] by simp
  qed
qed

text \<open>
  The context handles stay valid across reconfigurations: the limit counts as applied exactly
  when there is a limited context, both contexts exist in the driver and differ, and the gate
  is open again on return, on every path: delegation to MPS, refusal after an allocation,
  failed creation, success. The SM count is forced into the range of the card.
\<close>

theorem reconf_keeps_contexts_valid:
  assumes "api_ok api" and "ctx_inv s" and "1 \<le> total_sms s" and "reconf_limited_ctx api env n (st, s) = (st', s')"
  shows "ctx_inv s' \<and>
    (space_mode s = SPACE_MPS_ENV \<longrightarrow> ctx_limited s' = None \<and> st' = st) \<and>
    (space_mode s \<noteq> SPACE_MPS_ENV \<and> any_alloc s \<longrightarrow> ctx_limited s' = ctx_limited s \<and> limited_sms s' = limited_sms s \<and> st' = st) \<and>
    (space_mode s \<noteq> SPACE_MPS_ENV \<and> \<not> any_alloc s \<longrightarrow> 1 \<le> limited_sms s' \<and> limited_sms s' \<le> total_sms s)"
  by (rule reconf_valid_lemma [OF assms])

lemma guard_context_lemma:
  fixes s s2 :: "'a ctx_state_scheme"
  assumes "api_ok api" and "ctx_inv s" and "ctx_unlimited s \<noteq> None" and "guard_enter api e None (st, s) = (pushed, st1, s1)"
  shows "current_ctx st1 = (if \<not> limited_applied s then current_ctx st
      else if route s = UNLIMITED then ctx_unlimited s else ctx_limited s) \<and>
    (\<not> limited_applied s \<longrightarrow> st1 = st) \<and> fst (guard_exit e' pushed (st1, s2)) = st"
proof -
  have p: "push_ok api (Some c)" for c using assms(1) by (simp add: api_ok_def)
  have l: "limited_applied s \<longrightarrow> ctx_limited s \<noteq> None" using assms(2) by (simp add: ctx_inv_def)
  have g: "limited_applied s \<Longrightarrow> guard_target None s = (if route s = UNLIMITED then ctx_unlimited s else ctx_limited s, s)"
    using l assms(3) by (auto simp: guard_target_def)
  then have "guard_usable api None (st, s)" using p l assms(3) by (auto simp: guard_usable_def)
  from guard.restores [OF this assms(4), of "(st1, s2)" e'] have r: "fst (guard_exit e' pushed (st1, s2)) = st" by simp
  have a: "limited_applied (snd (guard_target None s)) = limited_applied s" by simp
  show ?thesis
  proof (cases "limited_applied s")
    case True
    have "current_ctx st1 = (if route s = UNLIMITED then ctx_unlimited s else ctx_limited s)"
      using assms(3,4) True l p by (auto simp: guard_enter_def g [OF True] cuCtxPushCurrent_def current_ctx_def split: if_splits)
    with True r show ?thesis by simp
  next
    case False
    obtain c s0 where t: "guard_target None s = (c, s0)" by (meson surj_pair)
    then have "st1 = st" using assms(4) a False by (simp add: guard_enter_def)
    with False r show ?thesis by simp
  qed
qed

text \<open>
  The guard runs a call in the context of the route and puts the thread back: inside the guard
  the current context is the one of the route whenever a limit is applied, and the caller's
  own one otherwise, so that streams made by the application stay valid; afterwards the
  context stack is what it was.
\<close>

theorem guard_runs_in_route_context:
  fixes s s2 :: "'a ctx_state_scheme"
  assumes "api_ok api" and "ctx_inv s" and "ctx_unlimited s \<noteq> None" and "guard_enter api e None (st, s) = (pushed, st1, s1)"
  shows "current_ctx st1 = (if \<not> limited_applied s then current_ctx st
      else if route s = UNLIMITED then ctx_unlimited s else ctx_limited s) \<and>
    (\<not> limited_applied s \<longrightarrow> st1 = st) \<and> fst (guard_exit e' pushed (st1, s2)) = st"
  by (rule guard_context_lemma [OF assms])

section \<open>Flaws\<close>

lemma make_drop_masks: "make_limited api k (drop_limited api (st, s)) = (st', s') \<Longrightarrow> qmd_masks s' = qmd_masks s"
  by (auto simp: make_limited_def drop_limited_def cuCtxDestroy_def bless_ctx_create_def qmd_masks_def Let_def
      split: option.splits prod.splits if_splits)

text \<open>
  In QMD mode the requested size is ignored: the masks are set from the environment whatever
  \<open>reconf_sm\<close> or \<open>set_limit_pct\<close> asked for, and the function then goes on to create a context
  with an SM affinity as in the default mode, so that both limits apply at once.
\<close>

theorem qmd_reconf_ignores_request:
  assumes "space_mode s = SPACE_QMD" and "reconf_limited_ctx api env n (st, s) = (st', s')"
  shows "qmd_masks s' = qmd_masks (reconf_qmd api env s) \<and>
    (\<not> any_alloc s \<longrightarrow> (\<exists>k. (st', s') = make_limited api k (drop_limited api (st, reconf_qmd api env s))))"
proof (cases "any_alloc s")
  case False
  then obtain k where k: "make_limited api k (drop_limited api (st, reconf_qmd api env s)) = (st', s')"
    using assms by (auto simp: reconf_limited_ctx_def Let_def)
  from make_drop_masks [OF this] k show ?thesis by (metis (no_types))
qed (use assms in \<open>simp add: reconf_limited_ctx_def\<close>)

text \<open>
  Without a limited context the attachment is not balanced: when the driver refuses to push the
  null context, the following pop removes the context that the calling thread had current.
\<close>

theorem attach_drops_callers_context:
  assumes "\<not> rt_attached s" and "ctx_limited s = None" and "\<not> push_ok api None" and "ctx_unlimited s = Some c" and "push_ok api (Some c)"
  shows "fst (attach_runtime_if_needed api (x # st, s)) = st"
  using assms by (simp add: attach_runtime_if_needed_def cuCtxPushCurrent_def cuCtxPopCurrent_def)

section \<open>Instances\<close>

definition sample_create :: ctx_create where
  "sample_create live aff = (0, Some (Suc (sum_list live)))"

definition sample_api :: cuda_api where
  "sample_api = \<lparr>cuCtxCreate_v4 = Some sample_create, cuCtxCreate_v3 = None, push_ok = (\<lambda>c. c \<noteq> None),
     exec_affinity = (\<lambda>_. None), qmd_table = \<lparr>export_table = True, subscribe_rc = 0, enable_rc = 0\<rparr>\<rparr>"

lemma member_le_sum: "c \<in> set xs \<Longrightarrow> c \<le> sum_list (xs :: nat list)"
  by (induction xs) auto

lemma sample_api_ok: "api_ok sample_api"
  using member_le_sum by (auto simp: api_ok_def creates_fresh_def sample_api_def sample_create_def Suc_le_eq [symmetric] not_less_eq_eq dest!: member_le_sum)

definition sample_ctx :: "SpaceMode \<Rightarrow> ctx \<Rightarrow> ctx_state" where
  "sample_ctx m c = qmd_state.extend sample_qmd \<lparr>route = LIMITED, ctx_limited = c, ctx_unlimited = Some 1, total_sms = 188,
     limited_sms = 94, limited_applied = (c \<noteq> None), requested_pct = 50, space_mode = m, fallback_launches = 0, reconf_gate = 0,
     ctx_switch_count = 0, ctx_switch_total_us = 0, ctx_switch_avg_us = 0, ctx_switch_max_us = 0, rt_attached = False, live_ctxs = [2, 1]\<rparr>"

lemma sample_ctx_fields [simp]:
  "route (sample_ctx m c) = LIMITED" "ctx_limited (sample_ctx m c) = c" "ctx_unlimited (sample_ctx m c) = Some 1"
  "total_sms (sample_ctx m c) = 188" "limited_applied (sample_ctx m c) = (c \<noteq> None)" "space_mode (sample_ctx m c) = m"
  "reconf_gate (sample_ctx m c) = 0" "\<not> rt_attached (sample_ctx m c)" "live_ctxs (sample_ctx m c) = [2, 1]" "\<not> any_alloc (sample_ctx m c)"
  by (simp_all add: sample_ctx_def qmd_state.defs sample_qmd_def mem_state.defs sample_mem_def time_state.defs sample_time_def)

theorem reconf_keeps_contexts_valid_witness:
  "ctx_inv (snd (reconf_limited_ctx sample_api (\<lambda>_. None) 500 ([], sample_ctx SPACE_CTX (Some 2)))) \<and>
   limited_sms (snd (reconf_limited_ctx sample_api (\<lambda>_. None) 500 ([], sample_ctx SPACE_CTX (Some 2)))) \<le> 188"
proof -
  obtain st' s' where r: "reconf_limited_ctx sample_api (\<lambda>_. None) 500 ([], sample_ctx SPACE_CTX (Some 2)) = (st', s')" by (meson surj_pair)
  from reconf_keeps_contexts_valid [OF sample_api_ok _ _ r] show ?thesis by (simp add: r ctx_inv_def)
qed

theorem guard_runs_in_route_context_witness:
  "current_ctx (fst (snd (guard_enter sample_api 3 None ([Some 7], sample_ctx SPACE_CTX (Some 2))))) = Some 2"
proof -
  obtain p st1 s1 where r: "guard_enter sample_api 3 None ([Some 7], sample_ctx SPACE_CTX (Some 2)) = (p, st1, s1)" by (meson prod_cases3)
  from guard_runs_in_route_context [OF sample_api_ok _ _ r, of 0 s1] show ?thesis by (simp add: r ctx_inv_def)
qed

theorem qmd_reconf_ignores_request_witness:
  "qmd_masks (snd (reconf_limited_ctx sample_api (\<lambda>_. None) 188 ([], sample_ctx SPACE_QMD None))) =
   qmd_masks (reconf_qmd sample_api (\<lambda>_. None) (sample_ctx SPACE_QMD None))"
proof -
  obtain st' s' where r: "reconf_limited_ctx sample_api (\<lambda>_. None) 188 ([], sample_ctx SPACE_QMD None) = (st', s')" by (meson surj_pair)
  from qmd_reconf_ignores_request [OF _ r] show ?thesis by (simp add: r)
qed

theorem attach_drops_callers_context_witness:
  "fst (attach_runtime_if_needed sample_api ([Some 7, Some 8], sample_ctx SPACE_MPS_ENV None)) = [Some 8]"
  by (rule attach_drops_callers_context) (simp_all add: sample_api_def)

end
