(* ===== verification/BlessInit.thy ===== *)
theory BlessInit
  imports BlessCtx Float32
begin

text \<open>
  \<open>libbless.cpp\<close>, the rest of the state and the initialisation (\<open>ensure_init\<close>): the environment
  variables, the choice of the space mode, the contexts and the start of the control server.
  Messages to the master, the lines of the statistics file and the class file are kept as
  values; log output on \<open>stderr\<close> is left out.
\<close>

section \<open>State\<close>

record bless_state = ctx_state +
  inited :: bool
  squad_size :: int
  squad_prog :: int
  kernel_seq :: int
  share_quota :: int
  sd_sent :: int
  master_fd :: int
  master_path :: string
  tenant_id :: string
  master_sent :: "string list"
  sock_path :: string
  ctrl_running :: bool
  stats_log :: "string list option"
  class_file :: "(string \<times> string) option"
  ioctl_count :: int
  ioctl_nvidia_count :: int
  mmap_count :: int
  mmap_gpu_count :: int
  mmap_total_bytes :: int
  syscall_intercept_enabled :: bool

text \<open>
  What the process sees of its host: the environment, the content of
  \<open>/proc/driver/nvidia/version\<close>, the process number, the SM count of the device, the result of
  \<open>socket\<close> for the master, and which files can be opened.
\<close>

record host =
  getenv :: "string \<Rightarrow> string option"
  proc_version :: "string option"
  getpid :: nat
  device_sms :: int
  master_socket :: int
  can_open :: "string \<Rightarrow> bool"
  cuda :: cuda_api

type_synonym 'a proc = "ctx list \<times> 'a bless_state_scheme"

section \<open>Printing\<close>

text \<open>\<open>%d\<close> and \<open>%lld\<close>, and \<open>snprintf\<close> into a buffer of \<open>n\<close> bytes.\<close>

definition dec_int :: "int \<Rightarrow> string" where
  "dec_int i = (if i < 0 then CHR ''-'' # dec (nat (- i)) else dec (nat i))"

definition snprintf_buf :: "nat \<Rightarrow> string \<Rightarrow> string" where
  "snprintf_buf n s = take (n - 1) s"

section \<open>The master\<close>

definition master_send :: "string \<Rightarrow> 'a bless_state_scheme \<Rightarrow> 'a bless_state_scheme" where
  "master_send msg s = (if master_fd s < 0 \<or> master_path s = [] then s else s\<lparr>master_sent := master_sent s @ [msg]\<rparr>)"

section \<open>Space mode\<close>

definition KRAKEN_QMD_DRIVER_VERIFIED :: string where "KRAKEN_QMD_DRIVER_VERIFIED = ''590.48.01''"

text \<open>\<open>fgets\<close> of the first line, \<open>strstr\<close> and \<open>sscanf("%63s")\<close>.\<close>

definition proc_driver :: "string option \<Rightarrow> string" where
  "proc_driver f = (case f of None \<Rightarrow> [] | Some txt \<Rightarrow>
     let line = take 255 (takeWhile (\<lambda>c. c \<noteq> CHR 0x0A) txt) in
     case strstr line ''Module  '' of None \<Rightarrow> []
     | Some p1 \<Rightarrow> take 63 (takeWhile (\<lambda>c. \<not> is_space c) (dropWhile is_space (drop 8 p1))))"

definition qmd_driver_version :: "host \<Rightarrow> string" where
  "qmd_driver_version h = (case getenv h ''BLESS_QMD_DRIVER'' of Some dv \<Rightarrow> snprintf_buf 64 dv | None \<Rightarrow> proc_driver (proc_version h))"

definition init_space_mode :: "host \<Rightarrow> 'a bless_state_scheme \<Rightarrow> 'a bless_state_scheme" where
  "init_space_mode h s = (case getenv h ''BLESS_SPACE_MODE'' of None \<Rightarrow> s
     | Some m \<Rightarrow>
         if m = ''mps_env'' then s\<lparr>space_mode := SPACE_MPS_ENV\<rparr>
         else if m = ''qmd''
         then let drv = qmd_driver_version h in
           if drv = [] then (if env_flag (getenv h) ''BLESS_QMD_FORCE'' then s\<lparr>space_mode := SPACE_QMD\<rparr> else s)
           else if drv \<noteq> KRAKEN_QMD_DRIVER_VERIFIED then s
           else s\<lparr>space_mode := SPACE_QMD\<rparr>
         else s)"

section \<open>Percentages\<close>

text \<open>\<open>(int)(total_sms * (pct/100.0f))\<close>, at least 1.\<close>

definition pct_sms :: "int \<Rightarrow> int \<Rightarrow> int" where
  "pct_sms sms pct =
     (let n = f32_to_i32 (f32_mul (f32_of_int sms) (f32_div (f32_of_int pct) (f32_of_int 100))) in if n < 1 then 1 else n)"

section \<open>Initialisation\<close>

text \<open>\<open>KRAKEN_PRIORITY\<close>, compared without case.\<close>

definition env_priority :: "string \<Rightarrow> Priority option" where
  "env_priority pr =
     (if strcasecmp_eq pr ''high'' then Some URGENT
      else if strcasecmp_eq pr ''med'' \<or> strcasecmp_eq pr ''medium'' \<or> strcasecmp_eq pr ''normal'' then Some NORMAL
      else if strcasecmp_eq pr ''low'' then Some BACKGROUND else None)"

definition init_priority :: "host \<Rightarrow> 'a bless_state_scheme \<Rightarrow> 'a bless_state_scheme" where
  "init_priority h s = (case getenv h ''KRAKEN_PRIORITY'' of None \<Rightarrow> s
     | Some pr \<Rightarrow> (case env_priority pr of Some p \<Rightarrow> s\<lparr>current_priority := p\<rparr> | None \<Rightarrow> s))"

definition init_class_file :: "host \<Rightarrow> 'a bless_state_scheme \<Rightarrow> 'a bless_state_scheme" where
  "init_class_file h s = (case getenv h ''BLESS_CLASS_LOG'' of None \<Rightarrow> s
     | Some cl \<Rightarrow>
         (case getenv h ''KRAKEN_WORKLOAD_CLASS'' of None \<Rightarrow> s
          | Some wc \<Rightarrow> if cl \<noteq> [] \<and> wc \<noteq> [] \<and> can_open h cl then s\<lparr>class_file := Some (cl, wc @ [CHR 0x0A])\<rparr> else s))"

definition init_master :: "host \<Rightarrow> 'a bless_state_scheme \<Rightarrow> 'a bless_state_scheme" where
  "init_master h s = (case getenv h ''BLESS_MASTER'' of None \<Rightarrow> s
     | Some mp \<Rightarrow>
         let s1 = s\<lparr>master_path := mp, master_fd := master_socket h\<rparr> in
         if master_fd s1 \<ge> 0
         then let t = (case getenv h ''BLESS_TENANT'' of Some t \<Rightarrow> t | None \<Rightarrow> []); s2 = s1\<lparr>tenant_id := t\<rparr>
              in master_send (snprintf_buf 256 (''HELLO pid='' @ dec (getpid h) @ '' sock='' @ sock_path s2 @ '' tenant='' @ t)) s2
         else s1)"

definition init_mem_quota :: "host \<Rightarrow> 'a bless_state_scheme \<Rightarrow> 'a bless_state_scheme" where
  "init_mem_quota h s = (case getenv h ''BLESS_MEM_QUOTA_MB'' of None \<Rightarrow> s
     | Some q \<Rightarrow> let mb = atoll q in if mb > 0 then s\<lparr>mem_quota_bytes := wrap64 (mb * 1024 * 1024)\<rparr> else s)"

definition init_stats_log :: "host \<Rightarrow> 'a bless_state_scheme \<Rightarrow> 'a bless_state_scheme" where
  "init_stats_log h s = (case getenv h ''BLESS_STATS_LOG'' of None \<Rightarrow> s
     | Some sl \<Rightarrow> if sl \<noteq> [] then s\<lparr>stats_log := (if can_open h sl then Some [] else None)\<rparr> else s)"

definition init_flags :: "host \<Rightarrow> 'a bless_state_scheme \<Rightarrow> 'a bless_state_scheme" where
  "init_flags h s =
     (let s1 = (if env_flag (getenv h) ''BLESS_TIME_WC'' then s\<lparr>wc_on := True\<rparr> else s)
      in if env_flag (getenv h) ''BLESS_GATE_METRICS'' then s1\<lparr>gate_metrics_on := True\<rparr> else s1)"

text \<open>The context that is created first, and the read of its affinity.\<close>

definition init_unlimited :: "host \<Rightarrow> 'a proc \<Rightarrow> 'a proc" where
  "init_unlimited h = (\<lambda>(st, s).
     let (rc, c, st1, s1) = bless_ctx_create (cuda h) None (ctx_unlimited s) (st, s);
         s2 = s1\<lparr>ctx_unlimited := c\<rparr>
     in (cuCtxPopCurrent (cuCtxPushCurrent (cuda h) c st1), s2))"

definition ensure_init :: "host \<Rightarrow> 'a proc \<Rightarrow> 'a proc" where
  "ensure_init h = (\<lambda>(st, s).
     if inited s then (st, s)
     else let s1 = init_space_mode h (s\<lparr>total_sms := device_sms h\<rparr>);
              pct = env_limit_pct 99 (getenv h);
              init_sms = pct_sms (total_sms s1) pct;
              s2 = s1\<lparr>requested_pct := pct, limited_sms := init_sms\<rparr>;
              (st3, s3) = init_unlimited h (st, s2);
              (st4, s4) = reconf_limited_ctx (cuda h) (getenv h) init_sms (st3, s3);
              s5 = init_priority h (init_class_file h s4);
              s6 = s5\<lparr>sock_path := snprintf_buf 128 (''/tmp/bless-'' @ dec (getpid h) @ ''.sock''), ctrl_running := True\<rparr>;
              (st7, s7) = attach_runtime_if_needed (cuda h) (st4, s6);
              s8 = init_flags h (init_stats_log h (init_mem_quota h (init_master h s7)))
          in (st7, s8\<lparr>inited := True\<rparr>))"

section \<open>Accuracy of the SM count\<close>

lemma rnd32_between:
  assumes "2 powi (-126) \<le> x"
  shows "x * (1 - u32) \<le> rnd32 x" and "rnd32 x \<le> x * (1 + u32)"
proof -
  have "0 < x" using assms by (rule less_le_trans [rotated]) simp
  then show "x * (1 - u32) \<le> rnd32 x" "rnd32 x \<le> x * (1 + u32)"
    using rnd32_rel_error [of x] assms by (simp_all add: algebra_simps abs_if split: if_splits)
qed

lemma powi_small: "(2 :: rat) powi (-126) \<le> 1 / 200"
proof -
  have "(200 :: rat) \<le> 2 ^ 8" by simp
  also have "\<dots> \<le> 2 ^ 126" by (rule power_increasing) simp_all
  finally show ?thesis by (simp add: power_int_minus field_simps)
qed

lemma rnd32_of_int_exact:
  assumes "1 \<le> n" and "n < 16777216"
  shows "rnd32 (of_int n) = of_int n"
proof -
  let ?x = "of_int n :: rat" and ?e = "ilog2 (of_int n)"
  have x: "0 < ?x" "1 \<le> ?x" "?x < 2 powi 24" using assms by (simp_all add: power_int_def)
  have mono: "a \<le> b \<Longrightarrow> (2 :: rat) powi a \<le> 2 powi b" for a b by (intro power_int_increasing) simp_all
  have e1: "?e < 24" using ilog2_bounds(1) [OF x(1)] x(3) mono [of 24 ?e] by linarith
  have e2: "0 \<le> ?e" using ilog2_bounds(2) [OF x(1)] x(2) mono [of "?e + 1" 0] by fastforce
  define k where "k = nat (23 - ?e)"
  have k: "?e - 23 = - int k" using e1 by (simp add: k_def)
  have "ulp32 ?x = 2 powi (?e - 23)" using x(1) e2 by (simp add: ulp32_def max_def)
  then have u: "ulp32 ?x = 1 / 2 ^ k" by (simp only: k power_int_minus) (simp add: field_simps)
  have "?x / ulp32 ?x = of_int (n * 2 ^ k)" by (simp add: u)
  then have "rne (?x / ulp32 ?x) = n * 2 ^ k" by (simp only: rne_of_int)
  then show ?thesis using x(1) by (simp add: rnd32_def u)
qed

lemma f32_of_int_exact: "1 \<le> n \<Longrightarrow> n < 16777216 \<Longrightarrow> f32_of_int n = Fin (of_int n)"
proof -
  assume n: "1 \<le> n" "n < 16777216"
  then have "\<bar>of_int n :: rat\<bar> < 2 ^ 128" by simp
  then show ?thesis using n by (simp add: f32_of_int_def mk32_Fin rnd32_of_int_exact)
qed

lemma mk32_moderate: "0 \<le> x \<Longrightarrow> 2 powi (-126) \<le> x \<Longrightarrow> x \<le> 16777216 \<Longrightarrow> mk32 x = Fin (rnd32 x)"
proof -
  assume x: "0 \<le> x" "2 powi (-126) \<le> x" "x \<le> 16777216"
  have "rnd32 x \<le> x * (1 + u32)" by (rule rnd32_between [OF x(2)])
  also have "\<dots> < 2 ^ 128" using x by simp
  finally show ?thesis using rnd32_nonneg [OF x(1)] by (intro mk32_Fin) simp
qed

lemma max_bounds: "f \<le> U \<Longrightarrow> L - 1 < f \<Longrightarrow> max 1 f \<le> max 1 U \<and> L - 1 < max 1 (f :: rat)"
  by auto

lemma pct_sms_lemma:
  assumes "1 \<le> sms" and "sms < 16777216" and "1 \<le> pct" and "pct \<le> 99"
  shows "1 \<le> pct_sms sms pct \<and> pct_sms sms pct \<le> sms \<and>
    of_int (pct_sms sms pct) \<le> max 1 (of_int (sms * pct) / 100 * (1 + 1 / 2 ^ 22) :: rat) \<and>
    of_int (sms * pct) / 100 * (1 - 1 / 2 ^ 22) - 1 < (of_int (pct_sms sms pct) :: rat)"
proof -
  let ?r = "of_int pct / 100 :: rat"
  have p: "(1 :: rat) \<le> of_int pct" "(of_int pct :: rat) \<le> 99" and m: "(1 :: rat) \<le> of_int sms" "(of_int sms :: rat) < 16777216"
    using assms by simp_all
  define q where "q = rnd32 ?r"
  define y where "y = rnd32 (of_int sms * q)"
  have r: "2 powi (-126) \<le> ?r" using p powi_small by simp
  note qb = rnd32_between [OF r, folded q_def]
  have q1: "1 / 200 \<le> q" "q < 1" using qb p by (simp_all add: field_simps)
  have v: "2 powi (-126) \<le> of_int sms * q"
  proof -
    have "1 * (1 / 200) \<le> of_int sms * q" using m q1 by (intro mult_mono) simp_all
    then show ?thesis using powi_small by simp
  qed
  note yb = rnd32_between [OF v, folded y_def]
  have sq: "of_int sms * q \<le> of_int sms * 1" using m q1 by (intro mult_left_mono) simp_all
  have f: "f32_div (f32_of_int pct) (f32_of_int 100) = Fin q"
    using assms r p by (simp add: f32_of_int_exact mk32_moderate q_def)
  then have fm: "f32_mul (f32_of_int sms) (f32_div (f32_of_int pct) (f32_of_int 100)) = Fin y"
    using assms mk32_moderate [of "of_int sms * q"] v sq m q1 by (simp add: f32_of_int_exact y_def)
  let ?e = "of_int sms * ?r"
  have e: "of_int (sms * pct) / 100 = ?e" by simp
  have up: "y \<le> ?e * (1 + 1 / 2 ^ 22)"
  proof -
    have "of_int sms * q \<le> of_int sms * (?r * (1 + u32))" using qb(2) m by (intro mult_left_mono) simp_all
    then have "of_int sms * q * (1 + u32) \<le> of_int sms * (?r * (1 + u32)) * (1 + u32)" by (intro mult_right_mono) simp_all
    then have "y \<le> of_int sms * (?r * (1 + u32)) * (1 + u32)" using yb(2) by linarith
    also have "\<dots> = ?e * ((1 + u32) * (1 + u32))" by simp
    also have "\<dots> \<le> ?e * (1 + 1 / 2 ^ 22)" using p m by (intro mult_left_mono) simp_all
    finally show ?thesis .
  qed
  have lo: "?e * (1 - 1 / 2 ^ 22) \<le> y"
  proof -
    have "?e * (1 - 1 / 2 ^ 22) \<le> ?e * ((1 - u32) * (1 - u32))" using p m by (intro mult_left_mono) simp_all
    also have "\<dots> = of_int sms * (?r * (1 - u32)) * (1 - u32)" by simp
    also have "\<dots> \<le> of_int sms * q * (1 - u32)" using qb(1) m by (intro mult_right_mono mult_left_mono) simp_all
    finally show ?thesis using yb(1) by (rule order.trans)
  qed
  have "?e * (1 + 1 / 2 ^ 22) \<le> of_int sms * (99 / 100) * (1 + 1 / 2 ^ 22)" using p m by (intro mult_right_mono mult_left_mono) simp_all
  also have "\<dots> < of_int sms" using m by simp
  finally have y1: "y < of_int sms" using up by linarith
  have y0: "0 \<le> y" unfolding y_def using m q1 by (intro rnd32_nonneg) simp
  have fl: "of_int \<lfloor>y\<rfloor> \<le> y" "y < of_int \<lfloor>y\<rfloor> + 1" by linarith+
  then have l1: "\<lfloor>y\<rfloor> \<le> sms" using y1 by linarith
  have "in_i32 \<lfloor>y\<rfloor>" using l1 y0 assms(2) by (simp add: in_i32_def) linarith
  then have d: "pct_sms sms pct = max 1 \<lfloor>y\<rfloor>" using y0 unfolding pct_sms_def fm by (auto simp: trunc_def Let_def)
  have "of_int \<lfloor>y\<rfloor> \<le> ?e * (1 + 1 / 2 ^ 22)" using fl(1) up by (rule order.trans)
  moreover have "?e * (1 - 1 / 2 ^ 22) - 1 < of_int \<lfloor>y\<rfloor>" using fl(2) lo by linarith
  ultimately have b: "max 1 (of_int \<lfloor>y\<rfloor>) \<le> max 1 (?e * (1 + 1 / 2 ^ 22)) \<and> ?e * (1 - 1 / 2 ^ 22) - 1 < max 1 (of_int \<lfloor>y\<rfloor> :: rat)"
    by (rule max_bounds)
  have c: "1 \<le> max 1 \<lfloor>y\<rfloor> \<and> max 1 \<lfloor>y\<rfloor> \<le> sms" using l1 assms(1) by simp
  have mx: "of_int (max 1 \<lfloor>y\<rfloor>) = max 1 (of_int \<lfloor>y\<rfloor> :: rat)" by (simp add: max_def)
  show ?thesis unfolding e d mx using b c by blast
qed

text \<open>
  C29. The SM count of a percentage is accurate although it is computed in single precision: for
  every card and every percentage from 1 to 99 the result lies between 1 and the SM count of
  the card, exceeds the exact share by at most one part in four million, and falls short of
  it by less than one SM and that rounding error.
\<close>

theorem pct_sms_accurate:
  assumes "1 \<le> sms" and "sms < 16777216" and "1 \<le> pct" and "pct \<le> 99"
  shows "1 \<le> pct_sms sms pct \<and> pct_sms sms pct \<le> sms \<and>
    of_int (pct_sms sms pct) \<le> max 1 (of_int (sms * pct) / 100 * (1 + 1 / 2 ^ 22) :: rat) \<and>
    of_int (sms * pct) / 100 * (1 - 1 / 2 ^ 22) - 1 < (of_int (pct_sms sms pct) :: rat)"
  by (rule pct_sms_lemma [OF assms])

theorem pct_sms_accurate_witness:
  "1 \<le> pct_sms 188 29 \<and> pct_sms 188 29 \<le> 188"
  using pct_sms_accurate [of 188 29] by simp

section \<open>Initialisation\<close>

text \<open>The part of the state that the contexts are made of.\<close>

definition ctx_view :: "'a ctx_state_scheme \<Rightarrow> bool \<times> ctx \<times> ctx \<times> nat list \<times> int \<times> int \<times> int" where
  "ctx_view s = (limited_applied s, ctx_limited s, ctx_unlimited s, live_ctxs s, reconf_gate s, limited_sms s, total_sms s)"

lemma ctx_view_inv: "ctx_view s = ctx_view t \<Longrightarrow> ctx_inv s = ctx_inv t \<and> limited_sms s = limited_sms t \<and> total_sms s = total_sms t"
  by (simp add: ctx_view_def ctx_inv_def)

lemma init_views [simp]:
  "ctx_view (init_space_mode h s) = ctx_view s" "ctx_view (init_priority h s) = ctx_view s"
  "ctx_view (init_class_file h s) = ctx_view s" "ctx_view (init_master h s) = ctx_view s" "ctx_view (init_mem_quota h s) = ctx_view s"
  "ctx_view (init_stats_log h s) = ctx_view s" "ctx_view (init_flags h s) = ctx_view s"
  "ctx_view (s\<lparr>inited := b\<rparr>) = ctx_view s" "ctx_view (s\<lparr>sock_path := p, ctrl_running := b\<rparr>) = ctx_view s"
  by (simp_all add: ctx_view_def init_space_mode_def init_priority_def init_class_file_def init_master_def master_send_def
      init_mem_quota_def init_stats_log_def init_flags_def Let_def split: option.splits)

lemma attach_view [simp]: "ctx_view (snd (attach_runtime_if_needed api (st, s))) = ctx_view s"
  by (simp add: attach_runtime_if_needed_def ctx_view_def Let_def)

lemma init_mode_frame [simp]:
  "space_mode (init_priority h s) = space_mode s" "space_mode (init_class_file h s) = space_mode s" "space_mode (init_master h s) = space_mode s"
  "space_mode (init_mem_quota h s) = space_mode s" "space_mode (init_stats_log h s) = space_mode s" "space_mode (init_flags h s) = space_mode s"
  "space_mode (snd (attach_runtime_if_needed api (st, t))) = space_mode t"
  by (simp_all add: init_priority_def init_class_file_def init_master_def master_send_def init_mem_quota_def init_stats_log_def
      init_flags_def attach_runtime_if_needed_def Let_def split: option.splits)

lemma create_mode: "bless_ctx_create api aff old (st, s) = (rc, c, st1, s1) \<Longrightarrow> space_mode s1 = space_mode s"
  by (auto simp: bless_ctx_create_def Let_def split: option.splits prod.splits)

lemma make_limited_mode: "make_limited api n (st, s) = (st', s') \<Longrightarrow> space_mode s' = space_mode s"
  by (auto simp: make_limited_def dest: create_mode split: prod.splits if_splits)

lemma drop_limited_mode: "drop_limited api (st, s) = (st', s') \<Longrightarrow> space_mode s' = space_mode s"
  by (auto simp: drop_limited_def cuCtxDestroy_def Let_def split: option.splits)

lemma reconf_qmd_mode [simp]: "space_mode (reconf_qmd api env s) = space_mode s"
  by (simp add: reconf_qmd_def kraken_qmd_setup_def kraken_qmd_set_allowed_def Let_def split: prod.splits)

lemma reconf_mode: "reconf_limited_ctx api env n (st, s) = (st', s') \<Longrightarrow> space_mode s' = space_mode s"
proof -
  assume r: "reconf_limited_ctx api env n (st, s) = (st', s')"
  let ?s1 = "if space_mode s = SPACE_QMD then reconf_qmd api env s else s"
  obtain st2 s2 where d: "drop_limited api (st, ?s1) = (st2, s2)" by (meson surj_pair)
  have "space_mode s2 = space_mode s" using drop_limited_mode [OF d] by (simp split: if_splits)
  then show ?thesis using r d make_limited_mode by (fastforce simp: reconf_limited_ctx_def Let_def split: if_splits)
qed

lemma init_started [simp]:
  "rt_attached (snd (attach_runtime_if_needed api (st, s)))" "ctrl_running (snd (attach_runtime_if_needed api (st, t))) = ctrl_running t"
  "rt_attached (init_master h t) = rt_attached t" "rt_attached (init_mem_quota h t) = rt_attached t"
  "rt_attached (init_stats_log h t) = rt_attached t" "rt_attached (init_flags h t) = rt_attached t"
  "ctrl_running (init_master h t) = ctrl_running t" "ctrl_running (init_mem_quota h t) = ctrl_running t"
  "ctrl_running (init_stats_log h t) = ctrl_running t" "ctrl_running (init_flags h t) = ctrl_running t"
  by (simp_all add: attach_runtime_if_needed_def init_master_def master_send_def init_mem_quota_def init_stats_log_def init_flags_def
      Let_def split: option.splits)

lemma init_space_any_alloc [simp]: "any_alloc (init_space_mode h s) = any_alloc s"
  by (simp add: init_space_mode_def Let_def split: option.splits)

lemma reconf_qmd_live: "live_ctxs (reconf_qmd api env s) = live_ctxs s"
  by (simp add: reconf_qmd_def kraken_qmd_setup_def kraken_qmd_set_allowed_def Let_def split: prod.splits)

text \<open>
  What the driver's entry point stores when it is asked for a context of \<open>aff\<close> SMs (of all of
  them for \<open>None\<close>): nothing when there is no entry point or the creation fails.
\<close>

definition driver_creates :: "cuda_api \<Rightarrow> nat list \<Rightarrow> int option \<Rightarrow> ctx" where
  "driver_creates api live aff = (case cuCtxCreate_v4 api of Some f \<Rightarrow> snd (f live aff)
     | None \<Rightarrow> (case cuCtxCreate_v3 api of Some f \<Rightarrow> snd (f live aff) | None \<Rightarrow> None))"

definition add_ctx :: "ctx \<Rightarrow> nat list \<Rightarrow> nat list" where
  "add_ctx c live = (case c of None \<Rightarrow> live | Some n \<Rightarrow> n # live)"

lemma create_driver:
  assumes "bless_ctx_create api aff None (st, s) = (rc, c, st1, s1)"
  shows "c = driver_creates api (live_ctxs s) aff"
  using assms by (auto simp: bless_ctx_create_def driver_creates_def Let_def split: option.splits prod.splits)

lemma init_unlimited_creates:
  assumes "api_ok (cuda h)" and "init_unlimited h (st, s) = (st', s')" and "ctx_unlimited s = None"
  shows "ctx_unlimited s' = driver_creates (cuda h) (live_ctxs s) None \<and> live_ctxs s' = add_ctx (ctx_unlimited s') (live_ctxs s) \<and>
    s' = s\<lparr>ctx_unlimited := ctx_unlimited s', live_ctxs := live_ctxs s'\<rparr>"
proof -
  obtain rc c st1 s1 where b: "bless_ctx_create (cuda h) None (ctx_unlimited s) (st, s) = (rc, c, st1, s1)" by (meson prod_cases4)
  then have c: "c = driver_creates (cuda h) (live_ctxs s) None" using create_driver assms(3) by metis
  have s': "s' = s1\<lparr>ctx_unlimited := c\<rparr>" using assms(2) b by (simp add: init_unlimited_def)
  from assms(1) b show ?thesis
    by (cases rule: create_cases) (use s' c assms(3) in \<open>simp_all add: add_ctx_def\<close>)
qed

lemma make_limited_creates:
  assumes "api_ok api" and "make_limited api n (st, s) = (st', s')" and "ctx_limited s = None"
  shows "ctx_limited s' = driver_creates api (live_ctxs s) (Some n) \<and> (limited_applied s' \<longleftrightarrow> ctx_limited s' \<noteq> None) \<and>
    live_ctxs s' = add_ctx (ctx_limited s') (live_ctxs s) \<and> limited_sms s' = n \<and> ctx_unlimited s' = ctx_unlimited s \<and> reconf_gate s' = 0"
proof -
  obtain rc c st1 s1 where b: "bless_ctx_create api (Some n) (ctx_limited s) (st, s) = (rc, c, st1, s1)" by (meson prod_cases4)
  then have c: "c = driver_creates api (live_ctxs s) (Some n)" using create_driver assms(3) by metis
  from assms(1) b show ?thesis
    by (cases rule: create_cases) (use assms(2,3) b c in \<open>auto simp: make_limited_def add_ctx_def\<close>)
qed

lemma reconf_creates:
  assumes "api_ok api" and "reconf_limited_ctx api env n (st, s) = (st', s')" and "ctx_limited s = None" and "\<not> any_alloc s"
    and "1 \<le> n" and "n \<le> total_sms s"
  shows "ctx_limited s' = (if space_mode s = SPACE_MPS_ENV then None else driver_creates api (live_ctxs s) (Some n)) \<and>
    (limited_applied s' \<longleftrightarrow> ctx_limited s' \<noteq> None) \<and> live_ctxs s' = add_ctx (ctx_limited s') (live_ctxs s) \<and>
    limited_sms s' = n \<and> ctx_unlimited s' = ctx_unlimited s \<and> reconf_gate s' = 0"
proof (cases "space_mode s = SPACE_MPS_ENV")
  case True
  then show ?thesis using assms(2) by (auto simp: reconf_limited_ctx_def add_ctx_def)
next
  case False
  define s1 where "s1 = (if space_mode s = SPACE_QMD then reconf_qmd api env s else s)"
  have f: "any_alloc s1 = any_alloc s" "total_sms s1 = total_sms s" "ctx_limited s1 = None" "ctx_unlimited s1 = ctx_unlimited s"
    "live_ctxs s1 = live_ctxs s" using assms(3) by (simp_all add: s1_def reconf_qmd_live)
  have "cap_sms (total_sms s) n = n" using assms(5,6) by (simp add: cap_sms_def)
  then have "make_limited api n (st, s1) = (st', s')"
    using assms(2,4) False f by (simp add: reconf_limited_ctx_def Let_def s1_def [symmetric] drop_limited_def)
  from make_limited_creates [OF assms(1) this f(3)] show ?thesis using False f by simp
qed

lemma fresh_contexts:
  assumes "api_ok api" and "driver_creates api live aff = Some c"
  shows "c \<notin> set live"
proof -
  have "c \<notin> set live" if "creates_fresh f" and "snd (f live aff) = Some c" for f
    using that unfolding creates_fresh_def by (metis (mono_tags, lifting) case_prod_beta option.simps(5))
  then show ?thesis using assms by (auto simp: driver_creates_def api_ok_def split: option.splits)
qed

text \<open>
  C27. Initialisation: from the initial state, whatever the environment contains, \<open>ensure_init\<close>
  creates the unlimited context, and, except in the mode that delegates to MPS, the limited context
  with the number of SMs that belongs to \<open>BLESS_LIMIT_PCT\<close>. Each is the context that the
  driver stores, null only when the driver creates none, in which case no limit is recorded as
  applied; the contexts exist, differ from each other and are the only ones that were added. The launch
  gate is open, the limit lies within the range of the card, the control server
  and the runtime are started, and running \<open>ensure_init\<close> again changes nothing.
\<close>

theorem ensure_init_establishes_contexts:
  assumes "api_ok (cuda h)" and "1 \<le> device_sms h" and "device_sms h < 16777216" and "\<not> inited s"
    and "ctx_limited s = None" and "ctx_unlimited s = None" and "\<not> limited_applied s" and "reconf_gate s = 0" and "\<not> any_alloc s"
    and "ensure_init h (st, s) = (st', s')"
  shows "ctx_unlimited s' = driver_creates (cuda h) (live_ctxs s) None \<and>
    ctx_limited s' = (if space_mode s' = SPACE_MPS_ENV then None
      else driver_creates (cuda h) (add_ctx (ctx_unlimited s') (live_ctxs s)) (Some (limited_sms s'))) \<and>
    live_ctxs s' = add_ctx (ctx_limited s') (add_ctx (ctx_unlimited s') (live_ctxs s)) \<and>
    ctx_inv s' \<and> limited_sms s' = pct_sms (device_sms h) (env_limit_pct 99 (getenv h)) \<and>
    1 \<le> limited_sms s' \<and> limited_sms s' \<le> device_sms h \<and>
    ctrl_running s' \<and> rt_attached s' \<and> inited s' \<and> ensure_init h' (st', s') = (st', s')"
proof -
  let ?pct = "env_limit_pct 99 (getenv h)" and ?s1 = "init_space_mode h (s\<lparr>total_sms := device_sms h\<rparr>)"
  let ?n = "pct_sms (device_sms h) ?pct"
  let ?s2 = "?s1\<lparr>requested_pct := ?pct, limited_sms := ?n\<rparr>"
  have "1 \<le> ?pct \<and> ?pct \<le> 99" by (auto simp: env_limit_pct_def Let_def split: option.splits)
  then have n: "1 \<le> ?n \<and> ?n \<le> device_sms h" using pct_sms_lemma [OF assms(2,3)] by blast
  have "ctx_view ?s1 = ctx_view (s\<lparr>total_sms := device_sms h\<rparr>)" by simp
  then have v1: "total_sms ?s1 = device_sms h" "ctx_limited ?s1 = None" "ctx_unlimited ?s1 = None" "live_ctxs ?s1 = live_ctxs s"
    using assms(5,6) by (simp_all add: ctx_view_def)
  obtain st3 s3 where u: "init_unlimited h (st, ?s2) = (st3, s3)" by (meson surj_pair)
  have "ctx_unlimited ?s2 = None" "live_ctxs ?s2 = live_ctxs s" using v1 by simp_all
  from init_unlimited_creates [OF assms(1) u this(1), unfolded this(2)]
  have c3: "ctx_unlimited s3 = driver_creates (cuda h) (live_ctxs s) None" "live_ctxs s3 = add_ctx (ctx_unlimited s3) (live_ctxs s)"
    and e3: "s3 = ?s2\<lparr>ctx_unlimited := ctx_unlimited s3, live_ctxs := live_ctxs s3\<rparr>" by blast+
  have i3: "ctx_limited s3 = None" "\<not> any_alloc s3" "total_sms s3 = device_sms h"
    using v1 assms(9) by (subst e3; simp)+
  obtain st4 s4 where rc: "reconf_limited_ctx (cuda h) (getenv h) ?n (st3, s3) = (st4, s4)" by (meson surj_pair)
  note c4 = reconf_creates [OF assms(1) rc i3(1,2), unfolded i3(3)]
  have m4: "space_mode s4 = space_mode s3" by (rule reconf_mode [OF rc])
  define s6 where "s6 = (init_priority h (init_class_file h s4))
    \<lparr>sock_path := snprintf_buf 128 (''/tmp/bless-'' @ dec (getpid h) @ ''.sock''), ctrl_running := True\<rparr>"
  obtain st7 s7 where at: "attach_runtime_if_needed (cuda h) (st4, s6) = (st7, s7)" by (meson surj_pair)
  have s7: "s7 = snd (attach_runtime_if_needed (cuda h) (st4, s6))" by (simp add: at)
  have s': "s' = (init_flags h (init_stats_log h (init_mem_quota h (init_master h s7))))\<lparr>inited := True\<rparr>"
    using assms(4,10) u rc v1(1) at [unfolded s6_def] by (simp add: ensure_init_def Let_def)
  have v: "ctx_view s' = ctx_view s4" "space_mode s' = space_mode s4" "rt_attached s'" "ctrl_running s'" "inited s'"
    unfolding s' s7 by (simp_all add: s6_def)
  have f: "ctx_limited s' = ctx_limited s4" "ctx_unlimited s' = ctx_unlimited s4" "live_ctxs s' = live_ctxs s4" "limited_sms s' = limited_sms s4"
    "limited_applied s' = limited_applied s4" "reconf_gate s' = reconf_gate s4" using v(1) by (simp_all add: ctx_view_def)
  have d: "ctx_unlimited s' = driver_creates (cuda h) (live_ctxs s) None" "limited_sms s' = ?n"
    "ctx_limited s' = (if space_mode s' = SPACE_MPS_ENV then None
      else driver_creates (cuda h) (add_ctx (ctx_unlimited s') (live_ctxs s)) (Some (limited_sms s')))"
    "live_ctxs s' = add_ctx (ctx_limited s') (add_ctx (ctx_unlimited s') (live_ctxs s))"
    using c4 n c3 f v(2) m4 by simp_all
  have "ctx_inv s'"
  proof -
    have "c \<noteq> c'" if "ctx_limited s' = Some c" and "ctx_unlimited s' = Some c'" for c c'
      using fresh_contexts [OF assms(1), of "add_ctx (ctx_unlimited s') (live_ctxs s)" "Some (limited_sms s')" c] that d(3)
      by (auto simp: add_ctx_def split: if_splits)
    moreover have "limited_applied s' \<longleftrightarrow> ctx_limited s' \<noteq> None" "reconf_gate s' = 0" using c4 n f by simp_all
    ultimately show ?thesis using d(4) by (auto simp: ctx_inv_def add_ctx_def split: option.splits)
  qed
  with d n v show ?thesis by (simp add: ensure_init_def)
qed

lemma ensure_init_mode:
  assumes "\<not> inited s" and "ensure_init h (st, s) = (st', s')"
  shows "space_mode s' = space_mode (init_space_mode h (s\<lparr>total_sms := device_sms h\<rparr>))"
proof -
  let ?pct = "env_limit_pct 99 (getenv h)" and ?s1 = "init_space_mode h (s\<lparr>total_sms := device_sms h\<rparr>)"
  let ?n = "pct_sms (total_sms ?s1) ?pct"
  obtain st3 s3 where u: "init_unlimited h (st, ?s1\<lparr>requested_pct := ?pct, limited_sms := ?n\<rparr>) = (st3, s3)" by (meson surj_pair)
  obtain st4 s4 where rc: "reconf_limited_ctx (cuda h) (getenv h) ?n (st3, s3) = (st4, s4)" by (meson surj_pair)
  have "space_mode s3 = space_mode ?s1" using u by (auto simp: init_unlimited_def dest: create_mode split: prod.splits)
  then have m: "space_mode s4 = space_mode ?s1" using reconf_mode [OF rc] by simp
  obtain st7 s7 where at: "attach_runtime_if_needed (cuda h) (st4, (init_priority h (init_class_file h s4))
    \<lparr>sock_path := snprintf_buf 128 (''/tmp/bless-'' @ dec (getpid h) @ ''.sock''), ctrl_running := True\<rparr>) = (st7, s7)" by (meson surj_pair)
  have "space_mode (snd (st7, s7)) = space_mode s4" unfolding at [symmetric] by simp
  moreover have "s' = (init_flags h (init_stats_log h (init_mem_quota h (init_master h s7))))\<lparr>inited := True\<rparr>"
    using assms(1,2) u rc at by (simp add: ensure_init_def Let_def)
  ultimately show ?thesis using m by simp
qed

text \<open>
  C28. The undocumented QMD interface is used only on request and only on the driver it was
  verified on: initialisation ends in QMD mode exactly when the environment asks for it and
  the driver version, injected or read from \<open>/proc\<close>, is 590.48.01, or is unknown and the use
  is forced. An unknown mode leaves the default.
\<close>

theorem qmd_mode_needs_verified_driver:
  assumes "\<not> inited s" and "space_mode s = SPACE_CTX" and "ensure_init h (st, s) = (st', s')"
  shows "(space_mode s' = SPACE_QMD \<longleftrightarrow> getenv h ''BLESS_SPACE_MODE'' = Some ''qmd'' \<and>
      (qmd_driver_version h = ''590.48.01'' \<or> qmd_driver_version h = [] \<and> env_flag (getenv h) ''BLESS_QMD_FORCE'')) \<and>
    (space_mode s' = SPACE_MPS_ENV \<longleftrightarrow> getenv h ''BLESS_SPACE_MODE'' = Some ''mps_env'')"
  using ensure_init_mode [OF assms(1,3)] assms(2)
  by (auto simp: init_space_mode_def Let_def KRAKEN_QMD_DRIVER_VERIFIED_def split: option.splits)

section \<open>Instances\<close>

definition sample_host :: "(string \<rightharpoonup> string) \<Rightarrow> host" where
  "sample_host env = \<lparr>getenv = env, proc_version = None, getpid = 42, device_sms = 188, master_socket = 3, can_open = (\<lambda>_. True), cuda = sample_api\<rparr>"

definition initial_ctx :: ctx_state where
  "initial_ctx = (sample_ctx SPACE_CTX None)\<lparr>ctx_unlimited := None, live_ctxs := []\<rparr>"

definition initial_bless :: bless_state where
  "initial_bless = ctx_state.extend initial_ctx \<lparr>inited = False, squad_size = 100, squad_prog = 0, kernel_seq = 0, share_quota = 0,
     sd_sent = 0, master_fd = -1, master_path = [], tenant_id = [], master_sent = [], sock_path = [], ctrl_running = False,
     stats_log = None, class_file = None, ioctl_count = 0, ioctl_nvidia_count = 0, mmap_count = 0, mmap_gpu_count = 0,
     mmap_total_bytes = 0, syscall_intercept_enabled = False\<rparr>"

lemma initial_bless_fields [simp]:
  "\<not> inited initial_bless" "ctx_limited initial_bless = None" "ctx_unlimited initial_bless = None" "\<not> limited_applied initial_bless"
  "reconf_gate initial_bless = 0" "\<not> any_alloc initial_bless" "live_ctxs initial_bless = []" "space_mode initial_bless = SPACE_CTX"
  by (simp_all add: initial_bless_def initial_ctx_def ctx_state.defs sample_ctx_def qmd_state.defs sample_qmd_def mem_state.defs
      sample_mem_def time_state.defs sample_time_def)

theorem ensure_init_establishes_contexts_witness:
  "let s' = snd (ensure_init (sample_host [''BLESS_LIMIT_PCT'' \<mapsto> ''30'']) ([], initial_bless)) in
   ctx_unlimited s' = Some 1 \<and> ctx_limited s' = Some 2 \<and> limited_applied s' \<and> limited_sms s' \<le> 188"
proof -
  let ?h = "sample_host [''BLESS_LIMIT_PCT'' \<mapsto> ''30'']"
  obtain st' s' where e: "ensure_init ?h ([], initial_bless) = (st', s')" by (meson surj_pair)
  have h: "cuda ?h = sample_api" "device_sms ?h = 188" by (simp_all add: sample_host_def)
  have m: "space_mode s' = SPACE_CTX" using ensure_init_mode [OF _ e] by (simp add: init_space_mode_def sample_host_def)
  from ensure_init_establishes_contexts [of ?h initial_bless "[]" st' s' ?h] e h m sample_api_ok
  show ?thesis by (simp add: driver_creates_def sample_api_def sample_create_def add_ctx_def ctx_inv_def)
qed

theorem qmd_mode_needs_verified_driver_witness:
  "space_mode (snd (ensure_init (sample_host [''BLESS_SPACE_MODE'' \<mapsto> ''qmd'', ''BLESS_QMD_DRIVER'' \<mapsto> ''590.48.02'']) ([], initial_bless))) \<noteq> SPACE_QMD"
proof -
  let ?h = "sample_host [''BLESS_SPACE_MODE'' \<mapsto> ''qmd'', ''BLESS_QMD_DRIVER'' \<mapsto> ''590.48.02'']"
  obtain st' s' where e: "ensure_init ?h ([], initial_bless) = (st', s')" by (meson surj_pair)
  have "qmd_driver_version ?h = ''590.48.02''" by (simp add: qmd_driver_version_def sample_host_def snprintf_buf_def)
  then show ?thesis using qmd_mode_needs_verified_driver [OF _ _ e] e by simp
qed

end
