(* ===== verification/BlessCtrl.thy ===== *)
theory BlessCtrl
  imports BlessInit
begin

text \<open>
  \<open>libbless.cpp\<close>, the control server (\<open>start_control_server\<close>): the chain of prefix tests over the
  received datagram is the list \<open>commands\<close>, in the order of the source, each prefix with the
  definition of its branch. A branch gets the host, two readings of the clock and what follows
  the prefix. Output on \<open>stderr\<close> is left out, lines for the statistics file are kept.
\<close>

section \<open>Branches\<close>

type_synonym 'a handler = "host \<Rightarrow> int \<times> int \<Rightarrow> string \<Rightarrow> 'a proc \<Rightarrow> 'a proc"

definition on_state :: "('a bless_state_scheme \<Rightarrow> 'a bless_state_scheme) \<Rightarrow> 'a proc \<Rightarrow> 'a proc" where
  "on_state f = (\<lambda>(st, s). (st, f s))"

definition print_only :: "'a handler" where
  "print_only h clk arg u = u"

definition stats_line :: "string \<Rightarrow> 'a bless_state_scheme \<Rightarrow> 'a bless_state_scheme" where
  "stats_line l s = (case stats_log s of None \<Rightarrow> s | Some ls \<Rightarrow> s\<lparr>stats_log := Some (ls @ [l])\<rparr>)"

subsection \<open>Route, boost, pause\<close>

definition cmd_limited :: "'a handler" where
  "cmd_limited h clk arg = on_state (\<lambda>s. if \<not> any_alloc s then s\<lparr>route := LIMITED\<rparr> else s)"

definition cmd_unlimited :: "'a handler" where
  "cmd_unlimited h clk arg = on_state (\<lambda>s. if \<not> any_alloc s then s\<lparr>route := UNLIMITED\<rparr> else s)"

definition cmd_set_route :: "'a handler" where
  "cmd_set_route h clk arg = on_state (\<lambda>s. let r = atoi arg in
     if \<not> any_alloc s then s\<lparr>route := (if r = 1 then UNLIMITED else LIMITED)\<rparr> else s)"

definition cmd_pause :: "'a handler" where
  "cmd_pause h clk arg = on_state (\<lambda>s. s\<lparr>pause_mode := True\<rparr>)"

definition cmd_resume :: "'a handler" where
  "cmd_resume h clk arg = on_state (\<lambda>s. s\<lparr>pause_mode := False\<rparr>)"

definition boost_message :: "host \<Rightarrow> string \<Rightarrow> 'a bless_state_scheme \<Rightarrow> 'a bless_state_scheme" where
  "boost_message h what s = (if master_fd s \<ge> 0
     then master_send (snprintf_buf 160 (''BE pid='' @ dec (getpid h) @ '' t='' @ tenant_id s @ '' what='' @ what)) s else s)"

definition cmd_boost_on :: "'a handler" where
  "cmd_boost_on h clk arg = on_state (\<lambda>s. boost_message h ''BOOST_ON'' (s\<lparr>boost_mode := True\<rparr>))"

definition cmd_boost_off :: "'a handler" where
  "cmd_boost_off h clk arg = on_state (\<lambda>s. boost_message h ''BOOST_OFF'' (s\<lparr>boost_mode := False\<rparr>))"

subsection \<open>Squad, share, kernel credit\<close>

definition cmd_set_squad :: "'a handler" where
  "cmd_set_squad h clk arg = on_state (\<lambda>s. let k = atoi arg in if k > 0 then s\<lparr>squad_size := k\<rparr> else s)"

definition cmd_set_share :: "'a handler" where
  "cmd_set_share h clk arg = on_state (\<lambda>s. let q = atoi arg in
     if q \<ge> 0 then (let s1 = s\<lparr>share_quota := q\<rparr> in if q = 0 then s1\<lparr>sd_sent := 0\<rparr> else s1) else s)"

definition cmd_squad_reset :: "'a handler" where
  "cmd_squad_reset h clk arg = on_state (\<lambda>s. s\<lparr>squad_prog := 0, sd_sent := 0\<rparr>)"

definition cmd_credit_set :: "'a handler" where
  "cmd_credit_set h clk arg = on_state (\<lambda>s. s\<lparr>credit_remain := atoi arg\<rparr>)"

definition cmd_credit_off :: "'a handler" where
  "cmd_credit_off h clk arg = on_state (\<lambda>s. s\<lparr>credit_remain := - 1\<rparr>)"

subsection \<open>Time credit\<close>

definition cmd_time_mode :: "'a handler" where
  "cmd_time_mode h clk arg = on_state (\<lambda>s. s\<lparr>credit_mode := atoi arg\<rparr>)"

definition cmd_time_credit :: "'a handler" where
  "cmd_time_credit h clk arg = on_state (\<lambda>s. let t = atoll arg in
     if t < 0 then s\<lparr>time_unlimited := True, time_credit_us := - 1\<rparr> else s\<lparr>time_unlimited := False, time_credit_us := t\<rparr>)"

definition cmd_time_unlimited :: "'a handler" where
  "cmd_time_unlimited h clk arg = on_state (\<lambda>s. s\<lparr>time_unlimited := True, time_credit_us := - 1\<rparr>)"

definition cmd_time_slice :: "'a handler" where
  "cmd_time_slice h clk arg = on_state (\<lambda>s. let t = atoll arg in if t > 0 then s\<lparr>time_slice_us := t\<rparr> else s)"

definition cmd_time_add :: "'a handler" where
  "cmd_time_add h clk arg = on_state (\<lambda>s. s\<lparr>time_credit_us := wrap64 (time_credit_us s + atoll arg)\<rparr>)"

definition cmd_time_stats :: "'a handler" where
  "cmd_time_stats h clk arg = on_state (\<lambda>s.
     stats_line (''total='' @ dec_int (total_time_us s) @ '' kernels='' @ dec_int (kernel_seq s) @ [CHR 0x0A]) s)"

definition cmd_peer_idle :: "'a handler" where
  "cmd_peer_idle h clk arg = on_state (\<lambda>s. s\<lparr>peer_idle := atoi arg \<noteq> 0, peer_idle_at_us := fst clk\<rparr>)"

definition cmd_gate_stats :: "'a handler" where
  "cmd_gate_stats h clk arg = on_state (\<lambda>s.
     stats_line (''gate_count='' @ dec_int (gate_block_count s) @ '' gate_total_us='' @ dec_int (gate_block_total_us s) @
       '' gate_max_us='' @ dec_int (gate_block_max_us s) @ [CHR 0x0A]) s)"

subsection \<open>Memory\<close>

definition cmd_mem_quota :: "'a handler" where
  "cmd_mem_quota h clk arg = on_state (\<lambda>s. let mb = atoll arg in
     if mb < 0 then s\<lparr>mem_quota_bytes := - 1\<rparr> else s\<lparr>mem_quota_bytes := wrap64 (mb * 1024 * 1024)\<rparr>)"

definition cmd_mem_track :: "'a handler" where
  "cmd_mem_track h clk arg = on_state (\<lambda>s. s\<lparr>mem_tracking_enabled := atoi arg \<noteq> 0\<rparr>)"

definition cmd_mem_reset :: "'a handler" where
  "cmd_mem_reset h clk arg = on_state mem_reset"

subsection \<open>Priority, system calls\<close>

definition priority_of :: "int \<Rightarrow> Priority option" where
  "priority_of p = (if p = 0 then Some URGENT else if p = 1 then Some NORMAL else if p = 2 then Some BACKGROUND else None)"

definition cmd_priority_set :: "'a handler" where
  "cmd_priority_set h clk arg = on_state (\<lambda>s. case priority_of (atoi arg) of Some p \<Rightarrow> s\<lparr>current_priority := p\<rparr> | None \<Rightarrow> s)"

definition cmd_urgent_request :: "'a handler" where
  "cmd_urgent_request h clk arg = on_state (\<lambda>s. s\<lparr>urgent_pending := True, preempt_requested := True\<rparr>)"

definition cmd_urgent_limit :: "'a handler" where
  "cmd_urgent_limit h clk arg = on_state (\<lambda>s. let v = atoll arg in if v \<ge> 0 then s\<lparr>urgent_limit_us := v\<rparr> else s)"

definition cmd_urgent_clear :: "'a handler" where
  "cmd_urgent_clear h clk arg = on_state (\<lambda>s. s\<lparr>urgent_pending := False, preempt_requested := False\<rparr>)"

definition cmd_syscall_on :: "'a handler" where
  "cmd_syscall_on h clk arg = on_state (\<lambda>s. s\<lparr>syscall_intercept_enabled := True\<rparr>)"

definition cmd_syscall_off :: "'a handler" where
  "cmd_syscall_off h clk arg = on_state (\<lambda>s. s\<lparr>syscall_intercept_enabled := False\<rparr>)"

subsection \<open>Space\<close>

definition cmd_qmd_pct :: "'a handler" where
  "cmd_qmd_pct h clk arg = on_state (\<lambda>s.
     if space_mode s \<noteq> SPACE_QMD then s
     else let s1 = kraken_qmd_set_allowed (getenv h) (kraken_qmd_pct_to_tpc (atoi arg)) s; dt = wrap64 (snd clk - fst clk)
          in s1\<lparr>qmd_reconf_count := wrap64 (qmd_reconf_count s1 + 1), qmd_reconf_total_us := wrap64 (qmd_reconf_total_us s1 + dt)\<rparr>)"

definition cmd_qmd_stats :: "'a handler" where
  "cmd_qmd_stats h clk arg = on_state (\<lambda>s.
     stats_line (''qmd_allowed='' @ dec_int (qmd_allowed_tpc s) @ '' qmd_reconf='' @ dec_int (qmd_reconf_count s) @ [CHR 0x0A]) s)"

definition cmd_reconf_sm :: "'a handler" where
  "cmd_reconf_sm h clk arg = (\<lambda>(st, s).
     if space_mode s = SPACE_MPS_ENV then (st, s)
     else let k = atoi arg in if k > 0 then reconf_limited_ctx (cuda h) (getenv h) k (st, s) else (st, s))"

definition cmd_set_limit_pct :: "'a handler" where
  "cmd_set_limit_pct h clk arg = (\<lambda>(st, s).
     if space_mode s = SPACE_MPS_ENV then (st, s)
     else let p = atoi arg; p1 = (if p < 1 then 1 else p); pct = (if p1 > 99 then 99 else p1)
          in reconf_limited_ctx (cuda h) (getenv h) (pct_sms (total_sms s) pct) (st, s\<lparr>requested_pct := pct\<rparr>))"

section \<open>Dispatch\<close>

definition commands :: "(string \<times> 'a handler) list" where
  "commands =
    [(''limited'', cmd_limited), (''unlimited'', cmd_unlimited), (''set_route '', cmd_set_route), (''pause'', cmd_pause),
     (''resume'', cmd_resume), (''boost_on'', cmd_boost_on), (''boost_off'', cmd_boost_off), (''set_squad '', cmd_set_squad),
     (''set_share '', cmd_set_share), (''squad_reset'', cmd_squad_reset), (''credit_set '', cmd_credit_set),
     (''credit_off'', cmd_credit_off), (''time_mode '', cmd_time_mode), (''time_credit '', cmd_time_credit),
     (''time_unlimited'', cmd_time_unlimited), (''time_slice '', cmd_time_slice), (''time_add '', cmd_time_add),
     (''time_stats'', cmd_time_stats), (''peer_idle'', cmd_peer_idle), (''wc_stats'', print_only), (''gate_stats'', cmd_gate_stats),
     (''ctx_stats'', print_only), (''mem_stats'', print_only), (''mem_quota '', cmd_mem_quota), (''mem_track '', cmd_mem_track),
     (''mem_reset'', cmd_mem_reset), (''priority_set '', cmd_priority_set), (''urgent_request'', cmd_urgent_request),
     (''urgent_limit '', cmd_urgent_limit), (''urgent_stats'', print_only), (''urgent_clear'', cmd_urgent_clear),
     (''queue_stats'', print_only), (''syscall_on'', cmd_syscall_on), (''syscall_off'', cmd_syscall_off),
     (''syscall_stats'', print_only), (''sm_stats'', print_only), (''qmd_pct '', cmd_qmd_pct), (''qmd_stats'', cmd_qmd_stats),
     (''reconf_sm '', cmd_reconf_sm), (''set_limit_pct '', cmd_set_limit_pct)]"

definition find_command :: "string \<Rightarrow> (string \<times> 'b) list \<Rightarrow> (string \<times> 'b) option" where
  "find_command buf cs = List.find (\<lambda>c. starts_with buf (fst c)) cs"

text \<open>One datagram; the result says whether the loop goes on. The buffer holds 127 bytes and a NUL.\<close>

definition handle_command :: "host \<Rightarrow> int \<times> int \<Rightarrow> string \<Rightarrow> 'a proc \<Rightarrow> bool \<times> 'a proc" where
  "handle_command h clk msg u =
     (let buf = c_string (take 127 msg) in
      case find_command buf commands of
        Some (p, f) \<Rightarrow> (True, f h clk (drop (length p) buf) u)
      | None \<Rightarrow> (\<not> starts_with buf ''quit'', u))"

text \<open>The receive loop against the datagrams that arrive; \<open>None\<close> is a timeout of \<open>recv\<close>.\<close>

fun ctrl_serve :: "host \<Rightarrow> ((int \<times> int) \<times> string option) list \<Rightarrow> 'a proc \<Rightarrow> 'a proc" where
  "ctrl_serve h [] u = u"
| "ctrl_serve h ((clk, None) # ms) u = (if ctrl_running (snd u) then ctrl_serve h ms u else u)"
| "ctrl_serve h ((clk, Some msg) # ms) u =
     (if ctrl_running (snd u)
      then let (go, u1) = handle_command h clk msg u in if go then ctrl_serve h ms u1 else u1
      else u)"

section \<open>Dispatch is unambiguous\<close>

definition command_names :: "string list" where
  "command_names = map fst (commands :: (string \<times> unit handler) list)"

lemma command_names_eq: "map fst (commands :: (string \<times> 'a handler) list) = command_names"
  by (simp add: commands_def command_names_def)

lemma names_incomparable: "\<forall>p \<in> set command_names. \<forall>q \<in> set command_names. prefix p q \<longrightarrow> p = q"
  unfolding command_names_def commands_def list.map fst_conv by code_simp

lemma names_clean: "distinct command_names \<and> (\<forall>p \<in> set command_names. NUL \<notin> set p)"
  unfolding command_names_def commands_def list.map fst_conv by code_simp

lemma find_unique:
  assumes "(p, f) \<in> set cs" and "distinct (map fst cs)" and "\<forall>q \<in> set (map fst cs). \<forall>r \<in> set (map fst cs). prefix q r \<longrightarrow> q = r"
  shows "find_command (p @ arg) cs = Some (p, f)"
proof -
  have p: "starts_with (p @ arg) p" by (simp add: starts_with_def)
  have only: "fst c = p" if "c \<in> set cs" "starts_with (p @ arg) (fst c)" for c
  proof -
    have "prefix (fst c) (p @ arg)" "prefix p (p @ arg)" using that(2) by (simp_all add: starts_with_def)
    then have "prefix (fst c) p \<or> prefix p (fst c)" using prefix_same_cases by blast
    moreover have "fst c \<in> set (map fst cs)" "p \<in> set (map fst cs)" using that(1) assms(1) by force+
    ultimately show ?thesis using assms(3) by blast
  qed
  have "find_command (p @ arg) cs \<noteq> None" using assms(1) p by (auto simp: find_command_def find_None_iff)
  then obtain c where c: "find_command (p @ arg) cs = Some c" by blast
  then have "c \<in> set cs" "starts_with (p @ arg) (fst c)" by (auto simp: find_command_def find_Some_iff)
  with only have "c = (p, f)" using assms(1,2) by (metis eq_key_imp_eq_value prod.collapse)
  with c show ?thesis by simp
qed

lemma dispatch_to:
  assumes "(p, f) \<in> set commands" and "length (p @ arg) \<le> 127" and "NUL \<notin> set arg"
  shows "handle_command h clk (p @ arg) u = (True, f h clk arg u)"
proof -
  have "p \<in> set (map fst (commands :: (string \<times> 'a handler) list))" using assms(1) by force
  then have "NUL \<notin> set p" using names_clean by (simp add: command_names_eq)
  then have "c_string (take 127 (p @ arg)) = p @ arg"
    using assms(2,3) by (auto simp: c_string_def takeWhile_eq_all_conv)
  moreover have "find_command (p @ arg) commands = Some (p, f)"
    using names_incomparable names_clean by (intro find_unique [OF assms(1)]) (simp_all only: command_names_eq)
  ultimately show ?thesis by (simp add: handle_command_def)
qed

text \<open>
  C24. No command hides another: in the chain of prefix tests every one of the 40 commands reaches
  its own branch, with exactly the text after its name as argument.
\<close>

theorem commands_not_shadowed:
  assumes "(p, f) \<in> set commands" and "length (p @ arg) \<le> 127" and "NUL \<notin> set arg"
  shows "handle_command h clk (p @ arg) u = (True, f h clk arg u) \<and> length command_names = 40"
  using dispatch_to [OF assms] by (simp add: command_names_def commands_def)

section \<open>Invariants of the server\<close>

text \<open>A property of the process that every branch keeps is kept by every sequence of datagrams.\<close>

locale handler_invariant =
  fixes h :: host and inv :: "ctx list \<times> 'a bless_state_scheme \<Rightarrow> bool"
  assumes keeps: "(p, f) \<in> set commands \<Longrightarrow> inv u \<Longrightarrow> inv (f h clk arg u)"
begin

lemma handle_keeps: "inv u \<Longrightarrow> inv (snd (handle_command h clk msg u))"
proof -
  assume i: "inv u"
  let ?b = "c_string (take 127 msg)"
  show ?thesis
  proof (cases "find_command ?b (commands :: (string \<times> 'a handler) list)")
    case None
    then show ?thesis using i by (simp add: handle_command_def)
  next
    case (Some c)
    then have "c \<in> set commands" by (auto simp: find_command_def find_Some_iff)
    then have "inv (snd c h clk (drop (length (fst c)) ?b) u)" using keeps [of "fst c" "snd c"] i by (metis prod.collapse)
    then show ?thesis using Some by (cases c) (simp add: handle_command_def)
  qed
qed

lemma serve_keeps: "inv u \<Longrightarrow> inv (ctrl_serve h ms u)"
proof (induction ms arbitrary: u)
  case (Cons m ms)
  obtain clk msg where m: "m = (clk, msg)" by (meson surj_pair)
  obtain go u1 where g: "handle_command h clk (the msg) u = (go, u1)" by (meson surj_pair)
  have "inv u1" using handle_keeps [OF Cons.prems, of clk "the msg"] g by simp
  then show ?case using Cons m g by (cases msg) (auto simp: Let_def)
qed simp

end

lemmas cmd_defs = cmd_limited_def cmd_unlimited_def cmd_set_route_def cmd_pause_def cmd_resume_def cmd_boost_on_def cmd_boost_off_def
  cmd_set_squad_def cmd_set_share_def cmd_squad_reset_def cmd_credit_set_def cmd_credit_off_def cmd_time_mode_def cmd_time_credit_def
  cmd_time_unlimited_def cmd_time_slice_def cmd_time_add_def cmd_time_stats_def cmd_peer_idle_def cmd_gate_stats_def cmd_mem_quota_def
  cmd_mem_track_def cmd_mem_reset_def cmd_priority_set_def cmd_urgent_request_def cmd_urgent_limit_def cmd_urgent_clear_def
  cmd_syscall_on_def cmd_syscall_off_def cmd_qmd_pct_def cmd_qmd_stats_def print_only_def

text \<open>
  Every branch but the two reconfigurations only changes the globals, and keeps what the contexts
  are made of; after an allocation also the route.
\<close>

definition pin_view :: "'a bless_state_scheme \<Rightarrow> bool \<times> (bool \<times> ctx \<times> ctx \<times> nat list \<times> int \<times> int \<times> int)" where
  "pin_view s = (any_alloc s, ctx_view s)"

definition quiet :: "'a handler \<Rightarrow> bool" where
  "quiet f \<longleftrightarrow> (\<forall>h clk arg st s. fst (f h clk arg (st, s)) = st \<and> pin_view (snd (f h clk arg (st, s))) = pin_view s \<and>
     (any_alloc s \<longrightarrow> route (snd (f h clk arg (st, s))) = route s))"

lemma quiet_branches:
  "\<forall>c \<in> set commands. fst c \<notin> {''reconf_sm '', ''set_limit_pct ''} \<longrightarrow> quiet (snd c)"
  unfolding commands_def
  by (simp add: cmd_defs on_state_def quiet_def pin_view_def ctx_view_def Let_def boost_message_def master_send_def stats_line_def
      mem_reset_def kraken_qmd_set_allowed_def split: option.splits prod.splits)

lemma quietD:
  assumes "quiet f" and "f h clk arg (st, s) = (st', s')"
  shows "st' = st \<and> pin_view s' = pin_view s \<and> (any_alloc s \<longrightarrow> route s' = route s)"
  using assms unfolding quiet_def by (metis fst_conv snd_conv)

lemma reconf_branches:
  "(p, f) \<in> set commands \<Longrightarrow> p \<in> {''reconf_sm '', ''set_limit_pct ''} \<Longrightarrow> f = cmd_reconf_sm \<or> f = cmd_set_limit_pct"
  by (auto simp: commands_def)

lemma branch_cases:
  assumes "(p, f) \<in> set commands"
  obtains (quiet) "quiet f" | (reconf) "f = cmd_reconf_sm \<or> f = cmd_set_limit_pct"
  using assms quiet_branches reconf_branches [OF assms] by force

text \<open>Both reconfigurations are \<open>reconf_limited_ctx\<close> with some size, or nothing.\<close>

lemma reconf_branch_run:
  assumes "f = cmd_reconf_sm \<or> f = cmd_set_limit_pct"
  shows "f h clk arg (st, s) = (st, s) \<or>
    space_mode s \<noteq> SPACE_MPS_ENV \<and> (\<exists>k q. f h clk arg (st, s) = reconf_limited_ctx (cuda h) (getenv h) k (st, s\<lparr>requested_pct := q\<rparr>))"
proof -
  have id: "s\<lparr>requested_pct := requested_pct s\<rparr> = s" by simp
  from assms show ?thesis
  proof
    assume f: "f = cmd_reconf_sm"
    show ?thesis
    proof (cases "space_mode s = SPACE_MPS_ENV \<or> \<not> atoi arg > 0")
      case False
      then have "f h clk arg (st, s) = reconf_limited_ctx (cuda h) (getenv h) (atoi arg) (st, s\<lparr>requested_pct := requested_pct s\<rparr>)"
        unfolding f cmd_reconf_sm_def id by (simp add: Let_def)
      with False show ?thesis by blast
    qed (auto simp: f cmd_reconf_sm_def Let_def)
  next
    assume f: "f = cmd_set_limit_pct"
    show ?thesis
    proof (cases "space_mode s = SPACE_MPS_ENV")
      case False
      then have "\<exists>k q. f h clk arg (st, s) = reconf_limited_ctx (cuda h) (getenv h) k (st, s\<lparr>requested_pct := q\<rparr>)"
        unfolding f cmd_set_limit_pct_def Let_def prod.case if_not_P [OF False] by blast
      with False show ?thesis by blast
    qed (simp add: f cmd_set_limit_pct_def)
  qed
qed

definition contexts_ok :: "'a proc \<Rightarrow> bool" where
  "contexts_ok u \<longleftrightarrow> ctx_inv (snd u) \<and> 1 \<le> total_sms (snd u)"

lemma reconf_total: "reconf_limited_ctx api env n (st, s) = (st', s') \<Longrightarrow> total_sms s' = total_sms s"
  by (auto simp: reconf_limited_ctx_def make_limited_def drop_limited_def cuCtxDestroy_def bless_ctx_create_def Let_def
      split: option.splits prod.splits if_splits)

lemma branch_contexts_ok:
  assumes "api_ok (cuda h)" and "(p, f) \<in> set commands" and "contexts_ok u"
  shows "contexts_ok (f h clk arg u)"
proof -
  obtain st s where u: "u = (st, s)" by (cases u)
  from assms(2) show ?thesis
  proof (cases rule: branch_cases)
    case quiet
    obtain st' s' where e: "f h clk arg (st, s) = (st', s')" by (meson surj_pair)
    have "ctx_view s' = ctx_view s" using quietD [OF quiet e] by (simp add: pin_view_def)
    from ctx_view_inv [OF this] show ?thesis using assms(3) by (simp add: contexts_ok_def u e)
  next
    case reconf
    from reconf_branch_run [OF this, of h clk arg st s] show ?thesis
    proof (elim disjE conjE exE)
      fix k q assume e: "f h clk arg (st, s) = reconf_limited_ctx (cuda h) (getenv h) k (st, s\<lparr>requested_pct := q\<rparr>)"
      obtain st' s' where r: "reconf_limited_ctx (cuda h) (getenv h) k (st, s\<lparr>requested_pct := q\<rparr>) = (st', s')" by (meson surj_pair)
      have "ctx_inv (s\<lparr>requested_pct := q\<rparr>)" "1 \<le> total_sms (s\<lparr>requested_pct := q\<rparr>)"
        using assms(3) by (simp_all add: contexts_ok_def u ctx_inv_def)
      from reconf_valid_lemma [OF assms(1) this r] reconf_total [OF r] show ?thesis
        using assms(3) by (simp add: contexts_ok_def u e r)
    qed (use assms(3) in \<open>simp add: u\<close>)
  qed
qed

text \<open>After an allocation: the contexts, the route and the stack of the server thread.\<close>

definition pinned :: "ctx list \<Rightarrow> 'a bless_state_scheme \<Rightarrow> 'a proc \<Rightarrow> bool" where
  "pinned st0 s0 = (\<lambda>(st, s). any_alloc s \<and> st = st0 \<and> route s = route s0 \<and> ctx_limited s = ctx_limited s0 \<and>
     ctx_unlimited s = ctx_unlimited s0 \<and> live_ctxs s = live_ctxs s0 \<and> limited_sms s = limited_sms s0)"

lemma reconf_after_alloc:
  assumes "any_alloc s" and "space_mode s \<noteq> SPACE_MPS_ENV" and "reconf_limited_ctx api env n (st, s) = (st', s')"
  shows "st' = st \<and> (s' = s \<or> s' = reconf_qmd api env s)"
  using assms by (auto simp: reconf_limited_ctx_def Let_def split: if_splits)

lemma reconf_qmd_pins [simp]:
  "route (reconf_qmd api env s) = route s" "live_ctxs (reconf_qmd api env s) = live_ctxs s"
  by (simp_all add: reconf_qmd_def kraken_qmd_setup_def kraken_qmd_set_allowed_def Let_def split: prod.splits)

lemma branch_pinned:
  assumes "(p, f) \<in> set commands" and "pinned st0 s0 u"
  shows "pinned st0 s0 (f h clk arg u)"
proof -
  obtain st s where u: "u = (st, s)" by (cases u)
  from assms(1) show ?thesis
  proof (cases rule: branch_cases)
    case quiet
    obtain st' s' where e: "f h clk arg (st, s) = (st', s')" by (meson surj_pair)
    have "pinned st0 s0 (st', s')" using quietD [OF quiet e] assms(2) by (auto simp: pin_view_def ctx_view_def pinned_def u)
    then show ?thesis unfolding u e .
  next
    case reconf
    from reconf_branch_run [OF this, of h clk arg st s] show ?thesis
    proof (elim disjE conjE exE)
      fix k q assume m: "space_mode s \<noteq> SPACE_MPS_ENV"
        and e: "f h clk arg (st, s) = reconf_limited_ctx (cuda h) (getenv h) k (st, s\<lparr>requested_pct := q\<rparr>)"
      obtain st' s' where r: "reconf_limited_ctx (cuda h) (getenv h) k (st, s\<lparr>requested_pct := q\<rparr>) = (st', s')" by (meson surj_pair)
      have "st' = st \<and> (s' = s\<lparr>requested_pct := q\<rparr> \<or> s' = reconf_qmd (cuda h) (getenv h) (s\<lparr>requested_pct := q\<rparr>))"
        using assms(2) m by (intro reconf_after_alloc [OF _ _ r]) (simp_all add: pinned_def u)
      then have "pinned st0 s0 (st', s')" using assms(2) by (auto simp: pinned_def u)
      then show ?thesis unfolding u e r .
    qed (use assms(2) in \<open>simp add: u\<close>)
  qed
qed

interpretation pin: handler_invariant h "pinned st0 s0" for h st0 s0
  by unfold_locales (rule branch_pinned)

text \<open>The driver of a host with a working creation of contexts.\<close>

definition ctx_ok_on :: "host \<Rightarrow> 'a proc \<Rightarrow> bool" where
  "ctx_ok_on h u \<longleftrightarrow> api_ok (cuda h) \<and> contexts_ok u"

interpretation ctxs: handler_invariant h "ctx_ok_on h" for h
  by unfold_locales (auto simp: ctx_ok_on_def intro: branch_contexts_ok)

text \<open>
  C17. After the first allocation no control traffic moves a tenant: whatever datagrams arrive, in
  whatever order, the route, both contexts and the SM count of the limited one stay what they
  were, so that no pointer or stream is ever used in another context than the one it was made in.
\<close>

theorem route_pinned_after_alloc:
  assumes "any_alloc s" and "ctrl_serve h ms (st, s) = (st', s')"
  shows "any_alloc s' \<and> route s' = route s \<and> ctx_limited s' = ctx_limited s \<and> ctx_unlimited s' = ctx_unlimited s \<and>
    live_ctxs s' = live_ctxs s \<and> limited_sms s' = limited_sms s \<and> st' = st"
proof -
  have "pinned st s (st, s)" using assms(1) by (simp add: pinned_def)
  from pin.serve_keeps [OF this, of h ms] show ?thesis by (simp add: assms(2) pinned_def)
qed

text \<open>
  C16. The control server keeps the contexts valid: from a state with valid contexts, every sequence
  of datagrams, reconfigurations that fail or are refused included, leads to one with valid
  contexts and an open gate.
\<close>

theorem control_keeps_contexts_valid:
  assumes "api_ok (cuda h)" and "ctx_inv s" and "1 \<le> total_sms s" and "ctrl_serve h ms (st, s) = (st', s')"
  shows "ctx_inv s' \<and> 1 \<le> total_sms s'"
proof -
  have "ctx_ok_on h (st, s)" using assms(1-3) by (simp add: ctx_ok_on_def contexts_ok_def)
  from ctxs.serve_keeps [OF this, of ms] show ?thesis by (simp add: assms(4) ctx_ok_on_def contexts_ok_def)
qed

section \<open>Numbers in commands\<close>

lemma length_dec: "n < 10 ^ Suc k \<Longrightarrow> length (dec n) \<le> Suc k"
proof (induction k arbitrary: n)
  case 0
  then show ?case by (subst dec.simps) simp
next
  case (Suc k)
  show ?case
  proof (cases "n < 10")
    case True
    then show ?thesis by (subst dec.simps) simp
  next
    case False
    have "n div 10 < 10 ^ Suc k" using Suc.prems by (simp add: less_mult_imp_div_less mult.commute)
    with Suc.IH False show ?thesis by (subst dec.simps) simp
  qed
qed

lemma atoll_dec_int: "in_i64 n \<Longrightarrow> atoll (dec_int n) = n"
proof (cases "n < 0")
  case True
  assume "in_i64 n"
  have t: "takeWhile is_digit (dec (nat (- n))) = dec (nat (- n))" using takeWhile_dec(1) [of "[]" "nat (- n)"] by simp
  have "atoll (dec_int n) = sat64 (- digits_val (takeWhile is_digit (dec (nat (- n)))))"
    using True by (simp add: dec_int_def atoll_def Let_def is_space_def)
  also have "\<dots> = n" unfolding t digits_val_dec using True \<open>in_i64 n\<close> by (simp add: sat64_def in_i64_def)
  finally show ?thesis .
next
  case False
  assume "in_i64 n"
  then have "nat n < 9223372036854775808" using False by (simp add: in_i64_def)
  from atoll_dec [of "[]", OF _ this] show ?thesis using False by (simp add: dec_int_def)
qed

lemma dec_int_short:
  assumes "in_i64 n"
  shows "length (dec_int n) \<le> 20 \<and> NUL \<notin> set (dec_int n)"
proof -
  have l: "length (dec k) \<le> 19" if "k < 10000000000000000000" for k
    using length_dec [of k 18] that by simp
  have "\<not> is_digit NUL" by (simp add: is_digit_def)
  then have z: "NUL \<notin> set (dec k)" for k using dec_digits [of k] by blast
  show ?thesis
  proof (cases "n < 0")
    case True
    then have "nat (- n) < 10000000000000000000" using assms by (simp add: in_i64_def nat_less_iff)
    from l [OF this] True z show ?thesis by (simp add: dec_int_def)
  next
    case False
    then have "nat n < 10000000000000000000" using assms by (simp add: in_i64_def nat_less_iff)
    from l [OF this] False z show ?thesis by (simp add: dec_int_def)
  qed
qed

text \<open>
  C26. Credits survive the wire: the feeder's \<open>time_credit n\<close> sets exactly the printed number for
  every 64 bit value, negative numbers mean unlimited, and a following \<open>time_add d\<close> adds to it,
  debts included.
\<close>

theorem time_credit_roundtrip:
  assumes "in_i64 n" and "in_i64 d"
    and "handle_command h clk (''time_credit '' @ dec_int n) (st, s) = (go, u1)"
    and "handle_command h clk' (''time_add '' @ dec_int d) u1 = (go', st', s')"
  shows "go \<and> go' \<and> (if n < 0 then time_unlimited s' \<and> time_credit_us s' = wrap64 (d - 1)
    else \<not> time_unlimited s' \<and> time_credit_us s' = wrap64 (n + d))"
proof -
  have c: "(''time_credit '', cmd_time_credit) \<in> set commands" "(''time_add '', cmd_time_add) \<in> set commands"
    by (simp_all add: commands_def)
  have 1: "(go, u1) = (True, cmd_time_credit h clk (dec_int n) (st, s))"
    using dispatch_to [OF c(1), of "dec_int n" h clk "(st, s)"] dec_int_short [OF assms(1)] assms(3) by simp
  have 2: "(go', st', s') = (True, cmd_time_add h clk' (dec_int d) u1)"
    using dispatch_to [OF c(2), of "dec_int d" h clk' u1] dec_int_short [OF assms(2)] assms(4) by simp
  show ?thesis using 1 2
    by (auto simp: cmd_time_credit_def cmd_time_add_def on_state_def atoll_dec_int [OF assms(1)] atoll_dec_int [OF assms(2)] Let_def add.commute)
qed

section \<open>Refused commands\<close>

text \<open>A command whose argument or whose state makes the branch do nothing.\<close>

definition refused :: "string \<Rightarrow> string \<Rightarrow> 'a bless_state_scheme \<Rightarrow> bool" where
  "refused p arg s \<longleftrightarrow>
     p = ''set_squad '' \<and> atoi arg \<le> 0 \<or> p = ''set_share '' \<and> atoi arg < 0 \<or> p = ''time_slice '' \<and> atoll arg \<le> 0 \<or>
     p = ''priority_set '' \<and> (atoi arg < 0 \<or> 2 < atoi arg) \<or> p = ''urgent_limit '' \<and> atoll arg < 0 \<or>
     p \<in> {''limited'', ''unlimited'', ''set_route ''} \<and> any_alloc s \<or>
     p \<in> {''reconf_sm '', ''set_limit_pct ''} \<and> space_mode s = SPACE_MPS_ENV \<or> p = ''reconf_sm '' \<and> atoi arg \<le> 0 \<or>
     p = ''qmd_pct '' \<and> space_mode s \<noteq> SPACE_QMD"

lemma refused_branch:
  "\<forall>c \<in> set commands. refused (fst c) arg s \<longrightarrow> snd c h clk arg (st, s) = (st, s)"
  unfolding commands_def
  by (simp add: refused_def cmd_defs cmd_reconf_sm_def cmd_set_limit_pct_def on_state_def priority_of_def Let_def)

lemma refused_is_command: "refused p arg s \<Longrightarrow> p \<in> set command_names"
  by (auto simp: refused_def command_names_def commands_def)

text \<open>
  The commands that bring an argument into range and then act on it, and the value on which they
  act.
\<close>

definition clamped :: "string \<Rightarrow> 'a bless_state_scheme \<Rightarrow> int \<Rightarrow> int option" where
  "clamped p s k =
     (if p = ''set_limit_pct '' then Some (max 1 (min 99 k))
      else if p = ''qmd_pct '' then Some (max 1 (min 100 k))
      else if p = ''reconf_sm '' then Some (min (total_sms s) k) else None)"

lemma atoi_dec_int: "in_i32 n \<Longrightarrow> atoi (dec_int n) = n"
  by (simp add: atoi_def atoll_dec_int in_i32_def in_i64_def wrap32_id)

lemma atoi_range: "in_i32 (atoi s)"
  by (simp add: atoi_def)

lemma clamped_range: "clamped p s (atoi arg) = Some k \<Longrightarrow> 1 \<le> total_sms s \<Longrightarrow> total_sms s \<le> 2147483647 \<Longrightarrow> in_i32 k"
  using atoi_range [of arg] by (auto simp: clamped_def in_i32_def split: if_splits)

lemma pct_clamped: "kraken_qmd_pct_to_tpc (max 1 (min 100 k)) = kraken_qmd_pct_to_tpc k"
  by (simp add: kraken_qmd_pct_to_tpc_def Let_def)

lemma cap_sms_clamped: "1 \<le> m \<Longrightarrow> cap_sms m (min m k) = cap_sms m k"
  by (simp add: cap_sms_def Let_def)

lemma reconf_clamped:
  assumes "1 \<le> total_sms s" and "space_mode s \<noteq> SPACE_MPS_ENV"
  shows "reconf_limited_ctx api env (min (total_sms s) k) (st, s) = reconf_limited_ctx api env k (st, s)"
  using assms cap_sms_clamped by (simp add: reconf_limited_ctx_def Let_def)

lemma clamped_branch:
  assumes "(p, f) \<in> set commands" and "clamped p s (atoi arg) = Some k" and "1 \<le> total_sms s" and "total_sms s \<le> 2147483647"
  shows "f h clk (dec_int k) (st, s) = f h clk arg (st, s)"
proof -
  have k: "atoi (dec_int k) = k" by (rule atoi_dec_int [OF clamped_range [OF assms(2-4)]])
  consider "p = ''set_limit_pct ''" "k = max 1 (min 99 (atoi arg))" | "p = ''qmd_pct ''" "k = max 1 (min 100 (atoi arg))"
    | "p = ''reconf_sm ''" "k = min (total_sms s) (atoi arg)"
    using assms(2) by (auto simp: clamped_def split: if_splits)
  then show ?thesis
  proof cases
    case 1
    then have "f = cmd_set_limit_pct" using assms(1) by (simp add: commands_def)
    then show ?thesis using 1(2) k by (simp add: cmd_set_limit_pct_def Let_def)
  next
    case 2
    then have "f = cmd_qmd_pct" using assms(1) by (simp add: commands_def)
    then show ?thesis using 2(2) k pct_clamped [of "atoi arg"] by (simp add: cmd_qmd_pct_def on_state_def Let_def)
  next
    case 3
    then have "f = cmd_reconf_sm" using assms(1) by (simp add: commands_def)
    then show ?thesis using 3(2) k assms(3) reconf_clamped [OF assms(3)] by (auto simp: cmd_reconf_sm_def Let_def)
  qed
qed

lemma clamped_is_command: "clamped p s n = Some k \<Longrightarrow> p \<in> set command_names \<and> length p \<le> 14"
  by (auto simp: clamped_def command_names_def commands_def split: if_splits)

text \<open>
  C25. What the server does with bad requests. A squad size or a time slice that is not positive, a
  negative share or urgent limit, a priority outside 0 to 2, a route change after an
  allocation, a reconfiguration under MPS or to no SM, and a QMD percentage outside QMD mode are
  refused: they leave the state of the process as it was and the server goes on; so does every
  datagram that is no command. The three commands for the share of the card bring their argument into range instead:
  a percentage, a QMD percentage or an SM count out of range acts exactly as the nearest value in range.
\<close>

theorem bad_commands_change_nothing:
  assumes "length (p @ arg) \<le> 127" and "NUL \<notin> set arg"
  shows "(refused p arg s \<longrightarrow> handle_command h clk (p @ arg) (st, s) = (True, st, s)) \<and>
    (\<forall>k. clamped p s (atoi arg) = Some k \<and> 1 \<le> total_sms s \<and> total_sms s \<le> 2147483647 \<longrightarrow>
       handle_command h clk (p @ arg) (st, s) = handle_command h clk (p @ dec_int k) (st, s)) \<and>
    ((\<forall>q \<in> set (''quit'' # command_names). \<not> prefix q (c_string (take 127 msg))) \<longrightarrow>
       handle_command h clk msg (st, s) = (True, st, s))"
proof (intro conjI impI allI)
  assume a: "refused p arg s"
  then have "p \<in> set (map fst (commands :: (string \<times> 'a handler) list))" using refused_is_command [of p arg s] by (simp add: command_names_eq)
  then obtain f :: "'a handler" where f: "(p, f) \<in> set commands" by auto
  then have "f h clk arg (st, s) = (st, s)" using refused_branch [of arg s h clk st] a by fastforce
  then show "handle_command h clk (p @ arg) (st, s) = (True, st, s)" using dispatch_to [OF f assms, of h clk "(st, s)"] by simp
next
  fix k assume c: "clamped p s (atoi arg) = Some k \<and> 1 \<le> total_sms s \<and> total_sms s \<le> 2147483647"
  then have "p \<in> set (map fst (commands :: (string \<times> 'a handler) list))" and p: "length p \<le> 14"
    using clamped_is_command [of p s "atoi arg" k] by (simp_all add: command_names_eq)
  then obtain f :: "'a handler" where f: "(p, f) \<in> set commands" by auto
  have "in_i64 k" using clamped_range [of p s arg k] c by (simp add: in_i32_def in_i64_def)
  then have "length (p @ dec_int k) \<le> 127" "NUL \<notin> set (dec_int k)" using dec_int_short [of k] p by simp_all
  then show "handle_command h clk (p @ arg) (st, s) = handle_command h clk (p @ dec_int k) (st, s)"
    using dispatch_to [OF f assms, of h clk "(st, s)"] dispatch_to [OF f, of "dec_int k" h clk "(st, s)"] clamped_branch [OF f, of s arg k h clk st] c by simp
next
  assume n: "\<forall>q \<in> set (''quit'' # command_names). \<not> prefix q (c_string (take 127 msg))"
  then have "find_command (c_string (take 127 msg)) (commands :: (string \<times> 'a handler) list) = None"
    unfolding find_command_def find_None_iff starts_with_def by (metis command_names_eq image_eqI list.set_intros(2) list.set_map)
  then show "handle_command h clk msg (st, s) = (True, st, s)" using n by (simp add: handle_command_def starts_with_def)
qed

section \<open>Instances\<close>

theorem commands_not_shadowed_witness:
  "handle_command (sample_host Map.empty) (0, 0) ''peer_idle 1'' ([], initial_bless) =
     (True, cmd_peer_idle (sample_host Map.empty) (0, 0) '' 1'' ([], initial_bless))"
  using commands_not_shadowed [of "''peer_idle''" cmd_peer_idle "'' 1''" "sample_host Map.empty" "(0, 0)" "([], initial_bless)"]
  by (simp add: commands_def)

theorem route_pinned_after_alloc_witness:
  "route (snd (ctrl_serve (sample_host Map.empty) [((0, 0), Some ''unlimited''), ((0, 0), None), ((0, 0), Some ''reconf_sm 12'')]
     ([], initial_bless\<lparr>any_alloc := True\<rparr>))) = LIMITED"
proof -
  let ?ms = "[((0, 0), Some ''unlimited''), ((0, 0), None), ((0, 0), Some ''reconf_sm 12'')]"
  obtain st' s' where r: "ctrl_serve (sample_host Map.empty) ?ms ([], initial_bless\<lparr>any_alloc := True\<rparr>) = (st', s')" by (meson surj_pair)
  have "route initial_bless = LIMITED" by (simp add: initial_bless_def initial_ctx_def ctx_state.defs sample_ctx_def qmd_state.defs)
  then show ?thesis using route_pinned_after_alloc [OF _ r] r by simp
qed

theorem control_keeps_contexts_valid_witness:
  "ctx_inv (snd (ctrl_serve (sample_host Map.empty) [((0, 0), Some ''set_limit_pct 30''), ((0, 0), Some ''reconf_sm 12'')]
     ([], initial_bless\<lparr>total_sms := 188\<rparr>)))"
proof -
  let ?ms = "[((0, 0), Some ''set_limit_pct 30''), ((0, 0), Some ''reconf_sm 12'')]"
  obtain st' s' where r: "ctrl_serve (sample_host Map.empty) ?ms ([], initial_bless\<lparr>total_sms := 188\<rparr>) = (st', s')" by (meson surj_pair)
  have "api_ok (cuda (sample_host Map.empty))" using sample_api_ok by (simp add: sample_host_def)
  from control_keeps_contexts_valid [OF this _ _ r] r show ?thesis by (simp add: ctx_inv_def)
qed

theorem time_credit_roundtrip_witness:
  "time_credit_us (snd (snd (handle_command (sample_host Map.empty) (0, 0) (''time_add '' @ dec_int (- 30))
     (snd (handle_command (sample_host Map.empty) (0, 0) (''time_credit '' @ dec_int 20) ([], initial_bless)))))) = - 10"
proof -
  let ?h = "sample_host Map.empty"
  obtain go u1 where 1: "handle_command ?h (0, 0) (''time_credit '' @ dec_int 20) ([], initial_bless) = (go, u1)" by (meson surj_pair)
  obtain go' st' s' where 2: "handle_command ?h (0, 0) (''time_add '' @ dec_int (- 30)) u1 = (go', st', s')" by (meson prod_cases3)
  have "time_credit_us s' = wrap64 (20 + - 30)"
    using time_credit_roundtrip [OF _ _ 1 2] by (simp add: in_i64_def)
  then show ?thesis unfolding 1 snd_conv 2 by (simp add: wrap64_def)
qed

theorem bad_commands_change_nothing_witness:
  "handle_command (sample_host Map.empty) (0, 0) (''priority_set '' @ ''3'') ([], initial_bless) = (True, [], initial_bless)"
proof -
  have "atoi ''3'' = 3" by code_simp
  then have "refused ''priority_set '' ''3'' initial_bless" by (simp add: refused_def)
  then show ?thesis using bad_commands_change_nothing [of "''priority_set ''" "''3''" initial_bless] by simp
qed

end
