(* ===== verification/BlessLaunch.thy ===== *)
theory BlessLaunch
  imports BlessCtrl
begin

text \<open>
  \<open>libbless.cpp\<close>, the interceptors: kernel launches through all gates, allocations under the quota,
  synchronisations that close the batch of the thread, the pass-throughs, the queries, the
  interposed system calls and the destructor. What the real functions return is an argument;
  the result of a launch says in which context the real launch ran.
\<close>

section \<open>Threads and their environment\<close>

record thread =
  locals :: tls
  burst :: kthread
  stack :: "ctx list"

text \<open>
  What the other threads and the control server do during a call: one list of interferences per
  waiting loop, and one interference after each phase. The clock readings of the call.
\<close>

record 's call_env =
  prio_env :: "('s \<Rightarrow> 's) list"
  gate_env :: "('s \<Rightarrow> 's) list"
  pause_env :: "('s \<Rightarrow> 's) list"
  prio2_env :: "('s \<Rightarrow> 's) list"
  time_env :: "(int \<times> ('s \<Rightarrow> 's)) list"
  kcredit_env :: "(bool \<times> ('s \<Rightarrow> 's)) list"
  after :: "nat \<Rightarrow> 's \<Rightarrow> 's"
  now_gate :: int
  now_batch :: int
  switch_us :: "int \<times> int"

section \<open>Gates of a launch\<close>

text \<open>\<open>kernel_credit_gate\<close> as a call: steps of the gate machine until it is idle again.\<close>

definition kcredit_body :: "bool \<times> kthread \<times> 'a credit_state_scheme \<Rightarrow>
    bool \<times> kthread \<times> 'a credit_state_scheme + kthread \<times> 'a credit_state_scheme" where
  "kcredit_body = (\<lambda>(weak_fail, t, s).
     let (t', s') = kgate_step weak_fail (t, s) in if kpc t' = KIdle then Inr (t', s') else Inl (weak_fail, t', s'))"

definition kcredit_tick :: "bool \<times> ('s \<Rightarrow> 's) \<Rightarrow> bool \<times> kthread \<times> 's \<Rightarrow> bool \<times> kthread \<times> 's" where
  "kcredit_tick e = (\<lambda>(w, t, s). (fst e, t, snd e s))"

definition kernel_credit_gate :: "(bool \<times> ('a credit_state_scheme \<Rightarrow> 'a credit_state_scheme)) list \<Rightarrow>
    kthread \<times> 'a credit_state_scheme \<Rightarrow> (kthread \<times> 'a credit_state_scheme) option" where
  "kernel_credit_gate es = (\<lambda>(t, s). map_option fst (poll kcredit_body (map kcredit_tick es) (False, t, s)))"

definition wait_while :: "('s \<Rightarrow> bool) \<Rightarrow> ('s \<Rightarrow> 's) list \<Rightarrow> 's \<Rightarrow> 's option" where
  "wait_while P es s = map_option fst (poll (\<lambda>s. if P s then Inl s else Inr s) es s)"

definition route_gate :: "'a bless_state_scheme call_env \<Rightarrow> 'a bless_state_scheme \<Rightarrow> 'a bless_state_scheme option" where
  "route_gate E s =
     (if route s = LIMITED
      then wait_while (\<lambda>s. reconf_gate s \<noteq> 0) (gate_env E) s \<bind> wait_while pause_mode (pause_env E)
      else Some s)"

definition preempt_gate :: "'a bless_state_scheme call_env \<Rightarrow> 'a bless_state_scheme \<Rightarrow> 'a bless_state_scheme option" where
  "preempt_gate E s =
     (if preempt_requested s \<and> current_priority s \<noteq> URGENT
      then map_option fst (priority_queue_gate (prio2_env E) (priority_queue_done s))
      else Some s)"

definition credit_gate :: "'a bless_state_scheme call_env \<Rightarrow> thread \<times> 'a bless_state_scheme \<Rightarrow>
    (thread \<times> 'a bless_state_scheme) option" where
  "credit_gate E = (\<lambda>(th, s).
     if credit_mode s = 1
     then map_option (\<lambda>(l, s'). (th\<lparr>locals := time_batch_start (now_batch E) l\<rparr>, s')) (time_credit_gate (time_env E) (now_gate E) (locals th, s))
     else map_option (\<lambda>(k, s'). (th\<lparr>burst := k\<rparr>, s')) (kernel_credit_gate (kcredit_env E) (burst th, s)))"

section \<open>Squad accounting\<close>

definition sd_message :: "host \<Rightarrow> int \<Rightarrow> int \<Rightarrow> 'a bless_state_scheme \<Rightarrow> string" where
  "sd_message h sp kseq s = snprintf_buf 200 (''SD pid='' @ dec (getpid h) @ '' t='' @ tenant_id s @ '' sp='' @ dec_int sp @ '' kseq='' @ dec_int kseq)"

definition squad_account :: "host \<Rightarrow> 'a bless_state_scheme \<Rightarrow> 'a bless_state_scheme" where
  "squad_account h s =
     (let kseq = wrap64 (kernel_seq s + 1); sp = wrap32 (squad_prog s + 1);
          s1 = s\<lparr>kernel_seq := kseq, squad_prog := sp\<rparr>;
          s2 = (if sp \<ge> squad_size s1 then s1\<lparr>squad_prog := 0\<rparr> else s1)
      in if share_quota s2 > 0 \<and> sp \<ge> share_quota s2
         then let was = sd_sent s2; s3 = s2\<lparr>sd_sent := 1\<rparr>
              in if was = 0 \<and> master_fd s3 \<ge> 0 then master_send (sd_message h sp kseq s3) s3 else s3
         else s2)"

section \<open>Launches\<close>

definition run_kernel :: "host \<Rightarrow> int \<Rightarrow> 'a bless_state_scheme call_env \<Rightarrow> thread \<times> 'a bless_state_scheme \<Rightarrow>
    (int \<times> ctx) \<times> thread \<times> 'a bless_state_scheme" where
  "run_kernel h rc E = (\<lambda>(th, s).
     let (r, st, s') = with_guard (cuda h) (switch_us E) (\<lambda>(st, s). ((rc, current_ctx st), st, priority_queue_done s)) (stack th, s)
     in (r, th\<lparr>stack := st\<rparr>, s'))"

definition enter_library :: "host \<Rightarrow> thread \<times> 'a bless_state_scheme \<Rightarrow> thread \<times> 'a bless_state_scheme" where
  "enter_library h = (\<lambda>(th, s).
     let (st, s') = attach_runtime_if_needed (cuda h) (ensure_init h (stack th, s)) in (th\<lparr>stack := st\<rparr>, s'))"

definition bless_cudaLaunchKernel :: "host \<Rightarrow> int \<Rightarrow> 'a bless_state_scheme call_env \<Rightarrow> thread \<times> 'a bless_state_scheme \<Rightarrow>
    ((int \<times> ctx) \<times> thread \<times> 'a bless_state_scheme) option" where
  "bless_cudaLaunchKernel h rc E u =
     (let (th, s) = enter_library h u in do {
        (s1, _) \<leftarrow> priority_queue_gate (prio_env E) s;
        s2 \<leftarrow> route_gate E (after E 0 s1);
        s3 \<leftarrow> preempt_gate E (after E 1 s2);
        (th', s4) \<leftarrow> credit_gate E (th, after E 2 s3);
        Some (run_kernel h rc E (th', squad_account h (after E 3 s4)))
      })"

text \<open>The driver entry point repeats the sequence around the driver's launch.\<close>

definition bless_cuLaunchKernel :: "host \<Rightarrow> int \<Rightarrow> 'a bless_state_scheme call_env \<Rightarrow> thread \<times> 'a bless_state_scheme \<Rightarrow>
    ((int \<times> ctx) \<times> thread \<times> 'a bless_state_scheme) option" where
  "bless_cuLaunchKernel h rc E u =
     (let (th, s) = enter_library h u in do {
        (s1, _) \<leftarrow> priority_queue_gate (prio_env E) s;
        s2 \<leftarrow> route_gate E (after E 0 s1);
        s3 \<leftarrow> preempt_gate E (after E 1 s2);
        (th', s4) \<leftarrow> credit_gate E (th, after E 2 s3);
        Some (run_kernel h rc E (th', squad_account h (after E 3 s4)))
      })"

section \<open>Memory\<close>

definition cudaErrorMemoryAlloc :: int where "cudaErrorMemoryAlloc = 2"

text \<open>\<open>real\<close>: the code that the real function returns and the pointer that it stores.\<close>

definition tracked_alloc :: "host \<Rightarrow> int \<times> int \<Rightarrow> int \<times> nat \<Rightarrow> nat \<Rightarrow> thread \<times> 'a bless_state_scheme \<Rightarrow> int \<times> thread \<times> 'a bless_state_scheme" where
  "tracked_alloc h us ret n u =
     (let (th, s) = enter_library h u; s1 = s\<lparr>any_alloc := True\<rparr> in
      if \<not> check_quota n s1 then (cudaErrorMemoryAlloc, th, s1)
      else let (r, st, s2) = with_guard (cuda h) us
                 (\<lambda>(st, s). (fst ret, st, if fst ret = 0 \<and> snd ret \<noteq> 0 then track_alloc (snd ret) n s else s)) (stack th, s1)
           in (r, th\<lparr>stack := st\<rparr>, s2))"

definition bless_cudaMalloc :: "host \<Rightarrow> int \<times> int \<Rightarrow> int \<times> nat \<Rightarrow> nat \<Rightarrow> thread \<times> 'a bless_state_scheme \<Rightarrow> int \<times> thread \<times> 'a bless_state_scheme" where
  "bless_cudaMalloc h us ret n u = tracked_alloc h us ret n u"

definition bless_cudaMallocManaged :: "host \<Rightarrow> int \<times> int \<Rightarrow> int \<times> nat \<Rightarrow> nat \<Rightarrow> thread \<times> 'a bless_state_scheme \<Rightarrow> int \<times> thread \<times> 'a bless_state_scheme" where
  "bless_cudaMallocManaged h us ret n u = tracked_alloc h us ret n u"

text \<open>\<open>owner\<close>: what \<open>cuPointerGetAttribute\<close> reports as the context of the pointer.\<close>

definition bless_cudaFree :: "host \<Rightarrow> int \<times> int \<Rightarrow> ctx \<Rightarrow> int \<Rightarrow> nat \<Rightarrow> thread \<times> 'a bless_state_scheme \<Rightarrow> int \<times> thread \<times> 'a bless_state_scheme" where
  "bless_cudaFree h us owner rc ptr u =
     (let (th, s) = enter_library h u; s1 = track_free ptr s in
      case owner of
        Some c \<Rightarrow> (rc, th\<lparr>stack := cuCtxPopCurrent (cuCtxPushCurrent (cuda h) (Some c) (stack th))\<rparr>, s1)
      | None \<Rightarrow> let (r, st, s2) = with_guard (cuda h) us (\<lambda>u. (rc, u)) (stack th, s1) in (r, th\<lparr>stack := st\<rparr>, s2))"

section \<open>Pass-throughs, synchronisation, queries\<close>

text \<open>\<open>cudaMemcpy\<close>, \<open>cudaMemcpyAsync\<close>, \<open>cudaGraphLaunch\<close>; \<open>cudaStreamCreate\<close> and \<open>cudaStreamDestroy\<close> also attach.\<close>

definition pass_through :: "host \<Rightarrow> int \<Rightarrow> thread \<times> 'a bless_state_scheme \<Rightarrow> int \<times> thread \<times> 'a bless_state_scheme" where
  "pass_through h rc = (\<lambda>(th, s). let (st, s') = ensure_init h (stack th, s) in (rc, th\<lparr>stack := st\<rparr>, s'))"

definition pass_attached :: "host \<Rightarrow> int \<Rightarrow> thread \<times> 'a bless_state_scheme \<Rightarrow> int \<times> thread \<times> 'a bless_state_scheme" where
  "pass_attached h rc u = (rc, enter_library h u)"

definition bless_cudaDeviceSynchronize :: "host \<Rightarrow> int \<Rightarrow> int \<Rightarrow> thread \<times> 'a bless_state_scheme \<Rightarrow> int \<times> thread \<times> 'a bless_state_scheme" where
  "bless_cudaDeviceSynchronize h rc now u =
     (let (th, s) = enter_library h u in
      if credit_mode s = 1 then (let (l, s') = time_batch_end_and_charge now (locals th, s) in (rc, th\<lparr>locals := l\<rparr>, s'))
      else (rc, th, s))"

definition bless_cudaStreamSynchronize :: "host \<Rightarrow> int \<Rightarrow> int \<Rightarrow> thread \<times> 'a bless_state_scheme \<Rightarrow> int \<times> thread \<times> 'a bless_state_scheme" where
  "bless_cudaStreamSynchronize h rc now u =
     (let (th, s) = enter_library h u in
      if credit_mode s = 1 then (let (l, s') = time_batch_end_and_charge now (locals th, s) in (rc, th\<lparr>locals := l\<rparr>, s'))
      else (rc, th, s))"

definition bless_query_sm_affinity :: "host \<Rightarrow> int \<times> int \<Rightarrow> thread \<times> 'a bless_state_scheme \<Rightarrow> int \<times> thread \<times> 'a bless_state_scheme" where
  "bless_query_sm_affinity h us = (\<lambda>(th, s).
     let (r, st, s') = with_guard (cuda h) us
           (\<lambda>(st, s). (case exec_affinity (cuda h) (current_ctx st) of Some n \<Rightarrow> n | None \<Rightarrow> - 1, st, s)) (ensure_init h (stack th, s))
     in (r, th\<lparr>stack := st\<rparr>, s'))"

text \<open>
  \<open>cuCtxSetCurrent\<close> replaces the top of the stack, null pops it; \<open>set_ok\<close> says whether the driver
  accepts the context.
\<close>

definition cuCtxSetCurrent :: "(ctx \<Rightarrow> bool) \<Rightarrow> ctx \<Rightarrow> ctx list \<Rightarrow> bool \<times> ctx list" where
  "cuCtxSetCurrent set_ok c st =
     (if \<not> set_ok c then (False, st) else (True, case c of None \<Rightarrow> tl st | Some k \<Rightarrow> Some k # tl st))"

definition bless_bind_thread :: "host \<Rightarrow> (ctx \<Rightarrow> bool) \<Rightarrow> int \<Rightarrow> thread \<times> 'a bless_state_scheme \<Rightarrow> thread \<times> 'a bless_state_scheme" where
  "bless_bind_thread h set_ok r u =
     (let (th, s) = enter_library h u; target = (if r = 1 then ctx_unlimited s else ctx_limited s) in
      if current_ctx (stack th) = target then (th, s)
      else let (ok, st) = cuCtxSetCurrent set_ok target (stack th);
               st' = (if ok then st else snd (cuCtxSetCurrent set_ok target (cuCtxPopCurrent (cuCtxPushCurrent (cuda h) target st))))
           in (th\<lparr>stack := st'\<rparr>, s))"

definition bless_current_route :: "host \<Rightarrow> thread \<times> 'a bless_state_scheme \<Rightarrow> Route \<times> thread \<times> 'a bless_state_scheme" where
  "bless_current_route h = (\<lambda>(th, s). let (st, s') = ensure_init h (stack th, s) in (route s', th\<lparr>stack := st\<rparr>, s'))"

definition bless_is_boosting :: "'a bless_state_scheme \<Rightarrow> int" where
  "bless_is_boosting s = (if boost_mode s then 1 else 0)"

section \<open>System calls\<close>

definition NV_IOCTL_MAGIC :: nat where "NV_IOCTL_MAGIC = 0x46"

definition ENOSYS_RESULT :: int where "ENOSYS_RESULT = - 1"

text \<open>\<open>real_ioctl\<close> is \<open>None\<close> when the symbol cannot be resolved.\<close>

definition bless_ioctl :: "int option \<Rightarrow> nat \<Rightarrow> 'a bless_state_scheme \<Rightarrow> int \<times> 'a bless_state_scheme" where
  "bless_ioctl real_ioctl request s = (case real_ioctl of None \<Rightarrow> (ENOSYS_RESULT, s)
     | Some r \<Rightarrow>
         let magic = (request div 256) mod 256;
             s1 = (if syscall_intercept_enabled s
                   then let s' = s\<lparr>ioctl_count := wrap64 (ioctl_count s + 1)\<rparr> in
                     if magic = NV_IOCTL_MAGIC \<or> magic = 0x2A then s'\<lparr>ioctl_nvidia_count := wrap64 (ioctl_nvidia_count s' + 1)\<rparr> else s'
                   else s)
         in (r, s1))"

text \<open>\<open>real_mmap\<close>: \<open>None\<close> unresolved, \<open>Some None\<close> when the call fails, otherwise the address.\<close>

definition bless_mmap :: "nat option option \<Rightarrow> nat \<Rightarrow> bool \<Rightarrow> 'a bless_state_scheme \<Rightarrow> nat option \<times> 'a bless_state_scheme" where
  "bless_mmap real_mmap len map_shared s = (case real_mmap of None \<Rightarrow> (None, s)
     | Some res \<Rightarrow>
         let s1 = (if syscall_intercept_enabled s
                   then let s' = s\<lparr>mmap_count := wrap64 (mmap_count s + 1)\<rparr> in
                     if res \<noteq> None
                     then let s'' = s'\<lparr>mmap_total_bytes := wrap64 (mmap_total_bytes s' + int len)\<rparr> in
                       if len \<ge> 4096 \<and> map_shared then s''\<lparr>mmap_gpu_count := wrap64 (mmap_gpu_count s'' + 1)\<rparr> else s''
                     else s'
                   else s)
         in (res, s1))"

section \<open>Destructor\<close>

definition destroy_if :: "ctx \<Rightarrow> 'a proc \<Rightarrow> 'a proc" where
  "destroy_if c u = (case c of None \<Rightarrow> u | Some k \<Rightarrow> cuCtxDestroy k u)"

definition bless_dtor :: "host \<Rightarrow> 'a proc \<Rightarrow> 'a proc" where
  "bless_dtor h = (\<lambda>(st, s).
     let s1 = (if master_fd s \<ge> 0 then master_send (snprintf_buf 128 (''BYE pid='' @ dec (getpid h) @ '' t='' @ tenant_id s)) s else s);
         s2 = s1\<lparr>ctrl_running := False\<rparr>;
         (st3, s3) = destroy_if (ctx_unlimited s2) (destroy_if (ctx_limited s2) (st, s2))
     in (st3, if master_fd s3 \<ge> 0 then s3\<lparr>master_fd := - 1\<rparr> else s3))"

section \<open>Squad accounting\<close>

definition squad_inv :: "host \<Rightarrow> 'a bless_state_scheme \<Rightarrow> nat \<Rightarrow> 'a bless_state_scheme \<Rightarrow> bool" where
  "squad_inv h s0 n s \<longleftrightarrow> share_quota s = share_quota s0 \<and> squad_size s = squad_size s0 \<and> master_fd s = master_fd s0 \<and>
     master_path s = master_path s0 \<and> tenant_id s = tenant_id s0 \<and> kernel_seq s = kernel_seq s0 + int n \<and>
     0 \<le> squad_prog s \<and> squad_prog s < squad_size s \<and>
     (if int n < share_quota s0 then squad_prog s = int n \<and> sd_sent s = 0 \<and> master_sent s = master_sent s0
      else sd_sent s = 1 \<and> master_sent s = master_sent s0 @ [sd_message h (share_quota s0) (kernel_seq s0 + share_quota s0) s0])"

lemma sd_message_cong: "tenant_id s = tenant_id t \<Longrightarrow> sd_message h sp k s = sd_message h sp k t"
  by (simp add: sd_message_def)

lemma squad_inv_step:
  assumes "squad_inv h s0 n s" and "1 \<le> share_quota s0" and "share_quota s0 \<le> squad_size s0" and "squad_size s0 \<le> 2147483647"
    and "0 \<le> master_fd s0" and "master_path s0 \<noteq> []" and "- 9223372036854775808 \<le> kernel_seq s0" and "kernel_seq s0 + int (Suc n) \<le> 9223372036854775807"
  shows "squad_inv h s0 (Suc n) (squad_account h s)"
proof -
  let ?sp = "squad_prog s + 1" and ?k = "kernel_seq s0 + int (Suc n)"
  have w: "wrap32 ?sp = ?sp" using assms(1,4) by (intro wrap32_id) (simp add: squad_inv_def in_i32_def)
  have "in_i64 (kernel_seq s + 1)" using assms(1,7,8) by (simp add: squad_inv_def in_i64_def)
  then have k: "wrap64 (kernel_seq s + 1) = ?k" using assms(1) by (simp add: wrap64_id squad_inv_def)
  define s1 where "s1 = s\<lparr>kernel_seq := ?k, squad_prog := (if squad_size s \<le> ?sp then 0 else ?sp)\<rparr>"
  have e: "squad_account h s = (if share_quota s > 0 \<and> ?sp \<ge> share_quota s
      then if sd_sent s = 0 \<and> master_fd s \<ge> 0 then master_send (sd_message h ?sp ?k (s1\<lparr>sd_sent := 1\<rparr>)) (s1\<lparr>sd_sent := 1\<rparr>) else s1\<lparr>sd_sent := 1\<rparr>
      else s1)"
    by (simp add: squad_account_def Let_def w k s1_def)
  show ?thesis
  proof (cases "int n < share_quota s0")
    case True
    then have p: "squad_prog s = int n" "sd_sent s = 0" using assms(1) by (auto simp: squad_inv_def)
    show ?thesis
    proof (cases "int (Suc n) < share_quota s0")
      case True
      then show ?thesis using assms e p by (auto simp: squad_inv_def s1_def)
    next
      case False
      then have q: "share_quota s0 = int n + 1" using True by simp
      have "sd_message h (int n + 1) ?k (s1\<lparr>sd_sent := 1\<rparr>) = sd_message h (int n + 1) ?k s0"
        using assms(1) by (intro sd_message_cong) (simp add: s1_def squad_inv_def)
      then show ?thesis using assms e p q by (auto simp: squad_inv_def s1_def master_send_def algebra_simps)
    qed
  next
    case False
    then show ?thesis using assms e by (auto simp: squad_inv_def s1_def)
  qed
qed

text \<open>
  C22. The share of a squad is reported exactly once: with a quota no larger than the squad, after any
  number of launches the master has received no message before the kernel that fills the quota
  and exactly one from then on, with the number of that kernel, although the progress counter
  starts over with every squad.
\<close>

theorem share_reported_exactly_once:
  assumes "squad_prog s = 0" and "sd_sent s = 0" and "1 \<le> share_quota s" and "share_quota s \<le> squad_size s" and "squad_size s \<le> 2147483647"
    and "0 \<le> master_fd s" and "master_path s \<noteq> []" and "0 \<le> kernel_seq s" and "kernel_seq s + int n \<le> 9223372036854775807"
  shows "master_sent ((squad_account h ^^ n) s) = master_sent s @
      (if int n < share_quota s then [] else [sd_message h (share_quota s) (kernel_seq s + share_quota s) s]) \<and>
    kernel_seq ((squad_account h ^^ n) s) = kernel_seq s + int n"
proof -
  have "squad_inv h s m ((squad_account h ^^ m) s)" if "m \<le> n" for m
    using that
  proof (induction m)
    case 0
    then show ?case using assms by (simp add: squad_inv_def)
  next
    case (Suc m)
    then have "kernel_seq s + int (Suc m) \<le> 9223372036854775807" using assms(9) by simp
    then show ?case using Suc assms by (simp add: squad_inv_step del: of_nat_Suc)
  qed
  from this [of n] show ?thesis by (simp add: squad_inv_def split: if_splits)
qed

text \<open>
  A quota larger than the squad is never reported: the progress counter is reset before it
  reaches the quota.
\<close>

theorem share_above_squad_never_reported:
  assumes "0 \<le> squad_prog s" and "squad_prog s < squad_size s" and "squad_size s < share_quota s" and "squad_size s \<le> 2147483647"
  shows "master_sent ((squad_account h ^^ n) s) = master_sent s \<and> sd_sent ((squad_account h ^^ n) s) = sd_sent s"
proof -
  let ?I = "\<lambda>t. 0 \<le> squad_prog t \<and> squad_prog t < squad_size t \<and> squad_size t = squad_size s \<and> share_quota t = share_quota s \<and>
    master_sent t = master_sent s \<and> sd_sent t = sd_sent s"
  have step: "?I t \<Longrightarrow> ?I (squad_account h t)" for t
  proof -
    assume i: "?I t"
    have "wrap32 (squad_prog t + 1) = squad_prog t + 1" using i assms(4) by (intro wrap32_id) (simp add: in_i32_def)
    then show "?I (squad_account h t)" using i assms(3) by (simp add: squad_account_def Let_def)
  qed
  have "?I ((squad_account h ^^ n) s)" by (induction n) (use assms step in auto)
  then show ?thesis by simp
qed

section \<open>Launches that go through\<close>

definition quiet_launch :: "'s call_env" where
  "quiet_launch = \<lparr>prio_env = [], gate_env = [], pause_env = [], prio2_env = [], time_env = [], kcredit_env = replicate 5 (False, \<lambda>s. s),
     after = (\<lambda>_ s. s), now_gate = 0, now_batch = 0, switch_us = (0, 0)\<rparr>"

definition gates_open :: "'a bless_state_scheme \<Rightarrow> bool" where
  "gates_open s \<longleftrightarrow> inited s \<and> rt_attached s \<and> reconf_gate s = 0 \<and> \<not> pause_mode s \<and> \<not> urgent_pending s \<and> \<not> preempt_requested s \<and>
     current_priority s \<noteq> BACKGROUND"

definition credit_left :: "thread \<Rightarrow> 'a bless_state_scheme \<Rightarrow> bool" where
  "credit_left th s \<longleftrightarrow> kpc (burst th) = KIdle \<and> (boost_mode s \<or>
     (if credit_mode s = 1 then time_unlimited s \<or> time_credit_us s > 0 else credit_remain s \<noteq> 0 \<or> tl_burst (burst th) > 0))"

lemma kernel_gate_returns:
  assumes "kpc t = KIdle" and "boost_mode s \<or> credit_remain s \<noteq> 0 \<or> tl_burst t > 0"
  shows "\<exists>r. kernel_credit_gate (replicate 5 (False, \<lambda>s. s)) (t, s) = Some r"
proof -
  have r: "replicate 5 (False, \<lambda>s. s) = [(False, \<lambda>s. s), (False, \<lambda>s. s), (False, \<lambda>s. s), (False, \<lambda>s. s), (False, \<lambda>s. s)]"
    by (simp add: eval_nat_numeral)
  show ?thesis unfolding r using assms
    by (auto simp: kernel_credit_gate_def kcredit_body_def kcredit_tick_def kgate_step.simps poll.simps Let_def)
qed

lemma enter_inited: "inited s \<Longrightarrow> rt_attached s \<Longrightarrow> enter_library h (th, s) = (th, s)"
  by (simp add: enter_library_def ensure_init_def attach_runtime_if_needed_def)

lemma prio_gate_free:
  "current_priority s \<noteq> BACKGROUND \<Longrightarrow> \<not> urgent_pending s \<Longrightarrow>
   priority_queue_gate [] s = Some (queue_add (current_priority s) 1 s, [])"
  by (cases "current_priority s") (simp_all add: priority_queue_gate_def yield_loop_def poll_exit yield_body_def)

lemma wait_while_pass: "\<not> P s \<Longrightarrow> wait_while P es s = Some s"
  by (simp add: wait_while_def poll_exit)

lemma queue_add_frame [simp]:
  "inited (queue_add p d s) = inited s" "rt_attached (queue_add p d s) = rt_attached s" "reconf_gate (queue_add p d s) = reconf_gate s"
  "pause_mode (queue_add p d s) = pause_mode s" "route (queue_add p d s) = route s" "boost_mode (queue_add p d s) = boost_mode s"
  "credit_mode (queue_add p d s) = credit_mode s" "credit_remain (queue_add p d s) = credit_remain s"
  "time_unlimited (queue_add p d s) = time_unlimited s" "time_credit_us (queue_add p d s) = time_credit_us s"
  by (simp_all add: queue_add_def)

lemma credit_left_queue [simp]: "credit_left th (queue_add p d s) = credit_left th s"
  by (simp add: credit_left_def)

lemma credit_gate_returns:
  assumes "credit_left th s" and "kcredit_env E = replicate 5 (False, \<lambda>s. s)"
  shows "\<exists>th' s'. credit_gate E (th, s) = Some (th', s') \<and> stack th' = stack th"
proof (cases "credit_mode s = 1")
  case True
  then have "time_credit_gate (time_env E) (now_gate E) (locals th, s) = Some (locals th, s)"
    using assms(1) by (auto simp: credit_left_def time_credit_gate_cases)
  then show ?thesis using True by (simp add: credit_gate_def)
next
  case False
  then have "kpc (burst th) = KIdle" "boost_mode s \<or> credit_remain s \<noteq> 0 \<or> tl_burst (burst th) > 0"
    using assms(1) by (auto simp: credit_left_def)
  from kernel_gate_returns [OF this] obtain r where "kernel_credit_gate (kcredit_env E) (burst th, s) = Some r"
    unfolding assms(2) by blast
  then show ?thesis using False by (cases r) (simp add: credit_gate_def)
qed

lemma launch_steps:
  assumes "enter_library h u = (th, s)" and "priority_queue_gate (prio_env E) s = Some (s1, rest)"
    and "route_gate E (after E 0 s1) = Some sb" and "preempt_gate E (after E 1 sb) = Some sc"
    and "credit_gate E (th, after E 2 sc) = Some (th', s4)"
  shows "bless_cudaLaunchKernel h rc E u = Some (run_kernel h rc E (th', squad_account h (after E 3 s4)))"
  using assms by (simp add: bless_cudaLaunchKernel_def)

lemma launch_open:
  assumes "inited s" and "rt_attached s" and "\<not> urgent_pending s" and "current_priority s \<noteq> BACKGROUND"
    and "prio_env E = []" and "\<And>i t. after E i t = t" and "kcredit_env E = replicate 5 (False, \<lambda>s. s)"
    and "route_gate E (queue_add (current_priority s) 1 s) = Some sb" and "\<not> preempt_requested sb" and "credit_left th sb"
  shows "\<exists>r. bless_cudaLaunchKernel h rc E (th, s) = Some r \<and> fst (fst r) = rc"
proof -
  obtain th' s4 where c: "credit_gate E (th, sb) = Some (th', s4)" using credit_gate_returns [OF assms(10,7)] by blast
  have "bless_cudaLaunchKernel h rc E (th, s) = Some (run_kernel h rc E (th', squad_account h (after E 3 s4)))"
  proof (rule launch_steps [OF enter_inited [OF assms(1,2)], where sb = sb and sc = sb])
    show "priority_queue_gate (prio_env E) s = Some (queue_add (current_priority s) 1 s, [])"
      unfolding assms(5) by (rule prio_gate_free [OF assms(4,3)])
  qed (use assms(6,8,9) c in \<open>simp_all add: preempt_gate_def\<close>)
  moreover have "fst (fst (run_kernel h rc E v)) = rc" for v
    by (cases v) (simp add: run_kernel_def with_guard_def split: prod.splits)
  ultimately show ?thesis by blast
qed

text \<open>
  C23. An undisturbed launch terminates: when the gates are open and the thread has credit (boost,
  unlimited, time left, kernels left in the counter or in its burst), the call returns the code
  of the real launch without waiting for anybody.
\<close>

theorem launch_returns_when_open:
  assumes "gates_open s" and "credit_left th s"
  shows "\<exists>th' s' c. bless_cudaLaunchKernel h rc quiet_launch (th, s) = Some ((rc, c), th', s')"
proof -
  let ?s1 = "queue_add (current_priority s) 1 s"
  have "route_gate quiet_launch ?s1 = Some ?s1"
    using assms(1) by (simp add: route_gate_def wait_while_pass gates_open_def)
  then have "\<exists>r. bless_cudaLaunchKernel h rc quiet_launch (th, s) = Some r \<and> fst (fst r) = rc"
    using assms by (intro launch_open [where sb = ?s1]) (simp_all add: gates_open_def quiet_launch_def)
  then show ?thesis by (metis prod.collapse)
qed

section \<open>Launches that wait\<close>

definition paused :: "'a bless_state_scheme \<Rightarrow> bool" where
  "paused s \<longleftrightarrow> route s = LIMITED \<and> pause_mode s"

lemma queue_add_paused [simp]: "paused (queue_add p d s) = paused s"
  by (simp add: paused_def)

text \<open>The priority gate keeps whatever does not depend on the queue lengths.\<close>

lemma prio_gate_keeps:
  fixes s :: "'a bless_state_scheme"
  assumes "priority_queue_gate es s = Some (s', rest)" and "I s" and "\<forall>e \<in> set es. \<forall>t. I t \<longrightarrow> I (e t)"
    and q: "\<And>p d t. I (queue_add p d t) = I t"
  shows "I s'"
proof -
  let ?I = "\<lambda>(w :: nat, a :: bool, t :: 'a bless_state_scheme). I t"
  have keep: "?I (g c)" if "?I c" "g \<in> set (map on_globals es)" for g c
    using that assms(3) by (cases c) (auto simp: on_globals_def)
  have y: "I s2 \<and> set r \<subseteq> set (map on_globals es)" if "yield_loop my es (queue_add my 1 s) = Some (s2, r)" for my s2 r
  proof (cases "my = URGENT")
    case True
    then show ?thesis using that assms(2) q by (auto simp: yield_loop_def)
  next
    case False
    then have p: "poll (yield_body my) (map on_globals es) (0, False, queue_add my 1 s) = Some (s2, r)"
      using that by (simp add: yield_loop_def)
    have "\<exists>t. ?I t \<and> yield_body my t = Inr s2"
    proof (rule poll_result [OF p, where I = ?I])
      fix c c' g assume i: "?I c" and b: "yield_body my c = Inl c'" and g: "g \<in> set (map on_globals es)"
      have "?I c'" using i b by (cases c) (auto simp: yield_body_def Let_def q split: if_splits)
      then show "?I (g c')" using g by (rule keep)
    qed (use assms(2) q in simp)
    then have "I s2" by (auto simp: yield_body_def Let_def q split: if_splits)
    then show ?thesis using poll_rest [OF p] by blast
  qed
  obtain s2 r where s2: "yield_loop (current_priority s) es (queue_add (current_priority s) 1 s) = Some (s2, r)"
    and t: "(if current_priority s = BACKGROUND then poll background_body r (0, False, s2) else Some (s2, r)) = Some (s', rest)"
    using assms(1) by (auto simp: priority_queue_gate_def Let_def split: option.splits)
  show ?thesis
  proof (cases "current_priority s = BACKGROUND")
    case True
    then have p: "poll background_body r (0, False, s2) = Some (s', rest)" using t by simp
    have "\<exists>t. ?I t \<and> background_body t = Inr s'"
    proof (rule poll_result [OF p, where I = ?I])
      fix c c' g assume i: "?I c" and b: "background_body c = Inl c'" and g: "g \<in> set r"
      have "?I c'" using i b by (cases c) (auto simp: background_body_def Let_def split: if_splits)
      moreover have "g \<in> set (map on_globals es)" using y [OF s2] g by blast
      ultimately show "?I (g c')" by (rule keep)
    qed (use y [OF s2] in simp)
    then show ?thesis by (auto simp: background_body_def Let_def split: if_splits)
  next
    case False
    then show ?thesis using t y [OF s2] by simp
  qed
qed

lemma wait_while_keeps:
  assumes "wait_while P es s = Some s'" and "I s" and "\<forall>e \<in> set es. \<forall>t. I t \<longrightarrow> I (e t)"
  shows "I s' \<and> \<not> P s'"
proof -
  obtain r where p: "poll (\<lambda>s. if P s then Inl s else Inr s) es s = Some (s', r)"
    using assms(1) by (auto simp: wait_while_def)
  have "\<exists>t. I t \<and> (if P t then Inl t else Inr t) = (Inr s' :: 'a + 'a)"
    by (rule poll_result [where I = I, OF p assms(2)]) (use assms(3) in \<open>auto split: if_splits\<close>)
  then show ?thesis by (auto split: if_splits)
qed

lemma paused_launch_lemma:
  fixes s :: "'a bless_state_scheme"
  assumes "inited s" and "rt_attached s" and "paused s"
    and "\<forall>e \<in> set (prio_env E) \<union> set (gate_env E) \<union> set (pause_env E) \<union> {after E 0}. \<forall>t. paused t \<longrightarrow> paused (e t)"
  shows "bless_cudaLaunchKernel h rc E (th, s) = None"
proof (cases "priority_queue_gate (prio_env E) s")
  case None
  then show ?thesis by (simp add: bless_cudaLaunchKernel_def enter_inited [OF assms(1,2)])
next
  case (Some r)
  obtain s1 rest where s1: "r = (s1, rest)" by (cases r)
  have "paused s1" using prio_gate_keeps [of "prio_env E" s s1 rest paused] Some s1 assms(3,4) by simp
  then have p: "paused (after E 0 s1)" using assms(4) by simp
  have "route_gate E (after E 0 s1) = None"
  proof (rule ccontr)
    assume "route_gate E (after E 0 s1) \<noteq> None"
    then obtain t s2 where g: "wait_while (\<lambda>s. reconf_gate s \<noteq> 0) (gate_env E) (after E 0 s1) = Some t"
      and w: "wait_while pause_mode (pause_env E) t = Some s2"
      using p by (auto simp: route_gate_def paused_def bind_eq_Some_conv split: if_splits)
    have "paused t" using wait_while_keeps [OF g, of paused] p assms(4) by simp
    then have "paused s2 \<and> \<not> pause_mode s2" using wait_while_keeps [OF w, of paused] assms(4) by simp
    then show False by (simp add: paused_def)
  qed
  then show ?thesis using Some s1 by (simp add: bless_cudaLaunchKernel_def enter_inited [OF assms(1,2)])
qed

text \<open>
  Pausing holds: while a tenant on the limited route is paused, no launch of it reaches the
  driver, whatever the other threads and the control server do short of lifting the pause or
  changing the route.
\<close>

theorem paused_launch_never_runs:
  fixes s :: "'a bless_state_scheme"
  assumes "inited s" and "rt_attached s" and "paused s"
    and "\<forall>e \<in> set (prio_env E) \<union> set (gate_env E) \<union> set (pause_env E) \<union> {after E 0}. \<forall>t. paused t \<longrightarrow> paused (e t)"
  shows "bless_cudaLaunchKernel h rc E (th, s) = None"
  by (rule paused_launch_lemma [OF assms])

text \<open>A tenant in time mode that has used up its time, with no other way past the gate.\<close>

definition starved :: "'a bless_state_scheme \<Rightarrow> bool" where
  "starved s \<longleftrightarrow> credit_mode s = 1 \<and> no_time_left s \<and> \<not> boost_mode s \<and> current_priority s \<noteq> URGENT"

lemma starved_frame [simp]: "starved (queue_add p d s) = starved s" "starved (priority_queue_done s) = starved s"
  by (simp_all add: starved_def no_time_left_def queue_add_def priority_queue_done_def Let_def)

lemma route_gate_keeps:
  assumes "route_gate E s = Some s'" and "I s" and "\<forall>e \<in> set (gate_env E) \<union> set (pause_env E). \<forall>t. I t \<longrightarrow> I (e t)"
  shows "I s'"
proof (cases "route s = LIMITED")
  case True
  then obtain t where g: "wait_while (\<lambda>s. reconf_gate s \<noteq> 0) (gate_env E) s = Some t" and p: "wait_while pause_mode (pause_env E) t = Some s'"
    using assms(1) by (auto simp: route_gate_def bind_eq_Some_conv)
  have "I t" using wait_while_keeps [OF g, of I] assms(2,3) by simp
  then show ?thesis using wait_while_keeps [OF p, of I] assms(3) by simp
next
  case False
  then show ?thesis using assms(1,2) by (simp add: route_gate_def)
qed

lemma preempt_gate_keeps_starved:
  assumes "preempt_gate E s = Some s'" and "starved s" and "\<forall>e \<in> set (prio2_env E). \<forall>t. starved t \<longrightarrow> starved (e t)"
  shows "starved s'"
proof (cases "preempt_requested s \<and> current_priority s \<noteq> URGENT")
  case True
  then obtain rest where "priority_queue_gate (prio2_env E) (priority_queue_done s) = Some (s', rest)"
    using assms(1) by (auto simp: preempt_gate_def)
  then show ?thesis using prio_gate_keeps [of "prio2_env E" "priority_queue_done s" s' rest starved] assms(2,3) by simp
next
  case False
  then show ?thesis using assms(1,2) by (auto simp: preempt_gate_def)
qed

lemma starved_launch_lemma:
  fixes s :: "'a bless_state_scheme"
  assumes "inited s" and "rt_attached s" and "starved s" and "tl_batch_kernel_count (locals th) = 0"
    and keep: "\<forall>e \<in> set (prio_env E) \<union> set (gate_env E) \<union> set (pause_env E) \<union> set (prio2_env E) \<union> {after E 0, after E 1, after E 2}.
           \<forall>t. starved t \<longrightarrow> starved (e t)"
    and "\<forall>e \<in> set (time_env E). \<forall>t. no_time_left t \<longrightarrow> no_time_left (snd e t)"
  shows "bless_cudaLaunchKernel h rc E (th, s) = None"
proof (rule ccontr)
  assume "bless_cudaLaunchKernel h rc E (th, s) \<noteq> None"
  then obtain s1 r s2 s3 where 1: "priority_queue_gate (prio_env E) s = Some (s1, r)" and 2: "route_gate E (after E 0 s1) = Some s2"
    and 3: "preempt_gate E (after E 1 s2) = Some s3" and c: "credit_gate E (th, after E 2 s3) \<noteq> None"
    by (auto simp: bless_cudaLaunchKernel_def enter_inited [OF assms(1,2)] bind_eq_Some_conv)
  have "starved s1" using prio_gate_keeps [OF 1, of starved] assms(3) keep by simp
  then have "starved s2" using route_gate_keeps [OF 2, of starved] keep by simp
  then have "starved s3" using preempt_gate_keeps_starved [OF 3] keep by simp
  then have s: "starved (after E 2 s3)" using keep by simp
  then have "time_credit_gate (time_env E) (now_gate E) (locals th, after E 2 s3) = None"
    using assms(4,6) by (intro gate_without_credit) (simp_all add: starved_def)
  then show False using c s by (simp add: credit_gate_def starved_def)
qed

section \<open>Contexts of launches\<close>

text \<open>
  C21. A kernel runs in the context of its route: with valid contexts, the real launch of
  \<open>cudaLaunchKernel\<close> and \<open>cuLaunchKernel\<close> happens in the limited or the unlimited context as the
  route says, or in the caller's own context when no limit is applied, and the call leaves the
  context stack of the thread as it was.
\<close>

theorem kernel_runs_in_route_context:
  assumes "api_ok (cuda h)" and "ctx_inv s" and "ctx_unlimited s \<noteq> None" and "run_kernel h rc E (th, s) = ((rc', c), th', s')"
  shows "rc' = rc \<and> stack th' = stack th \<and>
    c = (if \<not> limited_applied s then current_ctx (stack th) else if route s = UNLIMITED then ctx_unlimited s else ctx_limited s)"
proof -
  obtain p st1 s1 where g: "guard_enter (cuda h) (fst (switch_us E)) None (stack th, s) = (p, st1, s1)" by (meson prod_cases3)
  have "(rc', c) = (rc, current_ctx st1) \<and> stack th' = fst (guard_exit (snd (switch_us E)) p (st1, priority_queue_done s1))"
    using assms(4) g by (auto simp: run_kernel_def with_guard_def split: prod.splits)
  then show ?thesis using guard_context_lemma [OF assms(1-3) g, of "snd (switch_us E)" "priority_queue_done s1"] by simp
qed

section \<open>Allocations\<close>

text \<open>Memory calls of a thread with what the real functions return.\<close>

datatype mem_call = Malloc "int \<times> nat" nat | Managed "int \<times> nat" nat | Release ctx int nat

fun do_mem_call :: "host \<Rightarrow> int \<times> int \<Rightarrow> mem_call \<Rightarrow> thread \<times> 'a bless_state_scheme \<Rightarrow> thread \<times> 'a bless_state_scheme" where
  "do_mem_call h us (Malloc ret n) u = snd (bless_cudaMalloc h us ret n u)"
| "do_mem_call h us (Managed ret n) u = snd (bless_cudaMallocManaged h us ret n u)"
| "do_mem_call h us (Release owner rc p) u = snd (bless_cudaFree h us owner rc p u)"

text \<open>The driver hands out new addresses for requests of at least one byte; the counter does not overflow.\<close>

fun mem_call_ok :: "'a bless_state_scheme \<Rightarrow> mem_call \<Rightarrow> bool" where
  "mem_call_ok s (Malloc ret n) = (fst ret = 0 \<and> snd ret \<noteq> 0 \<longrightarrow> mem_ok s (snd ret) n \<and> in_i64 (mem_current_bytes s + int n))"
| "mem_call_ok s (Managed ret n) = (fst ret = 0 \<and> snd ret \<noteq> 0 \<longrightarrow> mem_ok s (snd ret) n \<and> in_i64 (mem_current_bytes s + int n))"
| "mem_call_ok s (Release owner rc p) = True"

fun mem_calls_ok :: "host \<Rightarrow> int \<times> int \<Rightarrow> mem_call list \<Rightarrow> thread \<times> 'a bless_state_scheme \<Rightarrow> bool" where
  "mem_calls_ok h us [] u = True"
| "mem_calls_ok h us (c # cs) u = (mem_call_ok (snd u) c \<and> mem_calls_ok h us cs (do_mem_call h us c u))"

definition mem_view :: "'a mem_state_scheme \<Rightarrow> int \<times> int \<times> bool \<times> (nat \<Rightarrow> nat option)" where
  "mem_view s = (mem_current_bytes s, mem_quota_bytes s, mem_tracking_enabled s, alloc_size_map s)"

lemma in_quota_view: "mem_view s = mem_view t \<Longrightarrow> bm.in_quota s = bm.in_quota t \<and> mem_limit s = mem_limit t"
proof -
  assume v: "mem_view s = mem_view t"
  then have "mem_live s = mem_live t" by (simp add: mem_view_def mem_live_def fun_eq_iff)
  moreover have "mem_wf s = mem_wf t" "mem_limit s = mem_limit t" "mem_current_bytes s = mem_current_bytes t"
    using v by (simp_all add: mem_view_def mem_wf_def mem_limit_def)
  ultimately show ?thesis unfolding bm.in_quota_def by simp
qed

lemma check_quota_view: "mem_view s = mem_view t \<Longrightarrow> check_quota n s = check_quota n t"
  by (simp add: check_quota_def mem_view_def)

lemma guard_mem_view:
  "guard_enter api e r (st, s) = (p, st', s') \<Longrightarrow> mem_view s' = mem_view s \<and> inited s' = inited s \<and> rt_attached s' = rt_attached s"
  by (auto simp: guard_enter_def guard_target_def switch_recorded_def mem_view_def Let_def split: if_splits)

lemma guard_exit_mem_view:
  "guard_exit e p (st, s) = (st', s') \<Longrightarrow> mem_view s' = mem_view s \<and> inited s' = inited s \<and> rt_attached s' = rt_attached s"
  by (auto simp: guard_exit_def mem_view_def split: if_splits)

definition quota_state :: "int \<Rightarrow> thread \<times> 'a bless_state_scheme \<Rightarrow> bool" where
  "quota_state L u \<longleftrightarrow> inited (snd u) \<and> rt_attached (snd u) \<and> bm.in_quota (snd u) \<and> mem_limit (snd u) = L"

lemma track_inited [simp]:
  "inited (track_alloc p n s) = inited s" "inited (track_free p s) = inited s"
  "rt_attached (track_alloc p n s) = rt_attached s" "rt_attached (track_free p s) = rt_attached s"
  by (simp_all add: track_alloc_def track_free_def Let_def)

lemma track_free_null: "track_free 0 s = s"
  by (simp add: track_free_def)

lemma alloc_quota_state:
  assumes "quota_state L u" and "mem_call_ok (snd u) (Malloc ret n)" and "tracked_alloc h us ret n u = (r, u')"
  shows "quota_state L u'"
proof -
  obtain th s where u: "u = (th, s)" by (cases u)
  have i: "inited s" "rt_attached s" "bm.in_quota s" "mem_limit s = L" using assms(1) by (simp_all add: quota_state_def u)
  let ?s1 = "s\<lparr>any_alloc := True\<rparr>"
  have v1: "mem_view ?s1 = mem_view s" by (simp add: mem_view_def)
  show ?thesis
  proof (cases "check_quota n ?s1")
    case False
    then show ?thesis using assms(3) i in_quota_view [OF v1] by (auto simp: tracked_alloc_def u enter_inited quota_state_def)
  next
    case True
    obtain p st2 s2 where g: "guard_enter (cuda h) (fst us) None (stack th, ?s1) = (p, st2, s2)" by (meson prod_cases3)
    note v2 = guard_mem_view [OF g]
    define s3 where "s3 = (if fst ret = 0 \<and> snd ret \<noteq> 0 then track_alloc (snd ret) n s2 else s2)"
    obtain st4 s4 where x: "guard_exit (snd us) p (st2, s3) = (st4, s4)" by (meson surj_pair)
    have u': "u' = (th\<lparr>stack := st4\<rparr>, s4)"
      using assms(3) True g x i by (simp add: tracked_alloc_def u enter_inited with_guard_def s3_def split: if_splits)
    have q2: "bm.in_quota s2" "mem_limit s2 = L" "mem_view s2 = mem_view s" using in_quota_view [of s2 s] v1 v2 i by simp_all
    have "bm.in_quota s3 \<and> mem_limit s3 = L"
    proof (cases "fst ret = 0 \<and> snd ret \<noteq> 0")
      case ok: True
      have "mem_ok s2 (snd ret) n \<and> in_i64 (mem_current_bytes s2 + int n)"
        using assms(2) ok q2(3) by (auto simp: u mem_ok_def mem_view_def)
      then have f: "bm.fits s2 (Alloc (snd ret) n)" by simp
      have "check_quota n s2" using True v2 check_quota_view [of s2 ?s1 n] by simp
      then show ?thesis using bm.in_quota_guarded [OF q2(1) f] q2(2) ok by (simp add: s3_def bm.guarded_add_def)
    qed (use q2 in \<open>auto simp: s3_def\<close>)
    moreover have "inited s3" "rt_attached s3" using v2 i by (simp_all add: s3_def)
    ultimately show ?thesis using in_quota_view [of s4 s3] guard_exit_mem_view [OF x] by (simp add: quota_state_def u')
  qed
qed

lemma free_quota_state:
  assumes "quota_state L u" and "bless_cudaFree h us owner rc ptr u = (r, u')"
  shows "quota_state L u'"
proof -
  obtain th s where u: "u = (th, s)" by (cases u)
  have i: "inited s" "rt_attached s" "bm.in_quota s" "mem_limit s = L" using assms(1) by (simp_all add: quota_state_def u)
  have q: "bm.in_quota (track_free ptr s) \<and> mem_limit (track_free ptr s) = L"
  proof (cases "ptr = 0")
    case False
    then show ?thesis using bm.in_quota_guarded [OF i(3), of "Free ptr"] i(4) by (simp add: nonnull_def)
  qed (use i in \<open>simp add: track_free_null\<close>)
  obtain p st2 s2 where g: "guard_enter (cuda h) (fst us) None (stack th, track_free ptr s) = (p, st2, s2)" by (meson prod_cases3)
  obtain st4 s4 where x: "guard_exit (snd us) p (st2, s2) = (st4, s4)" by (meson surj_pair)
  have "mem_view s4 = mem_view (track_free ptr s)" "inited s4" "rt_attached s4"
    using guard_mem_view [OF g] guard_exit_mem_view [OF x] i by simp_all
  then have "quota_state L (th\<lparr>stack := st4\<rparr>, s4)" using in_quota_view [of s4 "track_free ptr s"] q by (simp add: quota_state_def)
  moreover have "u' = (th\<lparr>stack := st4\<rparr>, s4) \<or> snd u' = track_free ptr s"
    using assms(2) g x i by (auto simp: bless_cudaFree_def u enter_inited with_guard_def Let_def split: option.splits)
  ultimately show ?thesis using q i by (auto simp: quota_state_def)
qed

lemma mem_call_quota_state:
  assumes "quota_state L u" and "mem_call_ok (snd u) c"
  shows "quota_state L (do_mem_call h us c u)"
proof -
  have m: "quota_state L (snd (tracked_alloc h us ret n u))" if "mem_call_ok (snd u) (Malloc ret n)" for ret n
    using alloc_quota_state [OF assms(1) that] by (metis prod.collapse)
  show ?thesis
  proof (cases c)
    case (Malloc ret n)
    with assms(2) m show ?thesis by (simp add: bless_cudaMalloc_def)
  next
    case (Managed ret n)
    with assms(2) m show ?thesis by (simp add: bless_cudaMallocManaged_def)
  next
    case (Release owner rc p)
    then show ?thesis using free_quota_state [OF assms(1)] by (metis do_mem_call.simps(3) prod.collapse)
  qed
qed

lemma mem_calls_quota_state:
  "quota_state L u \<Longrightarrow> mem_calls_ok h us cs u \<Longrightarrow> quota_state L (fold (do_mem_call h us) cs u)"
  by (induction cs arbitrary: u) (simp_all add: mem_call_quota_state)

text \<open>
  C14. The quota holds end to end in the interception library: after any sequence of \<open>cudaMalloc\<close>,
  \<open>cudaMallocManaged\<close> and \<open>cudaFree\<close> calls of a thread, successful, refused and failing ones,
  the memory on the books is the sum of the live allocations and within the quota.
\<close>

theorem allocations_respect_quota:
  assumes "inited s" and "rt_attached s" and "mem_tracking_enabled s" and "alloc_size_map s = Map.empty" and "mem_current_bytes s = 0"
    and "mem_calls_ok h us cs (th, s)" and "fold (do_mem_call h us) cs (th, s) = (th', s')"
  shows "mem_current_bytes s' = live_total (mem_live s') \<and> 0 \<le> mem_current_bytes s' \<and>
    (0 \<le> mem_quota_bytes s \<longrightarrow> mem_current_bytes s' \<le> mem_quota_bytes s)"
proof -
  have "mem_live s = (\<lambda>_. None)" using assms(4) by (simp add: mem_live_def fun_eq_iff)
  then have "bm.in_quota s" using assms(3-5) by (simp add: bm.in_quota_def mem_wf_def in_i64_def mem_limit_def)
  then have "quota_state (mem_limit s) (th, s)" using assms(1,2) by (simp add: quota_state_def)
  from mem_calls_quota_state [OF this assms(6)] have q: "bm.in_quota s'" "mem_limit s' = mem_limit s"
    by (simp_all add: assms(7) quota_state_def)
  from bm.in_quota_nonneg [OF q(1)] q show ?thesis by (auto simp: bm.in_quota_def mem_limit_def split: if_splits)
qed

section \<open>Destructor\<close>

lemma destroy_live: "live_ctxs (snd (destroy_if c u)) = (case c of None \<Rightarrow> live_ctxs (snd u) | Some k \<Rightarrow> removeAll k (live_ctxs (snd u)))"
  by (cases u) (simp add: destroy_if_def cuCtxDestroy_def split: option.split)

lemma destroy_frame:
  "ctrl_running (snd (destroy_if c u)) = ctrl_running (snd u)" "master_fd (snd (destroy_if c u)) = master_fd (snd u)"
  "master_sent (snd (destroy_if c u)) = master_sent (snd u)"
  by (cases u; simp add: destroy_if_def cuCtxDestroy_def split: option.split)+

text \<open>
  The destructor leaves nothing behind: the library's contexts no longer exist in the driver, the
  control server is told to stop, the socket to the master is closed, and the master has been
  told, as the last message, when there is one.
\<close>

theorem dtor_releases_everything:
  assumes "bless_dtor h (st, s) = (st', s')"
  shows "(\<forall>c. ctx_limited s = Some c \<or> ctx_unlimited s = Some c \<longrightarrow> c \<notin> set (live_ctxs s')) \<and> set (live_ctxs s') \<subseteq> set (live_ctxs s) \<and>
    \<not> ctrl_running s' \<and> master_fd s' < 0 \<and>
    (0 \<le> master_fd s \<and> master_path s \<noteq> [] \<longrightarrow> master_sent s' = master_sent s @ [snprintf_buf 128 (''BYE pid='' @ dec (getpid h) @ '' t='' @ tenant_id s)])"
proof -
  define s2 where "s2 = (if master_fd s \<ge> 0 then master_send (snprintf_buf 128 (''BYE pid='' @ dec (getpid h) @ '' t='' @ tenant_id s)) s else s)
    \<lparr>ctrl_running := False\<rparr>"
  define u where "u = destroy_if (ctx_unlimited s2) (destroy_if (ctx_limited s2) (st, s2))"
  have f: "ctx_limited s2 = ctx_limited s" "ctx_unlimited s2 = ctx_unlimited s" "live_ctxs s2 = live_ctxs s" "master_fd s2 = master_fd s"
    by (simp_all add: s2_def master_send_def)
  have s': "s' = (if master_fd (snd u) \<ge> 0 then (snd u)\<lparr>master_fd := - 1\<rparr> else snd u)"
    using assms unfolding u_def s2_def by (auto simp: bless_dtor_def Let_def split: prod.splits)
  have "live_ctxs s' = (case ctx_unlimited s of None \<Rightarrow> (case ctx_limited s of None \<Rightarrow> live_ctxs s | Some k \<Rightarrow> removeAll k (live_ctxs s))
      | Some j \<Rightarrow> removeAll j (case ctx_limited s of None \<Rightarrow> live_ctxs s | Some k \<Rightarrow> removeAll k (live_ctxs s)))"
    by (simp add: s' u_def destroy_live f split: option.split)
  moreover have "\<not> ctrl_running s'" "master_fd s' < 0" "master_sent s' = master_sent s2"
    by (simp_all add: s' u_def destroy_frame s2_def)
  moreover have "0 \<le> master_fd s \<and> master_path s \<noteq> [] \<longrightarrow>
      master_sent s2 = master_sent s @ [snprintf_buf 128 (''BYE pid='' @ dec (getpid h) @ '' t='' @ tenant_id s)]"
    by (simp add: s2_def master_send_def)
  ultimately show ?thesis by (auto split: option.splits)
qed

section \<open>Instances\<close>

definition sample_thread :: thread where
  "sample_thread = \<lparr>locals = tls_zero, burst = new_thread, stack = [Some 7]\<rparr>"

definition running_bless :: bless_state where
  "running_bless = initial_bless\<lparr>inited := True, rt_attached := True, time_unlimited := True, share_quota := 2, master_fd := 3, master_path := ''m''\<rparr>"

lemmas initial_defs = initial_bless_def initial_ctx_def ctx_state.defs sample_ctx_def qmd_state.defs sample_qmd_def mem_state.defs
  sample_mem_def time_state.defs sample_time_def

lemma running_fields [simp]:
  "inited running_bless" "rt_attached running_bless" "time_unlimited running_bless" "share_quota running_bless = 2" "master_fd running_bless = 3"
  "master_path running_bless = ''m''" "squad_prog running_bless = 0" "sd_sent running_bless = 0" "squad_size running_bless = 100"
  "kernel_seq running_bless = 0" "route running_bless = LIMITED" "\<not> pause_mode running_bless" "\<not> urgent_pending running_bless"
  "\<not> preempt_requested running_bless" "current_priority running_bless = NORMAL" "reconf_gate running_bless = 0" "credit_mode running_bless = 1"
  "mem_tracking_enabled running_bless" "alloc_size_map running_bless = Map.empty" "mem_current_bytes running_bless = 0"
  "mem_quota_bytes running_bless = 1000" "master_sent running_bless = []" "\<not> limited_applied running_bless"
  by (simp_all add: running_bless_def initial_defs)

theorem share_reported_exactly_once_witness:
  "length (master_sent ((squad_account (sample_host Map.empty) ^^ 250) running_bless)) = 1"
  using share_reported_exactly_once [of running_bless 250 "sample_host Map.empty"] by simp

theorem share_above_squad_never_reported_witness:
  "master_sent ((squad_account (sample_host Map.empty) ^^ 250) (running_bless\<lparr>share_quota := 200\<rparr>)) = []"
  using share_above_squad_never_reported [of "running_bless\<lparr>share_quota := 200\<rparr>" 250 "sample_host Map.empty"] by simp

theorem launch_returns_when_open_witness:
  "\<exists>th' s' c. bless_cudaLaunchKernel (sample_host Map.empty) 0 quiet_launch (sample_thread, running_bless) = Some ((0, c), th', s')"
  by (rule launch_returns_when_open) (simp_all add: gates_open_def credit_left_def sample_thread_def new_thread_def)

theorem paused_launch_never_runs_witness:
  "bless_cudaLaunchKernel (sample_host Map.empty) 0 (quiet_launch\<lparr>pause_env := replicate 9 (\<lambda>s. s\<lparr>boost_mode := True\<rparr>)\<rparr>)
     (sample_thread, running_bless\<lparr>pause_mode := True\<rparr>) = None"
  by (rule paused_launch_never_runs) (auto simp: paused_def quiet_launch_def)

theorem kernel_runs_in_route_context_witness:
  "snd (fst (run_kernel (sample_host Map.empty) 0 quiet_launch (sample_thread,
     running_bless\<lparr>ctx_limited := Some 2, ctx_unlimited := Some 1, limited_applied := True, live_ctxs := [2, 1]\<rparr>))) = Some 2"
proof -
  let ?s = "running_bless\<lparr>ctx_limited := Some 2, ctx_unlimited := Some 1, limited_applied := True, live_ctxs := [2, 1]\<rparr>"
  obtain rc' c th' s' where r: "run_kernel (sample_host Map.empty) 0 quiet_launch (sample_thread, ?s) = ((rc', c), th', s')"
    by (metis prod.collapse)
  have "api_ok (cuda (sample_host Map.empty))" using sample_api_ok by (simp add: sample_host_def)
  from kernel_runs_in_route_context [OF this _ _ r] have "c = Some 2" by (simp add: ctx_inv_def)
  then show ?thesis unfolding r by simp
qed

theorem allocations_respect_quota_witness:
  "mem_current_bytes (snd (fold (do_mem_call (sample_host Map.empty) (0, 0)) [Malloc (0, 16) 700, Managed (2, 0) 100, Release None 0 16]
     (sample_thread, running_bless))) \<le> 1000"
proof -
  let ?h = "sample_host Map.empty" and ?cs = "[Malloc (0, 16) 700, Managed (2, 0) 100, Release None 0 16]"
  obtain th' s' where f: "fold (do_mem_call ?h (0, 0)) ?cs (sample_thread, running_bless) = (th', s')" by (meson surj_pair)
  have "mem_calls_ok ?h (0, 0) ?cs (sample_thread, running_bless)" by (simp add: mem_ok_def in_i64_def)
  from allocations_respect_quota [OF _ _ _ _ _ this f] have "mem_current_bytes s' \<le> 1000" by simp
  then show ?thesis unfolding f by simp
qed

theorem dtor_releases_everything_witness:
  "set (live_ctxs (snd (bless_dtor (sample_host Map.empty) ([], running_bless\<lparr>ctx_limited := Some 2, ctx_unlimited := Some 1, live_ctxs := [2, 1]\<rparr>)))) = {}"
proof -
  let ?s = "running_bless\<lparr>ctx_limited := Some 2, ctx_unlimited := Some 1, live_ctxs := [2, 1]\<rparr>"
  obtain st' s' where d: "bless_dtor (sample_host Map.empty) ([], ?s) = (st', s')" by (meson surj_pair)
  have sub: "set (live_ctxs s') \<subseteq> {2, 1}" and no: "2 \<notin> set (live_ctxs s')" "1 \<notin> set (live_ctxs s')"
    using dtor_releases_everything [OF d] by simp_all
  then have "set (live_ctxs s') = {}" by (simp add: subset_insert)
  then show ?thesis unfolding d by simp
qed

end
