(* ===== verification/Spec2Isabelle.thy ===== *)
theory Spec2Isabelle
  imports CudaHooks BlessLaunch
begin

text \<open>
  Verification of the KRAKEN runtime (\<open>src/runtime\<close>), two shared libraries that are preloaded into
  the processes of GPU tenants.

  \<^bold>\<open>The program.\<close> The \<^emph>\<open>gating library\<close> makes sure that \<^emph>\<open>killer\<close> kernels of different tenants do
  not overlap. Its hooks (\<open>hooks/cuda_hooks.cpp\<close>) stand before the launch and allocation functions
  of CUDA; a launch that the killer policy recognises goes through the gate
  (\<open>gating/stream_gate.cpp\<close>), which waits until the tenant has time left in its slice and no peer is
  inside a killer; slices are handed out in rounds (\<open>timeslice/round_manager.cpp\<close>,
  \<open>timeslice/time_slice.cpp\<close>); all tenants meet in one shared memory segment
  (\<open>shm/shm_client.cpp\<close>), which a central scheduler writes too. The \<^emph>\<open>interception library\<close>
  (\<open>libbless/libbless.cpp\<close>) has no shared segment: each process listens on a datagram socket, and the
  commands it receives move tenants between a limited and an unlimited context, grant kernel or time
  credit, pause launches, set memory quotas and priorities, and resize the share of the GPU, by a
  context with fewer multiprocessors or by masks written into the launch descriptors (QMD).

  \<^bold>\<open>Theories of the gating library.\<close>
  \<^item> Prelude: 32 and 64 bit wrap-around, linear searches, spin loops, reachability and the locale
    \<open>inductive_invariant\<close>. Float32: binary32 rounding of the weights. CString: \<open>atoi\<close>, \<open>atoll\<close>,
    \<open>strstr\<close>, \<open>strncpy\<close> and decimal printing. Ledger: the locales \<open>ledger\<close> and \<open>quota_ledger\<close>, the
    contract of a table of live allocations beside a usage counter.
  \<^item> KrakenShm: \<open>include/kraken_runtime.h\<close> (\<open>KillerPolicy\<close>, \<open>KrakenRuntime\<close>) and the segment. The
    header that declares the segment is not in the repository: its constants are the parameter
    \<open>kraken_abi\<close>, and its fields are those the sources access.
  \<^item> KillerPolicyLoader: the JSON scanners, loading and reloading of the policy, the killer tests.
    Shown: a printed policy is read back; the arrays stay in bounds for every file; a policy without
    names, and the default patterns, gate kernels that nobody listed.
  \<^item> RoundManager: \<open>time_slice.cpp\<close> and \<open>round_manager.cpp\<close> call by call. Shown: slices of a round are
    nonnegative, sum to the round length up to rounding and respect the weights; a new round
    recharges exactly the active tenants.
  \<^item> StreamGate: \<open>gate_killer_enter\<close> and \<open>gate_killer_exit\<close> as a machine of accesses to shared memory,
    the round manager unrolled into the same machine. Shown: run alone, the machine is the round
    manager of the previous theory; a call returns when nobody holds the tenant back; when peers
    only leave, it returns with no peer inside a killer; the clock of a killer is read right after
    its mark; the exit charges the time since then.
  \<^item> GateSystem: all processes and the scheduler interleaved (\<open>sys_step\<close>), with one launching thread per
    process. A process may end at any point, by its destructor or without it (\<open>end_process\<close>), and a
    slot may be registered again, which keeps its gate state. Shown: the round lock has one
    holder in all interleavings, and every killer mark a process in its killer or one that ended
    there; two killers can be admitted at once, a late trigger erases a mark, a process that ends in a
    round stops all later rounds, and there are tenants that wait for ever.
  \<^item> VirtualRes: \<open>resource/virtual_mem.cpp\<close>, an interpretation of \<open>quota_ledger\<close>, and
    \<open>resource/virtual_sm.cpp\<close>. ShmClient: registration, attach, detach, constructor, destructor.
    Shown: a tenant is turned away only when the table is full, and what the total of virtual SMs counts.
  \<^item> CudaHooks: symbol interposition, the launch and memory hooks. Shown: every launch pointer obtained
    through the hooked lookups is a hook, but for one variant of the name; a killer launch runs, is charged and reopens the gate;
    allocations through the hooks stay within the quota.

  \<^bold>\<open>Theories of the interception library\<close>, one per group of functions of \<open>libbless.cpp\<close>. The atomics
  of the namespace \<open>bless\<close> form a record that each theory extends by the fields of its group
  (\<open>ctl_state\<close>, \<open>prio_state\<close>, \<open>credit_state\<close>, \<open>time_state\<close>, \<open>mem_state\<close>, \<open>qmd_state\<close>, \<open>ctx_state\<close>,
  \<open>bless_state\<close>), so that every operation is stated over all its extensions.
  \<^item> BlessPrio: \<open>priority_queue_gate\<close>, \<open>priority_queue_done\<close>, as calls and as the machine \<open>queue_step\<close> of
    all threads of a process, whose queue counters count the threads inside. BlessCredit: \<open>kernel_credit_gate\<close> with one
    step per atomic access; credits are conserved in every interleaving of threads.
  \<^item> BlessTime: batches, \<open>time_credit_gate\<close>, sampling. Shown: when the gate lets a kernel pass, that a
    batch is booked once and to one account, and, over the machine \<open>bill_step\<close> of all threads of a process,
    that its debt stays below one batch per thread.
  \<^item> BlessMem: tracking and quota, the second interpretation of \<open>quota_ledger\<close>; the statistics agree
    with the table; check and allocation are not atomic.
  \<^item> BlessQmd: the masks of texture processing clusters and the descriptor rewriting; the loops that
    set the bits are equal to a list of allowed clusters, and exactly the descriptors of the
    supported version carry them.
  \<^item> BlessCtx: context creation, \<open>ScopedCtxGuard\<close> (locale \<open>scoped\<close>), \<open>attach_runtime_if_needed\<close> and
    \<open>reconf_limited_ctx\<close>; contexts in use are never destroyed ones, and the guard runs its body in the
    context of the route.
  \<^item> BlessInit: the rest of the state and \<open>ensure_init\<close>, branch by branch over the environment, the
    files it reads and the driver. Shown: the contexts are what the driver creates for the share in
    the environment. BlessCtrl: the control server, a handler per command and the
    dispatch as the ordered chain of prefix tests (locale \<open>handler_invariant\<close>). Shown: no command
    hides another, bad requests are refused without a trace or brought into range, contexts stay valid and the route is pinned
    after the first allocation.
  \<^item> BlessLaunch: the interceptors of launches, allocations, copies, synchronisations, \<open>ioctl\<close> and \<open>mmap\<close>,
    and the destructor. Shown: launches pass when the gates are open and wait when paused, kernels run
    in the context of the route, the quota holds, and a share of a squad is reported once.
  \<^item> This theory composes them: commands that arrive while a launch waits, up to the bill.

  \<^bold>\<open>Conventions.\<close> A spin loop runs against an explicit list of interferences, one between two polls
  (\<open>poll\<close>): the arguments \<open>es\<close> of the gates and the record \<open>call_env\<close> of a launch. \<open>None\<close> is a loop that is
  still waiting when the list is used up, so a statement that a call returns is a statement
  \<open>= Some \<dots>\<close>, and one that it never returns is a statement about all lists. Between two interferences the accesses
  of the waiting thread are one step. The machine \<open>kgate_step\<close> has one step per access, and so has
  \<open>gate_step\<close> with three exceptions: \<open>Deduct\<close> holds the two additions of \<open>timeslice_deduct\<close>, \<open>RechargeTime\<close> the
  reads of \<open>calc_slice_us\<close> and the store of the slice, \<open>PeerActive\<close> the reads of \<open>tenant_count\<close> and \<open>active\<close>.
  In \<open>queue_step\<close> and \<open>bill_step\<close> a step is the stretch between two points where the thread may wait;
  operations that never wait, such as \<open>squad_account\<close>, the memory tracking and the handlers of the
  control server, are one step each. \<open>quiet_launch\<close> is the
  launch during which nobody interferes; its list for \<open>kernel_credit_gate\<close> has five entries, since
  an unobstructed pass of that gate has six steps and so five gaps. It serves the statements that a call
  returns. Clock readings are arguments.
  The driver, the system calls and the file system are arguments (\<open>host\<close>, \<open>cuda_api\<close>, \<open>qmd_driver\<close>, functions
  from names to contents); what a theorem needs of them is a named hypothesis (\<open>api_ok\<close>: a created
  context is a fresh one, and a context that is not null can be pushed, which is used for live
  ones only). Signed overflow, undefined in C, is written as the wrap-around of the
  target. Atomic accesses are sequentially consistent in the model; the memory orders of the
  sources are not represented.

  \<^bold>\<open>Not modelled.\<close> \<open>gating/event_pool.cpp\<close> and \<open>hooks/cupti_hooks.cpp\<close> hold a TODO only.
  \<open>libbless/routing.hpp\<close> and \<open>libbless/context_manager.hpp\<close> declare an earlier context manager that
  \<open>libbless.cpp\<close> does not include and no source defines. \<open>npu_proxy\<close> is a Python service for another device. Of the modelled files: diagnostic
  output to the standard error stream, the creation of the control socket, the resolution of the real
  symbols by \<open>dlsym\<close> in \<open>libbless.cpp\<close>, and the exported getters that return one field.
\<close>

section \<open>Control server and launches\<close>

lemma pause_command: "handle_command h clk ''pause'' (st, s) = (True, st, s\<lparr>pause_mode := True\<rparr>)"
  using dispatch_to [of "''pause''" cmd_pause "[]" h clk "(st, s)"] by (simp add: commands_def cmd_pause_def on_state_def)

lemma resume_command: "handle_command h clk ''resume'' (st, s) = (True, st, s\<lparr>pause_mode := False\<rparr>)"
  using dispatch_to [of "''resume''" cmd_resume "[]" h clk "(st, s)"] by (simp add: commands_def cmd_resume_def on_state_def)

lemma add_command:
  "in_i64 n \<Longrightarrow> handle_command h clk (''time_add '' @ dec_int n) (st, s) = (True, st, s\<lparr>time_credit_us := wrap64 (time_credit_us s + n)\<rparr>)"
  using dispatch_to [of "''time_add ''" cmd_time_add "dec_int n" h clk "(st, s)"] dec_int_short [of n]
  by (simp add: commands_def cmd_time_add_def on_state_def atoll_dec_int)

lemma credit_command:
  "in_i64 n \<Longrightarrow> 0 \<le> n \<Longrightarrow> handle_command h clk (''time_credit '' @ dec_int n) (st, s) =
     (True, st, s\<lparr>time_unlimited := False, time_credit_us := n\<rparr>)"
  using dispatch_to [of "''time_credit ''" cmd_time_credit "dec_int n" h clk "(st, s)"] dec_int_short [of n]
  by (simp add: commands_def cmd_time_credit_def on_state_def atoll_dec_int Let_def)

lemma wait_while_released:
  assumes "P s" and "\<not> P (f s)"
  shows "wait_while P (replicate k (\<lambda>t. t) @ [f]) s = Some (f s)"
proof -
  have "poll (\<lambda>s. if P s then Inl s else Inr s) (replicate k (\<lambda>t. t) @ [f]) s = Some (f s, [])"
    using assms by (induction k) (simp_all add: poll_Cons poll_exit)
  then show ?thesis by (simp add: wait_while_def)
qed

text \<open>
  C20. Pause and resume, from the datagram to the driver: after the datagram \<open>pause\<close> a launch of a tenant
  on the limited route never reaches the driver, however often it polls and whatever the
  other threads and the control server do in the meantime short of lifting the pause or changing the
  route; and the arrival of \<open>resume\<close> after any number of polls lets exactly that launch through,
  with the code of the real launch.
\<close>

theorem pause_resume_end_to_end:
  fixes s :: "'a bless_state_scheme"
  assumes "gates_open s" and "route s = LIMITED" and "credit_left th s" and "handle_command h clk ''pause'' (st, s) = (go, st1, s1)"
    and "E = quiet_launch\<lparr>pause_env := replicate k (\<lambda>t. t) @ [\<lambda>t. snd (snd (handle_command h clk' ''resume'' (st, t)))]\<rparr>"
  shows "go \<and>
    (\<forall>F. (\<forall>e \<in> set (prio_env F) \<union> set (gate_env F) \<union> set (pause_env F) \<union> {after F 0}. \<forall>t. paused t \<longrightarrow> paused (e t)) \<longrightarrow>
       bless_cudaLaunchKernel h rc F (th, s1) = None) \<and>
    (\<exists>c th' s'. bless_cudaLaunchKernel h rc E (th, s1) = Some ((rc, c), th', s'))"
proof -
  have s1: "go" "s1 = s\<lparr>pause_mode := True\<rparr>" using assms(4) by (simp_all add: pause_command)
  let ?p = "current_priority s1" and ?q = "queue_add (current_priority s1) 1 s1"
  have p: "paused s1" "inited s1" "rt_attached s1" using assms(1,2) s1 by (simp_all add: paused_def gates_open_def)
  have f: "pause_env E = replicate k (\<lambda>t. t) @ [\<lambda>t. t\<lparr>pause_mode := False\<rparr>]" "gate_env E = []" "prio_env E = []"
    "kcredit_env E = replicate 5 (False, \<lambda>s. s)" "\<And>i t. after E i t = t"
    by (simp_all add: assms(5) quiet_launch_def resume_command)
  have "wait_while pause_mode (pause_env E) ?q = Some (?q\<lparr>pause_mode := False\<rparr>)"
    unfolding f by (rule wait_while_released) (simp_all add: s1)
  then have "route_gate E ?q = Some (?q\<lparr>pause_mode := False\<rparr>)"
    using assms(1,2) s1 by (simp add: route_gate_def wait_while_pass gates_open_def)
  moreover have "credit_left th (?q\<lparr>pause_mode := False\<rparr>)" using assms(3) s1 by (auto simp: credit_left_def split: if_splits)
  moreover have "\<not> preempt_requested (?q\<lparr>pause_mode := False\<rparr>)" using assms(1) s1 by (simp add: gates_open_def)
  ultimately have "\<exists>r. bless_cudaLaunchKernel h rc E (th, s1) = Some r \<and> fst (fst r) = rc"
    using assms(1) s1 by (intro launch_open [OF _ _ _ _ f(3,5,4)]) (simp_all add: gates_open_def)
  then have "\<exists>c th' s'. bless_cudaLaunchKernel h rc E (th, s1) = Some ((rc, c), th', s')" by (metis prod.collapse)
  then show ?thesis using s1(1) paused_launch_lemma [OF p(2,3,1)] by blast
qed

section \<open>Time credit, from the feeder to the bill\<close>

definition bill_view :: "'a bless_state_scheme \<Rightarrow> int \<times> bool \<times> int \<times> bool \<times> bool" where
  "bill_view s = (time_credit_us s, time_unlimited s, credit_mode s, inited s, rt_attached s)"

lemma bill_view_frame [simp]:
  "bill_view (squad_account h s) = bill_view s" "bill_view (priority_queue_done s) = bill_view s"
  "bill_view (leave_gate gm now t0 s) = bill_view s"
  by (simp_all add: bill_view_def squad_account_def priority_queue_done_def queue_add_def leave_gate_def bless_gate_block_record_def
      master_send_def Let_def)

lemma guard_bill_view:
  "guard_enter api e r (st, s) = (p, st', s') \<Longrightarrow> bill_view s' = bill_view s"
  "guard_exit e p (st, s) = (st', s') \<Longrightarrow> bill_view s' = bill_view s"
  by (auto simp: guard_enter_def guard_exit_def guard_target_def switch_recorded_def bill_view_def Let_def split: if_splits)

lemma run_kernel_bill:
  assumes "run_kernel h rc E (th, s) = (r, th', s')"
  shows "fst r = rc \<and> bill_view s' = bill_view s \<and> locals th' = locals th"
proof -
  obtain p st1 s1 where g: "guard_enter (cuda h) (fst (switch_us E)) None (stack th, s) = (p, st1, s1)" by (meson prod_cases3)
  obtain st2 s2 where x: "guard_exit (snd (switch_us E)) p (st1, priority_queue_done s1) = (st2, s2)" by (meson surj_pair)
  have "r = (rc, current_ctx st1) \<and> th' = th\<lparr>stack := st2\<rparr> \<and> s' = s2"
    using assms g x by (auto simp: run_kernel_def with_guard_def)
  then show ?thesis using guard_bill_view(1) [OF g] guard_bill_view(2) [OF x] by simp
qed

lemma wait_until_refill:
  assumes "time_credit_us s = 0" and "\<not> time_unlimited s" and "\<not> wc_on s" and "0 < time_credit_us (f s)" and "\<not> time_unlimited (f s)"
    and "cr = Some 0 \<or> cr = None"
  shows "poll (tgate_wait 0 gm now) (map tick (map (\<lambda>t. (t, \<lambda>s. s)) ts @ [(t0, f)])) (n, cr, w, l, s) = Some ((l, leave_gate gm t0 now (f s)), [])"
  using assms(6)
proof (induction ts arbitrary: n cr w)
  case Nil
  then have 1: "tgate_wait 0 gm now (n, cr, w, l, s) = Inl (n, None, backoff 50 w, l, s)"
    using assms(1-3) by (auto simp: tgate_wait_def peer_is_idle_def Let_def)
  have "tgate_wait 0 gm now (t0, None, backoff 50 w, l, f s) = Inr (l, leave_gate gm t0 now (f s))"
    using assms(4,5) by (simp add: tgate_wait_def Let_def)
  then show ?case by (simp add: poll_Cons [where body = "tgate_wait 0 gm now", OF 1] tick_def poll_exit)
next
  case (Cons t ts)
  then have 1: "tgate_wait 0 gm now (n, cr, w, l, s) = Inl (n, None, backoff 50 w, l, s)"
    using assms(1-3) by (auto simp: tgate_wait_def peer_is_idle_def Let_def)
  have "tick (t, \<lambda>s. s) (n, None :: int option, backoff 50 w, l, s) = (t, None, backoff 50 w, l, s)" by (simp add: tick_def)
  then show ?case using Cons.IH [of None t "backoff 50 w"] poll_Cons [where body = "tgate_wait 0 gm now", OF 1] by simp
qed

lemma tgate_after_refill:
  assumes "\<not> boost_mode s" and "\<not> time_unlimited s" and "time_credit_us s = 0" and "current_priority s \<noteq> URGENT" and "\<not> wc_on s"
    and "tl_batch_kernel_count l = 0" and "0 < time_credit_us (f s)" and "\<not> time_unlimited (f s)"
  shows "time_credit_gate (map (\<lambda>t. (t, \<lambda>s. s)) ts @ [(t0, f)]) now (l, s) = Some (l, leave_gate (gate_metrics_on s) t0 now (f s))"
proof -
  have "time_batch_end_and_charge now (l, s) = (l, s)" using assms(6) by (simp add: time_batch_end_and_charge_def)
  then show ?thesis
    using assms(1-4) wait_until_refill [where f = f, OF assms(3,2,5,7,8), of "Some 0"] by (simp add: time_credit_gate_cases Let_def)
qed

text \<open>
  C5. The life of a slice of time, through all components: a tenant in time mode whose credit the
  feeder has set to zero cannot launch, however often it polls and whatever the other threads and the
  control server do, as long as they leave it starved before it waits (in time mode, without
  credit, not unlimited, not free riding, not boosted, not urgent) and without credit, not
  unlimited and not free riding while it waits; the datagram
  \<open>time_add n\<close> that arrives after any number of polls lets the waiting launch through; and the next synchronisation takes
  the time since the launch off the credit, leaving a debt when it took longer than \<open>n\<close>.
\<close>

theorem time_slice_end_to_end:
  fixes s :: "'a bless_state_scheme"
  assumes "gates_open s" and "credit_mode s = 1" and "\<not> boost_mode s" and "current_priority s = NORMAL" and "\<not> wc_on s"
    and "locals th = tls_zero" and "0 < n" and "in_i64 n"
    and "handle_command h clk (''time_credit '' @ dec_int 0) (st, s) = (go, st1, s1)"
    and "E = quiet_launch\<lparr>time_env := map (\<lambda>t. (t, \<lambda>s. s)) ts @ [(t0, \<lambda>t. snd (snd (handle_command h clk' (''time_add '' @ dec_int n) (st, t))))],
           now_batch := b\<rparr>"
  shows "go \<and>
    (\<forall>F. (\<forall>e \<in> set (prio_env F) \<union> set (gate_env F) \<union> set (pause_env F) \<union> set (prio2_env F) \<union> {after F 0, after F 1, after F 2}.
            \<forall>t. starved t \<longrightarrow> starved (e t)) \<and>
          (\<forall>e \<in> set (time_env F). \<forall>t. no_time_left t \<longrightarrow> no_time_left (snd e t)) \<longrightarrow>
       bless_cudaLaunchKernel h rc F (th, s1) = None) \<and>
    (\<exists>c th2 s2. bless_cudaLaunchKernel h rc E (th, s1) = Some ((rc, c), th2, s2) \<and>
      (\<forall>rc' now. time_credit_us (snd (snd (bless_cudaDeviceSynchronize h rc' now (th2, s2)))) = wrap64 (n - wrap64 (now - b))))"
proof -
  have z: "in_i64 0" by (simp add: in_i64_def)
  have s1: "go" "s1 = s\<lparr>time_unlimited := False, time_credit_us := 0\<rparr>" using assms(9) unfolding credit_command [OF z order_refl] by simp_all
  let ?q = "queue_add NORMAL 1 s1"
  let ?f = "\<lambda>t :: 'a bless_state_scheme. t\<lparr>time_credit_us := wrap64 (time_credit_us t + n)\<rparr>"
  have n: "wrap64 (0 + n) = n" using assms(8) by (simp add: wrap64_id)
  have e: "enter_library h (th, s1) = (th, s1)" using assms(1) s1 by (intro enter_inited) (simp_all add: gates_open_def)
  have pq: "priority_queue_gate [] s1 = Some (?q, [])" using prio_gate_free [of s1] assms(1,4) s1 by (simp add: gates_open_def)
  have rg: "route_gate F ?q = Some ?q" for F :: "'a bless_state_scheme call_env"
    using assms(1) s1 by (simp add: route_gate_def wait_while_pass gates_open_def)
  have pg: "preempt_gate F ?q = Some ?q" for F :: "'a bless_state_scheme call_env"
    using assms(1) s1 by (simp add: preempt_gate_def gates_open_def)
  have qf: "\<not> boost_mode ?q" "\<not> time_unlimited ?q" "time_credit_us ?q = 0" "current_priority ?q \<noteq> URGENT" "\<not> wc_on ?q"
      "tl_batch_kernel_count (locals th) = 0" "0 < time_credit_us (?f ?q)" "\<not> time_unlimited (?f ?q)"
    using assms(3-7) n s1 by (simp_all add: tls_zero_def queue_add_def)
  note tg = tgate_after_refill [where f = ?f, OF qf]
  have st: "inited s1" "rt_attached s1" "starved s1" using assms(1-5) s1 by (simp_all add: gates_open_def starved_def no_time_left_def)
  note none = starved_launch_lemma [OF st qf(6)]
  have E: "prio_env E = []" "after E i t = t" "time_env E = map (\<lambda>t. (t, \<lambda>s. s)) ts @ [(t0, ?f)]" "now_batch E = b" for i t
    unfolding assms(10) add_command [OF assms(8)] by (simp_all add: quiet_launch_def)
  let ?th = "th\<lparr>locals := time_batch_start b (locals th)\<rparr>" and ?s4 = "leave_gate (gate_metrics_on ?q) t0 (now_gate E) (?f ?q)"
  have cg: "credit_gate E (th, ?q) = Some (?th, ?s4)" using assms(2) s1 tg by (simp add: credit_gate_def E)
  have l: "bless_cudaLaunchKernel h rc E (th, s1) = Some (run_kernel h rc E (?th, squad_account h ?s4))"
    using launch_steps [OF e, of E ?q "[]" ?q ?q ?th ?s4 rc] pq rg pg cg by (simp add: E)
  obtain r th2 s2 where rk: "run_kernel h rc E (?th, squad_account h ?s4) = (r, th2, s2)" by (meson prod_cases3)
  have q: "bill_view (?f ?q) = (n, False, 1, True, True)"
    using assms(1,2) n s1 by (simp add: bill_view_def gates_open_def queue_add_def)
  have bv: "bill_view s2 = (n, False, 1, True, True)" "locals th2 = time_batch_start b (locals th)" "fst r = rc"
    using run_kernel_bill [OF rk] q by simp_all
  have "time_credit_us (snd (snd (bless_cudaDeviceSynchronize h rc' now (th2, s2)))) = wrap64 (n - wrap64 (now - b))" for rc' now
  proof -
    have f: "time_credit_us s2 = n" "\<not> time_unlimited s2" "credit_mode s2 = 1" "inited s2" "rt_attached s2" using bv(1) by (simp_all add: bill_view_def)
    have k: "wrap32 1 = 1" by (simp add: wrap32_def)
    have lc: "tl_batch_kernel_count (locals th2) = 1" "tl_batch_start_us (locals th2) = b" "\<not> tl_wc_riding (locals th2)"
      using bv(2) assms(6) k by (simp_all add: time_batch_start_def tls_zero_def Let_def)
    show ?thesis using f lc by (simp add: bless_cudaDeviceSynchronize_def enter_inited time_batch_end_and_charge_def Let_def)
  qed
  moreover have "bless_cudaLaunchKernel h rc E (th, s1) = Some ((rc, snd r), th2, s2)" using l rk bv(3) by (cases r) simp
  ultimately show ?thesis using s1(1) none by blast
qed

section \<open>Instances\<close>

theorem pause_resume_end_to_end_witness:
  "bless_cudaLaunchKernel (sample_host Map.empty) 0 (quiet_launch\<lparr>pause_env := replicate 5 (\<lambda>t. t\<lparr>boost_mode := True\<rparr>)\<rparr>)
     (sample_thread, running_bless\<lparr>pause_mode := True\<rparr>) = None"
proof -
  have p: "handle_command (sample_host Map.empty) (0, 0) ''pause'' ([], running_bless) = (True, [], running_bless\<lparr>pause_mode := True\<rparr>)"
    by (rule pause_command)
  have "gates_open running_bless" "credit_left sample_thread running_bless"
    by (simp_all add: gates_open_def credit_left_def sample_thread_def new_thread_def)
  from pause_resume_end_to_end [OF this(1) _ this(2) p refl] show ?thesis by (simp add: quiet_launch_def paused_def)
qed

theorem time_slice_end_to_end_witness:
  "\<exists>c th2 s2. bless_cudaLaunchKernel (sample_host Map.empty) 0
      (quiet_launch\<lparr>time_env := [(1, \<lambda>t. t), (5, \<lambda>t. snd (snd (handle_command (sample_host Map.empty) (0, 0) (''time_add '' @ dec_int 100) ([], t))))], now_batch := 7\<rparr>)
      (sample_thread, running_bless\<lparr>time_unlimited := False, time_credit_us := 0\<rparr>) = Some ((0, c), th2, s2) \<and>
    time_credit_us (snd (snd (bless_cudaDeviceSynchronize (sample_host Map.empty) 0 207 (th2, s2)))) = - 100"
proof -
  let ?h = "sample_host Map.empty"
  let ?E = "quiet_launch\<lparr>time_env := [(1, \<lambda>t. t), (5, \<lambda>t. snd (snd (handle_command ?h (0, 0) (''time_add '' @ dec_int 100) ([], t))))], now_batch := 7\<rparr>"
  have c: "handle_command ?h (0, 0) (''time_credit '' @ dec_int 0) ([], running_bless) =
      (True, [], running_bless\<lparr>time_unlimited := False, time_credit_us := 0\<rparr>)"
    by (rule credit_command) (simp_all add: in_i64_def)
  have g: "gates_open running_bless" "\<not> boost_mode running_bless" "\<not> wc_on running_bless"
    by (simp_all add: gates_open_def) (simp_all add: running_bless_def initial_defs)
  have w: "wrap64 (100 - wrap64 (207 - 7)) = - 100" by (simp add: wrap64_def)
  have "\<exists>c th2 s2. bless_cudaLaunchKernel ?h 0 ?E (sample_thread, running_bless\<lparr>time_unlimited := False, time_credit_us := 0\<rparr>) = Some ((0, c), th2, s2) \<and>
      (\<forall>rc' now. time_credit_us (snd (snd (bless_cudaDeviceSynchronize ?h rc' now (th2, s2)))) = wrap64 (100 - wrap64 (now - 7)))"
    using time_slice_end_to_end [OF g(1) _ g(2) _ g(3) _ _ _ c refl, of sample_thread 100 0 7 "[1]" 5 "(0, 0)"]
    by (simp add: sample_thread_def in_i64_def)
  then show ?thesis using w by metis
qed

end
